(* ===== verification/Prelude.thy ===== *)
theory Prelude
  imports Main "HOL-Library.Word"
begin

text \<open>
  Shared vocabulary of the development: the C integer types of the ARMv6 target as words,
  the named collections the component proofs draw on, and the generic lemmas on lists and
  words that more than one component uses.

  The services are cross-compiled for \<^verbatim>\<open>arm-linux-gnueabihf\<close> (common.mk), where \<open>size_t\<close>,
  \<open>unsigned\<close> and \<open>unsigned long\<close> all have 32 bits.
\<close>

unbundle bit_operations_syntax

section \<open>C types\<close>

type_synonym u8 = "8 word"
type_synonym u16 = "16 word"
type_synonym u32 = "32 word"
type_synonym size_t = "32 word"

text \<open>A file descriptor as the kernel hands it out.\<close>

type_synonym fd = int

section \<open>Collections of facts\<close>

named_theorems wf_intros "a well-formedness invariant is kept by an operation"
named_theorems codec_simps "byte-level encoders and decoders"
named_theorems effect_simps "what an operation does to the fields it writes"

section \<open>Lists\<close>

lemma take_Suc_append_nth: "k < length xs \<Longrightarrow> take (Suc k) xs = take k xs @ [xs ! k]"
  by (rule take_Suc_conv_app_nth)

lemma drop_take_length: "n \<le> length xs \<Longrightarrow> length (take n xs) = n"
  by simp

lemma replicate_map_upt: "map (\<lambda>_. c) [0..<n] = replicate n c"
  by (induction n) (simp_all add: replicate_append_same)

lemma map_upt_Suc_hd: "0 < n \<Longrightarrow> map f [0..<n] = f 0 # map (\<lambda>k. f (Suc k)) [0..<n - 1]"
  by (cases n) (simp_all add: upt_conv_Cons map_Suc_upt [symmetric] comp_def del: upt_Suc)

text \<open>Two nested loops as one over the pairs.\<close>

lemma fold_product: "fold (\<lambda>y. fold (\<lambda>x. f y x) xs) ys s = fold (\<lambda>(y, x). f y x) (List.product ys xs) s"
proof (induction ys arbitrary: s)
  case (Cons y ys)
  have "fold (\<lambda>(y, x). f y x) (map (Pair y) xs) s = fold (\<lambda>x. f y x) xs s" for s
    by (simp add: fold_map comp_def)
  then show ?case using Cons by simp
qed simp

text \<open>\<^verbatim>\<open>memcpy\<close> into a block of memory: \<open>None\<close> when it would leave the block.\<close>

definition write_bytes :: "'a list \<Rightarrow> nat \<Rightarrow> 'a list \<Rightarrow> 'a list option" where
  "write_bytes b i xs =
     (if i + length xs \<le> length b then Some (take i b @ xs @ drop (i + length xs) b) else None)"

lemma write_bytes_fits:
  "i + length xs \<le> length b \<Longrightarrow> write_bytes b i xs = Some (take i b @ xs @ drop (i + length xs) b)"
  by (simp add: write_bytes_def)

lemma write_bytes_after:
  assumes "length xs \<le> length rest"
  shows "write_bytes (done @ rest) (length done) xs = Some (done @ xs @ drop (length xs) rest)"
  using assms by (simp add: write_bytes_def)

section \<open>Words\<close>

text \<open>
  Distances between free-running counters: \<open>head - tail\<close> on words is the number of
  elements between them, also when the counters have wrapped.
\<close>

lemma unat_diff_add:
  fixes a b c :: "'a::len word"
  assumes "unat (b - a) \<le> unat (c - a)"
  shows "unat (c - b) = unat (c - a) - unat (b - a)"
proof -
  have "c - b = (c - a) - (b - a)" by simp
  then show ?thesis using assms by (metis unat_sub word_le_nat_alt)
qed

lemma unat_Suc_diff:
  fixes a b :: "'a::len word"
  assumes "Suc (unat (b - a)) < 2 ^ LENGTH('a)"
  shows "unat (b + 1 - a) = Suc (unat (b - a))"
proof -
  have "b + 1 - a = (b - a) + 1" by simp
  also have "unat \<dots> = Suc (unat (b - a))"
    using assms by (simp add: unat_word_ariths)
  finally show ?thesis .
qed

lemma unat_diff_Suc:
  fixes a b :: "'a::len word"
  assumes "0 < unat (b - a)"
  shows "unat (b - (a + 1)) = unat (b - a) - 1"
proof -
  have "unat (b - (a + 1)) = unat ((b - a) - 1)" by (simp add: algebra_simps)
  also have "\<dots> = unat (b - a) - 1"
    using assms by (metis not_gr_zero unat_minus_one unat_0)
  finally show ?thesis .
qed

lemma unat_bound: "unat (w :: 'a::len word) < 2 ^ LENGTH('a)"
  by (rule unsigned_less)

lemma unat_of_nat_small: "n < 2 ^ LENGTH('a) \<Longrightarrow> unat (of_nat n :: 'a::len word) = n"
  by (simp add: unat_of_nat take_bit_nat_eq_self)

lemma unat_diff_eq_0: "unat (b - a) = 0 \<longleftrightarrow> a = (b :: 'a::len word)"
  by (metis eq_iff_diff_eq_0 unat_eq_zero)


section \<open>Decimal numbers\<close>

text \<open>\<^verbatim>\<open>%u\<close> of the printf family.\<close>

fun decimal :: "nat \<Rightarrow> string" where
  "decimal n =
     (if n < 10 then [char_of (48 + n)] else decimal (n div 10) @ [char_of (48 + n mod 10)])"

declare decimal.simps [simp del]

lemma decimal_not_Nil [simp]: "decimal n \<noteq> []"
  by (subst decimal.simps) simp

lemma length_decimal_le: "n < 10 ^ Suc k \<Longrightarrow> length (decimal n) \<le> Suc k"
proof (induction k arbitrary: n)
  case 0
  then show ?case by (subst decimal.simps) simp
next
  case (Suc k)
  then have "n div 10 < 10 ^ Suc k" by (simp add: less_mult_imp_div_less mult.commute)
  from Suc.IH [OF this] show ?case by (subst decimal.simps) simp
qed

text \<open>What C reads of an array of characters: everything before the first NUL.\<close>

definition c_string :: "string \<Rightarrow> string" where
  "c_string = takeWhile (\<lambda>ch. ch \<noteq> CHR 0x00)"

lemma length_c_string [simp]: "length (c_string s) \<le> length s"
  by (simp add: c_string_def length_takeWhile_le)

lemma c_string_idem [simp]: "c_string (c_string s) = c_string s"
  by (simp add: c_string_def takeWhile_idem)

end
