(* ===== verification/Spsc_Queue.thy ===== *)
theory Spsc_Queue
  imports Prelude
begin

text \<open>
  The lockless single-producer single-consumer command queue of
  \<^verbatim>\<open>ld2410s_uart/transport.c\<close>: its representation (an array of eight slots and two
  free-running \<open>size_t\<close> counters), its two operations, the bounded-FIFO interface they are
  proved to implement, and the interleaving of the two operations at the granularity of
  their atomic accesses.
\<close>

section \<open>Representation and operations\<close>

definition TRANSPORT_QUEUE_SIZE :: nat where
  "TRANSPORT_QUEUE_SIZE = 8"

record 'a spsc =
  slots :: "'a list"
  queue_head :: size_t
  queue_tail :: size_t

text \<open>\<open>slots\<close> is the array \<^verbatim>\<open>queue[TRANSPORT_QUEUE_SIZE]\<close>, zeroed by \<^verbatim>\<open>calloc\<close>.\<close>

definition spsc_init :: "'a \<Rightarrow> 'a spsc" where
  "spsc_init z = \<lparr>slots = replicate TRANSPORT_QUEUE_SIZE z, queue_head = 0, queue_tail = 0\<rparr>"

definition slot_index :: "size_t \<Rightarrow> nat" where
  "slot_index c = unat c mod TRANSPORT_QUEUE_SIZE"

definition spsc_enqueue :: "'a spsc \<Rightarrow> 'a \<Rightarrow> bool \<times> 'a spsc" where
  "spsc_enqueue f cmd =
     (let head = queue_head f; tail = queue_tail f in
      if unat (head - tail) \<ge> TRANSPORT_QUEUE_SIZE then (False, f)
      else (True, f\<lparr>slots := (slots f)[slot_index head := cmd], queue_head := head + 1\<rparr>))"

definition spsc_dequeue :: "'a spsc \<Rightarrow> ('a \<times> 'a spsc) option" where
  "spsc_dequeue f =
     (let tail = queue_tail f; head = queue_head f in
      if tail = head then None
      else Some (slots f ! slot_index tail, f\<lparr>queue_tail := tail + 1\<rparr>))"

section \<open>Abstraction to a list\<close>

definition spsc_count :: "'a spsc \<Rightarrow> nat" where
  "spsc_count f = unat (queue_head f - queue_tail f)"

definition spsc_contents :: "'a spsc \<Rightarrow> 'a list" where
  "spsc_contents f =
     map (\<lambda>k. slots f ! slot_index (queue_tail f + of_nat k)) [0..<spsc_count f]"

definition spsc_inv :: "'a spsc \<Rightarrow> bool" where
  "spsc_inv f \<longleftrightarrow> length (slots f) = TRANSPORT_QUEUE_SIZE \<and> spsc_count f \<le> TRANSPORT_QUEUE_SIZE"

lemma length_spsc_contents [simp]: "length (spsc_contents f) = spsc_count f"
  by (simp add: spsc_contents_def)

lemma spsc_inv_init [simp, wf_intros]: "spsc_inv (spsc_init z)"
  by (simp add: spsc_inv_def spsc_init_def spsc_count_def)

lemma spsc_contents_init [simp]: "spsc_contents (spsc_init z) = []"
  by (simp add: spsc_contents_def spsc_init_def spsc_count_def)

text \<open>
  The queue size divides the range of the counters, so indices stay consecutive modulo the
  queue size when a counter wraps from \<open>2 ^ 32 - 1\<close> to \<open>0\<close>.
\<close>

lemma slot_index_add: "slot_index (c + of_nat k) = (slot_index c + k) mod TRANSPORT_QUEUE_SIZE"
proof -
  have "unat (c + of_nat k) mod 8 = (unat c + k) mod 8"
    by (simp add: unat_word_ariths unat_of_nat mod_mod_cancel mod_add_right_eq)
  then show ?thesis by (simp add: slot_index_def TRANSPORT_QUEUE_SIZE_def mod_add_left_eq)
qed

lemma slot_index_less [simp]: "slot_index c < TRANSPORT_QUEUE_SIZE"
  by (simp add: slot_index_def TRANSPORT_QUEUE_SIZE_def)

lemma slot_index_distinct:
  assumes "i < TRANSPORT_QUEUE_SIZE" and "j < TRANSPORT_QUEUE_SIZE" and "i \<noteq> j"
  shows "slot_index (c + of_nat i) \<noteq> slot_index (c + of_nat j)"
proof -
  have "(slot_index c + k) mod 8 = (if slot_index c + k < 8 then slot_index c + k else slot_index c + k - 8)"
    if "k < 8" for k
    using that slot_index_less [of c] by (simp add: TRANSPORT_QUEUE_SIZE_def mod_if)
  from this [of i] this [of j] assms show ?thesis
    unfolding slot_index_add by (auto simp: TRANSPORT_QUEUE_SIZE_def split: if_splits)
qed

lemma head_as_offset: "queue_head f = queue_tail f + of_nat (spsc_count f)"
  by (simp add: spsc_count_def)


lemma spsc_contents_Suc_head:
  assumes "spsc_count f' = Suc (spsc_count f)" and "Suc (spsc_count f) \<le> TRANSPORT_QUEUE_SIZE"
    and "queue_tail f' = queue_tail f" and "length (slots f) = TRANSPORT_QUEUE_SIZE"
    and "slots f' = (slots f)[slot_index (queue_head f) := x]"
  shows "spsc_contents f' = spsc_contents f @ [x]"
proof -
  have "slots f' ! slot_index (queue_tail f + of_nat k) = slots f ! slot_index (queue_tail f + of_nat k)"
    if "k < spsc_count f" for k
    using that assms slot_index_distinct [of k "spsc_count f" "queue_tail f"]
    by (simp add: head_as_offset nth_list_update_neq)
  moreover have "slots f' ! slot_index (queue_tail f + of_nat (spsc_count f)) = x"
    using assms by (simp flip: head_as_offset)
  ultimately show ?thesis
    using assms by (simp add: spsc_contents_def)
qed

lemma spsc_contents_Suc_tail:
  assumes "0 < spsc_count f" and "slots f' = slots f"
    and "queue_head f' = queue_head f" and "queue_tail f' = queue_tail f + 1"
  shows "spsc_contents f = slots f ! slot_index (queue_tail f) # spsc_contents f'"
proof -
  have "spsc_count f' = spsc_count f - 1"
    using assms by (simp add: spsc_count_def unat_diff_Suc)
  with assms show ?thesis
    by (simp add: spsc_contents_def map_upt_Suc_hd add.assoc)
qed

section \<open>The bounded-FIFO interface\<close>

text \<open>
  What the callers of the queue rely on: an operation that appends unless the queue is full,
  one that removes the oldest element, and a bound on the number of elements.
\<close>

locale bounded_fifo =
  fixes enq :: "'q \<Rightarrow> 'a \<Rightarrow> bool \<times> 'q"
    and deq :: "'q \<Rightarrow> ('a \<times> 'q) option"
    and contents :: "'q \<Rightarrow> 'a list"
    and inv :: "'q \<Rightarrow> bool"
    and cap :: nat
  assumes bounded: "inv q \<Longrightarrow> length (contents q) \<le> cap"
    and enq_full: "inv q \<Longrightarrow> length (contents q) = cap \<Longrightarrow> enq q x = (False, q)"
    and enq_room: "inv q \<Longrightarrow> length (contents q) < cap \<Longrightarrow>
          \<exists>q'. enq q x = (True, q') \<and> inv q' \<and> contents q' = contents q @ [x]"
    and deq_empty: "inv q \<Longrightarrow> contents q = [] \<Longrightarrow> deq q = None"
    and deq_Cons: "inv q \<Longrightarrow> contents q = x # xs \<Longrightarrow>
          \<exists>q'. deq q = Some (x, q') \<and> inv q' \<and> contents q' = xs"

text \<open>Any sequence of calls: what was accepted, what came out, and the queue it leaves.\<close>

datatype 'a qop = Enq 'a | Deq

fun fifo_run :: "('q \<Rightarrow> 'a \<Rightarrow> bool \<times> 'q) \<Rightarrow> ('q \<Rightarrow> ('a \<times> 'q) option) \<Rightarrow> 'q \<Rightarrow> 'a qop list
    \<Rightarrow> 'a list \<times> 'a list \<times> 'q" where
  "fifo_run enq deq q [] = ([], [], q)"
| "fifo_run enq deq q (Enq x # ops) =
     (case enq q x of (ok, q1) \<Rightarrow>
        (case fifo_run enq deq q1 ops of (ins, outs, q') \<Rightarrow>
           (if ok then x # ins else ins, outs, q')))"
| "fifo_run enq deq q (Deq # ops) =
     (case deq q of
        None \<Rightarrow> fifo_run enq deq q ops
      | Some (x, q1) \<Rightarrow>
          (case fifo_run enq deq q1 ops of (ins, outs, q') \<Rightarrow> (ins, x # outs, q')))"

context bounded_fifo
begin

lemma enq_cases:
  assumes "inv q"
  obtains (rejected) "enq q x = (False, q)" "length (contents q) = cap"
    | (accepted) q' where "enq q x = (True, q')" "inv q'" "contents q' = contents q @ [x]"
  using assms bounded [of q] enq_full [of q x] enq_room [of q x] by fastforce

lemma deq_cases:
  assumes "inv q"
  obtains (empty) "deq q = None" "contents q = []"
    | (removed) x xs q' where "deq q = Some (x, q')" "contents q = x # xs" "inv q'" "contents q' = xs"
  using assms deq_empty [of q] deq_Cons [of q] by (cases "contents q") fastforce+

lemma enq_accepted_iff: "inv q \<Longrightarrow> fst (enq q x) \<longleftrightarrow> length (contents q) < cap"
  using bounded [of q] enq_full [of q x] enq_room [of q x] by fastforce

lemma run_fifo:
  "inv q \<Longrightarrow> fifo_run enq deq q ops = (ins, outs, q') \<Longrightarrow>
     inv q' \<and> contents q @ ins = outs @ contents q'"
proof (induction ops arbitrary: q ins outs q')
  case Nil
  then show ?case by simp
next
  case (Cons op ops)
  show ?case
  proof (cases op)
    case (Enq x)
    from \<open>inv q\<close> show ?thesis
    proof (cases rule: enq_cases [of q x])
      case rejected
      with Cons Enq show ?thesis by (auto split: prod.splits)
    next
      case (accepted q1)
      with Cons.prems Enq obtain ins1 where "fifo_run enq deq q1 ops = (ins1, outs, q')" "ins = x # ins1"
        by (auto split: prod.splits)
      with Cons.IH [of q1 ins1 outs q'] accepted show ?thesis by simp
    qed
  next
    case Deq
    from \<open>inv q\<close> show ?thesis
    proof (cases rule: deq_cases [of q])
      case empty
      with Cons.prems Deq Cons.IH [of q ins outs q'] show ?thesis by simp
    next
      case (removed x xs q1)
      with Cons.prems Deq obtain outs1 where "fifo_run enq deq q1 ops = (ins, outs1, q')" "outs = x # outs1"
        by (auto split: prod.splits)
      with Cons.IH [of q1 ins outs1 q'] removed show ?thesis by simp
    qed
  qed
qed

end

section \<open>The queue implements the interface\<close>

lemma spsc_enqueue_full:
  "spsc_inv f \<Longrightarrow> spsc_count f = TRANSPORT_QUEUE_SIZE \<Longrightarrow> spsc_enqueue f x = (False, f)"
  by (simp add: spsc_enqueue_def spsc_count_def)

lemma spsc_enqueue_room:
  assumes "spsc_inv f" and "spsc_count f < TRANSPORT_QUEUE_SIZE"
  shows "\<exists>f'. spsc_enqueue f x = (True, f') \<and> spsc_inv f' \<and> spsc_contents f' = spsc_contents f @ [x]"
proof -
  let ?f = "f\<lparr>slots := (slots f)[slot_index (queue_head f) := x], queue_head := queue_head f + 1\<rparr>"
  have "spsc_count ?f = Suc (spsc_count f)"
    using assms by (simp add: spsc_count_def TRANSPORT_QUEUE_SIZE_def unat_Suc_diff)
  with assms have "spsc_inv ?f" and "spsc_contents ?f = spsc_contents f @ [x]"
    by (auto simp: spsc_inv_def intro: spsc_contents_Suc_head)
  with assms show ?thesis
    by (simp add: spsc_enqueue_def spsc_count_def Let_def)
qed

lemma spsc_dequeue_empty: "spsc_contents f = [] \<Longrightarrow> spsc_dequeue f = None"
  by (simp add: spsc_dequeue_def spsc_contents_def spsc_count_def unat_diff_eq_0)

lemma spsc_dequeue_Cons:
  assumes "spsc_inv f" and "spsc_contents f = x # xs"
  shows "\<exists>f'. spsc_dequeue f = Some (x, f') \<and> spsc_inv f' \<and> spsc_contents f' = xs"
proof -
  let ?f = "f\<lparr>queue_tail := queue_tail f + 1\<rparr>"
  have pos: "0 < spsc_count f" using assms(2) by (metis length_greater_0_conv length_spsc_contents list.discI)
  then have "spsc_contents f = slots f ! slot_index (queue_tail f) # spsc_contents ?f"
    by (rule spsc_contents_Suc_tail) simp_all
  moreover have "spsc_inv ?f"
    using assms(1) pos unfolding spsc_inv_def spsc_count_def by (simp add: unat_diff_Suc) linarith
  moreover have "queue_tail f \<noteq> queue_head f"
    using pos by (auto simp: spsc_count_def)
  ultimately show ?thesis
    using assms(2) by (simp add: spsc_dequeue_def Let_def)
qed

lemma spsc_inv_count: "spsc_inv f \<Longrightarrow> spsc_count f \<le> TRANSPORT_QUEUE_SIZE"
  by (simp add: spsc_inv_def)

interpretation spsc: bounded_fifo spsc_enqueue spsc_dequeue spsc_contents spsc_inv TRANSPORT_QUEUE_SIZE
  by unfold_locales
    (auto intro: spsc_inv_count spsc_enqueue_full spsc_enqueue_room spsc_dequeue_empty spsc_dequeue_Cons)

end
