(* ===== verification/Spsc_Concurrent.thy ===== *)
theory Spsc_Concurrent
  imports Spsc_Queue
begin

text \<open>
  The queue of \<^verbatim>\<open>transport.c\<close> as two threads run it: a caller inside \<^verbatim>\<open>spsc_enqueue\<close> and
  the reader thread inside \<^verbatim>\<open>spsc_dequeue\<close>, interleaved in any order between the atomic
  loads, the slot access and the atomic store of each function. The relaxed/acquire/release
  orders of the source make the slot write visible before the counter that publishes it, so
  the accesses appear in program order; each is one step here. \<open>accepted\<close> and \<open>delivered\<close>
  are history variables: the commands for which \<^verbatim>\<open>spsc_enqueue\<close> returned true and the
  commands \<^verbatim>\<open>spsc_dequeue\<close> handed out, oldest first.
\<close>

datatype 'a producer_pc =
    P_Idle
  | P_Loaded_Head 'a size_t
  | P_Loaded_Tail 'a size_t size_t
  | P_Written 'a size_t

datatype 'a consumer_pc =
    C_Idle
  | C_Loaded_Tail size_t
  | C_Loaded_Head size_t size_t
  | C_Read size_t 'a

record 'a spsc_sys =
  shared :: "'a spsc"
  producer :: "'a producer_pc"
  consumer :: "'a consumer_pc"
  accepted :: "'a list"
  delivered :: "'a list"

definition spsc_sys_init :: "'a \<Rightarrow> 'a spsc_sys" where
  "spsc_sys_init z =
     \<lparr>shared = spsc_init z, producer = P_Idle, consumer = C_Idle, accepted = [], delivered = []\<rparr>"

inductive producer_step :: "'a spsc_sys \<Rightarrow> 'a spsc_sys \<Rightarrow> bool" where
  p_load_head: "producer s = P_Idle \<Longrightarrow>
     producer_step s (s\<lparr>producer := P_Loaded_Head cmd (queue_head (shared s))\<rparr>)"
| p_load_tail: "producer s = P_Loaded_Head cmd h \<Longrightarrow>
     producer_step s (s\<lparr>producer := P_Loaded_Tail cmd h (queue_tail (shared s))\<rparr>)"
| p_full: "producer s = P_Loaded_Tail cmd h t \<Longrightarrow> unat (h - t) \<ge> TRANSPORT_QUEUE_SIZE \<Longrightarrow>
     producer_step s (s\<lparr>producer := P_Idle\<rparr>)"
| p_write: "producer s = P_Loaded_Tail cmd h t \<Longrightarrow> unat (h - t) < TRANSPORT_QUEUE_SIZE \<Longrightarrow>
     producer_step s
       (s\<lparr>shared := (shared s)\<lparr>slots := (slots (shared s))[slot_index h := cmd]\<rparr>,
          producer := P_Written cmd h\<rparr>)"
| p_publish: "producer s = P_Written cmd h \<Longrightarrow>
     producer_step s
       (s\<lparr>shared := (shared s)\<lparr>queue_head := h + 1\<rparr>, producer := P_Idle,
          accepted := accepted s @ [cmd]\<rparr>)"

inductive consumer_step :: "'a spsc_sys \<Rightarrow> 'a spsc_sys \<Rightarrow> bool" where
  c_load_tail: "consumer s = C_Idle \<Longrightarrow>
     consumer_step s (s\<lparr>consumer := C_Loaded_Tail (queue_tail (shared s))\<rparr>)"
| c_load_head: "consumer s = C_Loaded_Tail t \<Longrightarrow>
     consumer_step s (s\<lparr>consumer := C_Loaded_Head t (queue_head (shared s))\<rparr>)"
| c_empty: "consumer s = C_Loaded_Head t h \<Longrightarrow> t = h \<Longrightarrow>
     consumer_step s (s\<lparr>consumer := C_Idle\<rparr>)"
| c_read: "consumer s = C_Loaded_Head t h \<Longrightarrow> t \<noteq> h \<Longrightarrow>
     consumer_step s (s\<lparr>consumer := C_Read t (slots (shared s) ! slot_index t)\<rparr>)"
| c_publish: "consumer s = C_Read t x \<Longrightarrow>
     consumer_step s
       (s\<lparr>shared := (shared s)\<lparr>queue_tail := t + 1\<rparr>, consumer := C_Idle,
          delivered := delivered s @ [x]\<rparr>)"

inductive spsc_reachable :: "'a spsc_sys \<Rightarrow> bool" where
  start: "spsc_reachable (spsc_sys_init z)"
| produce: "spsc_reachable s \<Longrightarrow> producer_step s t \<Longrightarrow> spsc_reachable t"
| consume: "spsc_reachable s \<Longrightarrow> consumer_step s t \<Longrightarrow> spsc_reachable t"

section \<open>The invariant\<close>

text \<open>
  Each thread owns one counter, so its own copy is exact; its copy of the other counter lags
  behind. The producer's stale \<open>tail\<close> makes the queue look fuller than it is, the
  consumer's stale \<open>head\<close> makes it look emptier.
\<close>

definition producer_ok :: "'a spsc \<Rightarrow> 'a producer_pc \<Rightarrow> bool" where
  "producer_ok q p = (case p of
       P_Idle \<Rightarrow> True
     | P_Loaded_Head cmd h \<Rightarrow> h = queue_head q
     | P_Loaded_Tail cmd h t \<Rightarrow> h = queue_head q \<and> unat (queue_tail q - t) \<le> unat (queue_head q - t)
     | P_Written cmd h \<Rightarrow> h = queue_head q \<and> spsc_count q < TRANSPORT_QUEUE_SIZE
                          \<and> slots q ! slot_index h = cmd)"

definition consumer_ok :: "'a spsc \<Rightarrow> 'a consumer_pc \<Rightarrow> bool" where
  "consumer_ok q c = (case c of
       C_Idle \<Rightarrow> True
     | C_Loaded_Tail t \<Rightarrow> t = queue_tail q
     | C_Loaded_Head t h \<Rightarrow> t = queue_tail q \<and> unat (h - queue_tail q) \<le> spsc_count q
     | C_Read t x \<Rightarrow> t = queue_tail q \<and> 0 < spsc_count q \<and> x = slots q ! slot_index t)"

definition spsc_sys_inv :: "'a spsc_sys \<Rightarrow> bool" where
  "spsc_sys_inv s \<longleftrightarrow> spsc_inv (shared s) \<and> producer_ok (shared s) (producer s)
     \<and> consumer_ok (shared s) (consumer s) \<and> accepted s = delivered s @ spsc_contents (shared s)"

lemma spsc_sys_inv_init: "spsc_sys_inv (spsc_sys_init z)"
  by (simp add: spsc_sys_inv_def spsc_sys_init_def producer_ok_def consumer_ok_def)

text \<open>A producer that passed its fullness check may write: the queue is not full.\<close>

lemma producer_check_count:
  assumes "producer_ok q (P_Loaded_Tail cmd h t)" and "unat (h - t) < TRANSPORT_QUEUE_SIZE"
  shows "h = queue_head q" "spsc_count q < TRANSPORT_QUEUE_SIZE"
  using assms unat_diff_add [of "queue_tail q" t "queue_head q"]
  by (auto simp: producer_ok_def spsc_count_def)

text \<open>A consumer that saw two different counters may read: the queue is not empty.\<close>

lemma consumer_check_count:
  assumes "consumer_ok q (C_Loaded_Head t h)" and "t \<noteq> h"
  shows "t = queue_tail q" "0 < spsc_count q"
proof -
  show "t = queue_tail q" using assms(1) by (simp add: consumer_ok_def)
  with assms have "unat (h - queue_tail q) \<noteq> 0" and "unat (h - queue_tail q) \<le> spsc_count q"
    by (simp_all add: consumer_ok_def unat_diff_eq_0)
  then show "0 < spsc_count q" by linarith
qed

text \<open>Writing the free slot at the head changes neither the contents nor the oldest slot.\<close>

lemma slot_index_head_tail:
  "0 < spsc_count q \<Longrightarrow> spsc_count q < TRANSPORT_QUEUE_SIZE \<Longrightarrow>
     slot_index (queue_head q) \<noteq> slot_index (queue_tail q)"
  using slot_index_distinct [of "spsc_count q" 0 "queue_tail q"] by (simp add: head_as_offset)

lemma write_free_slot:
  assumes "spsc_count q < TRANSPORT_QUEUE_SIZE"
  shows "spsc_contents (q\<lparr>slots := (slots q)[slot_index (queue_head q) := cmd]\<rparr>) = spsc_contents q"
proof -
  have "slot_index (queue_head q) \<noteq> slot_index (queue_tail q + of_nat k)" if "k < spsc_count q" for k
    using that assms slot_index_distinct [of "spsc_count q" k "queue_tail q"]
    by (simp add: head_as_offset)
  then show ?thesis by (simp add: spsc_contents_def spsc_count_def)
qed

lemma write_free_slot_inv [simp]:
  "spsc_inv (q\<lparr>slots := (slots q)[i := cmd]\<rparr>) = spsc_inv q"
  by (simp add: spsc_inv_def spsc_count_def)

lemma consumer_ok_write:
  assumes "consumer_ok q c" and "spsc_count q < TRANSPORT_QUEUE_SIZE"
  shows "consumer_ok (q\<lparr>slots := (slots q)[slot_index (queue_head q) := cmd]\<rparr>) c"
  using assms slot_index_head_tail [of q]
  by (auto simp: consumer_ok_def spsc_count_def split: consumer_pc.splits)

lemma publish_head:
  assumes "spsc_inv q" and "producer_ok q (P_Written cmd h)"
  shows "spsc_inv (q\<lparr>queue_head := h + 1\<rparr>)"
    and "spsc_contents (q\<lparr>queue_head := h + 1\<rparr>) = spsc_contents q @ [cmd]"
    and "spsc_count (q\<lparr>queue_head := h + 1\<rparr>) = Suc (spsc_count q)"
proof -
  let ?q = "q\<lparr>queue_head := h + 1\<rparr>"
  from assms(2) have h: "h = queue_head q" and room: "spsc_count q < TRANSPORT_QUEUE_SIZE"
    and slot: "slots q ! slot_index h = cmd"
    by (auto simp: producer_ok_def)
  from h room show count: "spsc_count ?q = Suc (spsc_count q)"
    by (simp add: spsc_count_def TRANSPORT_QUEUE_SIZE_def unat_Suc_diff)
  with assms(1) room show "spsc_inv ?q" by (simp add: spsc_inv_def)
  from h slot have "slots ?q = (slots q)[slot_index (queue_head q) := cmd]"
    by (metis list_update_id spsc.select_convs(1) spsc.surjective spsc.update_convs(2))
  with count room assms(1) show "spsc_contents ?q = spsc_contents q @ [cmd]"
    by (intro spsc_contents_Suc_head) (auto simp: spsc_inv_def)
qed

lemma publish_tail:
  assumes "spsc_inv q" and "consumer_ok q (C_Read t x)"
  shows "spsc_inv (q\<lparr>queue_tail := t + 1\<rparr>)"
    and "spsc_contents q = x # spsc_contents (q\<lparr>queue_tail := t + 1\<rparr>)"
    and "Suc (spsc_count (q\<lparr>queue_tail := t + 1\<rparr>)) = spsc_count q"
proof -
  let ?q = "q\<lparr>queue_tail := t + 1\<rparr>"
  from assms(2) have t: "t = queue_tail q" and pos: "0 < spsc_count q"
    and x: "x = slots q ! slot_index t"
    by (simp_all add: consumer_ok_def)
  from t pos show count: "Suc (spsc_count ?q) = spsc_count q"
    by (simp add: spsc_count_def unat_diff_Suc)
  with assms(1) show "spsc_inv ?q" by (simp add: spsc_inv_def)
  from pos t x show "spsc_contents q = x # spsc_contents ?q"
    using spsc_contents_Suc_tail [of q ?q] by simp
qed

lemma producer_ok_publish_tail:
  assumes "producer_ok q p" and "consumer_ok q (C_Read t x)"
  shows "producer_ok (q\<lparr>queue_tail := t + 1\<rparr>) p"
proof (cases p)
  case (P_Loaded_Tail cmd h u)
  from assms have t: "t = queue_tail q" and pos: "0 < unat (queue_head q - queue_tail q)"
    by (simp_all add: consumer_ok_def spsc_count_def)
  from assms(1) P_Loaded_Tail have le: "unat (queue_tail q - u) \<le> unat (queue_head q - u)"
    by (simp add: producer_ok_def)
  with pos have "unat (queue_tail q - u) < unat (queue_head q - u)"
    using unat_diff_add [of "queue_tail q" u "queue_head q"] by simp
  moreover from this have "unat (queue_tail q + 1 - u) = Suc (unat (queue_tail q - u))"
    by (intro unat_Suc_diff) (meson order.strict_trans1 Suc_leI unsigned_less)
  ultimately show ?thesis
    using assms(1) P_Loaded_Tail t by (simp add: producer_ok_def)
next
  case (P_Written cmd h)
  with assms publish_tail(3) [of q t x] show ?thesis
    by (auto simp: producer_ok_def consumer_ok_def spsc_count_def unat_diff_Suc)
qed (use assms in \<open>simp_all add: producer_ok_def\<close>)

lemma consumer_ok_publish_head:
  assumes "consumer_ok q c" and "spsc_count (q\<lparr>queue_head := h\<rparr>) = Suc (spsc_count q)"
  shows "consumer_ok (q\<lparr>queue_head := h\<rparr>) c"
  using assms by (auto simp: consumer_ok_def split: consumer_pc.splits)

lemma producer_step_inv: "producer_step s t \<Longrightarrow> spsc_sys_inv s \<Longrightarrow> spsc_sys_inv t"
proof (induction rule: producer_step.induct)
  case (p_write s cmd h u)
  then have ok: "producer_ok (shared s) (P_Loaded_Tail cmd h u)" by (simp add: spsc_sys_inv_def)
  from producer_check_count [OF this p_write(2)] p_write show ?case
    by (auto simp: spsc_sys_inv_def write_free_slot consumer_ok_write producer_ok_def spsc_inv_def
        spsc_count_def nth_list_update)
next
  case (p_publish s cmd h)
  then have "producer_ok (shared s) (P_Written cmd h)" "spsc_inv (shared s)"
    by (simp_all add: spsc_sys_inv_def)
  from publish_head [OF this(2) this(1)] p_publish show ?case
    by (simp add: spsc_sys_inv_def consumer_ok_publish_head producer_ok_def)
qed (auto simp: spsc_sys_inv_def producer_ok_def)

lemma consumer_step_inv: "consumer_step s t \<Longrightarrow> spsc_sys_inv s \<Longrightarrow> spsc_sys_inv t"
proof (induction rule: consumer_step.induct)
  case (c_read s u h)
  then have "consumer_ok (shared s) (C_Loaded_Head u h)" by (simp add: spsc_sys_inv_def)
  from consumer_check_count [OF this c_read(2)] c_read show ?case
    by (simp add: spsc_sys_inv_def consumer_ok_def)
next
  case (c_publish s u x)
  then have "consumer_ok (shared s) (C_Read u x)" "spsc_inv (shared s)"
    by (simp_all add: spsc_sys_inv_def)
  from publish_tail [OF this(2) this(1)] producer_ok_publish_tail [OF _ this(1)] c_publish show ?case
    by (simp add: spsc_sys_inv_def) (simp add: consumer_ok_def)
qed (auto simp: spsc_sys_inv_def consumer_ok_def spsc_count_def)

lemma spsc_reachable_inv: "spsc_reachable s \<Longrightarrow> spsc_sys_inv s"
  by (induction rule: spsc_reachable.induct)
    (auto intro: spsc_sys_inv_init producer_step_inv consumer_step_inv)

section \<open>Properties\<close>

lemmas producer_steps = p_load_head p_load_tail p_full p_write p_publish
lemmas consumer_steps = c_load_tail c_load_head c_empty c_read c_publish

text \<open>
  C1. However the calling thread and the reader thread interleave inside the lockless queue,
  the commands delivered so far followed by the commands still queued are exactly the
  commands accepted so far, in order: nothing is lost, duplicated or reordered, and at most
  eight commands are ever queued, also after the 32-bit counters wrap.
\<close>

theorem spsc_interleaved_fifo:
  assumes "spsc_reachable s"
  shows "accepted s = delivered s @ spsc_contents (shared s)
    \<and> length (spsc_contents (shared s)) \<le> TRANSPORT_QUEUE_SIZE"
  using spsc_reachable_inv [OF assms] by (simp add: spsc_sys_inv_def spsc_inv_def)

text \<open>
  C2. The two threads never touch the same slot at the same time: when the producer has
  passed its fullness check and is about to write a slot, and the consumer has seen a
  non-empty queue and is about to read one, the two slots are different. This is what lets
  the queue do without a lock.
\<close>

theorem spsc_no_slot_race:
  assumes "spsc_reachable s"
    and "producer s = P_Loaded_Tail cmd h t" and "unat (h - t) < TRANSPORT_QUEUE_SIZE"
    and "consumer s = C_Loaded_Head u v" and "u \<noteq> v"
  shows "slot_index h \<noteq> slot_index u"
proof -
  from spsc_reachable_inv [OF assms(1)] assms(2,4)
  have "producer_ok (shared s) (P_Loaded_Tail cmd h t)" "consumer_ok (shared s) (C_Loaded_Head u v)"
    by (simp_all add: spsc_sys_inv_def)
  from producer_check_count [OF this(1) assms(3)] consumer_check_count [OF this(2) assms(5)]
  show ?thesis using slot_index_head_tail [of "shared s"] by simp
qed

section \<open>Witnesses\<close>

text \<open>
  A run: the caller publishes one command, starts to send a second and is about to write
  it, while the reader thread is about to read the first.
\<close>

definition spsc_example :: "nat spsc_sys" where
  "spsc_example =
     \<lparr>shared = \<lparr>slots = (replicate 8 0)[0 := 7], queue_head = 1, queue_tail = 0\<rparr>,
      producer = P_Loaded_Tail 9 1 0, consumer = C_Loaded_Head 0 1,
      accepted = [7], delivered = []\<rparr>"

lemma spsc_example_reachable: "spsc_reachable spsc_example"
proof -
  let ?s0 = "spsc_sys_init (0::nat)"
  let ?s1 = "?s0\<lparr>producer := P_Loaded_Head 7 (queue_head (shared ?s0))\<rparr>"
  let ?s2 = "?s1\<lparr>producer := P_Loaded_Tail 7 0 (queue_tail (shared ?s1))\<rparr>"
  let ?s3 = "?s2\<lparr>shared := (shared ?s2)\<lparr>slots := (slots (shared ?s2))[slot_index 0 := 7]\<rparr>,
                producer := P_Written 7 0\<rparr>"
  let ?s4 = "?s3\<lparr>shared := (shared ?s3)\<lparr>queue_head := 0 + 1\<rparr>, producer := P_Idle,
                accepted := accepted ?s3 @ [7]\<rparr>"
  let ?s5 = "?s4\<lparr>producer := P_Loaded_Head 9 (queue_head (shared ?s4))\<rparr>"
  let ?s6 = "?s5\<lparr>producer := P_Loaded_Tail 9 1 (queue_tail (shared ?s5))\<rparr>"
  let ?s7 = "?s6\<lparr>consumer := C_Loaded_Tail (queue_tail (shared ?s6))\<rparr>"
  let ?s8 = "?s7\<lparr>consumer := C_Loaded_Head 0 (queue_head (shared ?s7))\<rparr>"
  note defs = spsc_sys_init_def spsc_init_def TRANSPORT_QUEUE_SIZE_def
  have "spsc_reachable ?s1"
    by (rule spsc_reachable.produce [OF spsc_reachable.start p_load_head]) (simp add: defs)
  then have "spsc_reachable ?s2"
    by (rule spsc_reachable.produce [OF _ p_load_tail]) (simp add: defs)
  then have "spsc_reachable ?s3"
    by (rule spsc_reachable.produce [OF _ p_write]) (simp add: defs)+
  then have "spsc_reachable ?s4"
    by (rule spsc_reachable.produce [OF _ p_publish]) (simp add: defs)
  then have "spsc_reachable ?s5"
    by (rule spsc_reachable.produce [OF _ p_load_head]) (simp add: defs)
  then have "spsc_reachable ?s6"
    by (rule spsc_reachable.produce [OF _ p_load_tail]) (simp add: defs)
  then have "spsc_reachable ?s7"
    by (rule spsc_reachable.consume [OF _ c_load_tail]) (simp add: defs)
  then have "spsc_reachable ?s8"
    by (rule spsc_reachable.consume [OF _ c_load_head]) (simp add: defs)
  moreover have "?s8 = spsc_example"
    by (simp add: spsc_example_def defs slot_index_def)
  ultimately show ?thesis by simp
qed

theorem spsc_interleaved_fifo_witness:
  "accepted spsc_example = delivered spsc_example @ spsc_contents (shared spsc_example)
     \<and> spsc_contents (shared spsc_example) = [7]"
  using spsc_interleaved_fifo [OF spsc_example_reachable] by (simp add: spsc_example_def)

theorem spsc_no_slot_race_witness: "slot_index 1 \<noteq> slot_index 0"
  by (rule spsc_no_slot_race [OF spsc_example_reachable, where cmd = 9 and h = 1 and t = 0 and u = 0 and v = 1])
    (simp_all add: spsc_example_def TRANSPORT_QUEUE_SIZE_def)

end
