(* ===== verification/Bytes.thy ===== *)
theory Bytes
  imports Prelude
begin

text \<open>
  Little-endian byte codecs of the sensor protocol (the static helpers of
  \<^verbatim>\<open>ld2410s_uart/transport.c\<close> and \<^verbatim>\<open>ld2410s_uart/ld2410s_uart.c\<close>) and the round-trip laws
  every frame encoder and decoder of the development rests on.

  A C pointer into a buffer is the buffer and an offset. A read is checked: \<open>None\<close> is an
  access outside the buffer, which the C code would perform and whose absence is a theorem.
  A writer returns the bytes it stores, in ascending address order.
\<close>

definition read_u16_le :: "u8 list \<Rightarrow> nat \<Rightarrow> u16 option" where
  "read_u16_le p i =
     (if i + 1 < length p
      then Some (ucast (p ! i) OR push_bit 8 (ucast (p ! (i + 1))))
      else None)"

definition write_u16_le :: "u16 \<Rightarrow> u8 list" where
  "write_u16_le v = [ucast (v AND 0xFF), ucast (drop_bit 8 v AND 0xFF)]"

definition read_u32_le :: "u8 list \<Rightarrow> nat \<Rightarrow> u32 option" where
  "read_u32_le p i =
     (if i + 3 < length p
      then Some (ucast (p ! i) OR push_bit 8 (ucast (p ! (i + 1)))
                 OR push_bit 16 (ucast (p ! (i + 2))) OR push_bit 24 (ucast (p ! (i + 3))))
      else None)"

definition write_u32_le :: "u32 \<Rightarrow> u8 list" where
  "write_u32_le v =
     [ucast (v AND 0xFF), ucast (drop_bit 8 v AND 0xFF),
      ucast (drop_bit 16 v AND 0xFF), ucast (drop_bit 24 v AND 0xFF)]"

text \<open>\<^verbatim>\<open>memcmp(buf + i, pat, 4) == 0\<close>, for an offset inside the buffer.\<close>

definition matches_at :: "u8 list \<Rightarrow> nat \<Rightarrow> u8 list \<Rightarrow> bool" where
  "matches_at buf i pat \<longleftrightarrow> take (length pat) (drop i buf) = pat"

text \<open>\<^verbatim>\<open>memcpy(dst, p + i, n)\<close>: the bytes read, if all of them lie inside the buffer.\<close>

definition read_bytes :: "u8 list \<Rightarrow> nat \<Rightarrow> nat \<Rightarrow> u8 list option" where
  "read_bytes p i n = (if i + n \<le> length p then Some (take n (drop i p)) else None)"

section \<open>Round trips\<close>

lemma length_write_u16_le [simp, codec_simps]: "length (write_u16_le v) = 2"
  by (simp add: write_u16_le_def)

lemma length_write_u32_le [simp, codec_simps]: "length (write_u32_le v) = 4"
  by (simp add: write_u32_le_def)

lemma mask_8_numeral: "(0xFF :: 'a::len word) = mask 8"
  by (simp add: mask_eq_exp_minus_1)

lemma ucast_low_byte: "(ucast (v AND 0xFF) :: u8) = ucast (v :: 'a::len word)"
  unfolding mask_8_numeral by (rule bit_eqI) (auto simp: bit_simps dest: bit_imp_le_length)

lemma u16_bytes_join:
  "ucast (ucast v :: u8) OR push_bit 8 (ucast (ucast (drop_bit 8 v) :: u8)) = (v :: u16)"
  by (rule bit_eqI) (auto simp: bit_simps)

lemma u32_bytes_join:
  "ucast (ucast v :: u8) OR push_bit 8 (ucast (ucast (drop_bit 8 v) :: u8))
     OR push_bit 16 (ucast (ucast (drop_bit 16 v) :: u8))
     OR push_bit 24 (ucast (ucast (drop_bit 24 v) :: u8)) = (v :: u32)" (is "?bytes = v")
proof (rule bit_word_eqI)
  fix n
  assume "n < LENGTH(32)"
  then consider "n < 8" | "8 \<le> n" "n < 16" | "16 \<le> n" "n < 24" | "24 \<le> n" "n < 32"
    by fastforce
  then show "bit ?bytes n = bit v n"
    by cases (simp_all add: bit_simps less_diff_conv2)
qed

lemma nth_append_offset: "(xs @ ys) ! (length xs + k) = ys ! k"
  by (simp add: nth_append)

lemma read_write_u16_le [simp, codec_simps]:
  "read_u16_le (xs @ write_u16_le v @ ys) (length xs) = Some v"
proof -
  have "(xs @ write_u16_le v @ ys) ! length xs = write_u16_le v ! 0"
    and "(xs @ write_u16_le v @ ys) ! (length xs + 1) = write_u16_le v ! 1"
    by (simp_all add: write_u16_le_def nth_append)
  then show ?thesis
    using u16_bytes_join [of v] by (simp add: read_u16_le_def write_u16_le_def ucast_low_byte)
qed

lemma read_write_u32_le [simp, codec_simps]:
  "read_u32_le (xs @ write_u32_le v @ ys) (length xs) = Some v"
proof -
  have "(xs @ write_u32_le v @ ys) ! (length xs + k) = write_u32_le v ! k" if "k < 4" for k
    using that by (simp add: nth_append)
  from this [of 0] this [of 1] this [of 2] this [of 3] show ?thesis
    using u32_bytes_join [of v] by (simp add: read_u32_le_def write_u32_le_def ucast_low_byte)
qed

text \<open>The form the decoders meet: an offset given as a number.\<close>

lemma read_u16_le_at:
  "i = length xs \<Longrightarrow> buf = xs @ write_u16_le v @ ys \<Longrightarrow> read_u16_le buf i = Some v"
  by simp

lemma read_u32_le_at:
  "i = length xs \<Longrightarrow> buf = xs @ write_u32_le v @ ys \<Longrightarrow> read_u32_le buf i = Some v"
  by simp

lemma read_u16_le_in_range: "i + 2 \<le> length p \<Longrightarrow> \<exists>v. read_u16_le p i = Some v"
  by (simp add: read_u16_le_def)

lemma read_u32_le_in_range: "i + 4 \<le> length p \<Longrightarrow> \<exists>v. read_u32_le p i = Some v"
  by (simp add: read_u32_le_def)

lemma matches_at_append: "i = length xs \<Longrightarrow> matches_at (xs @ pat @ ys) i pat"
  by (simp add: matches_at_def)

lemma matches_at_bound: "matches_at buf i pat \<Longrightarrow> pat \<noteq> [] \<Longrightarrow> i + length pat \<le> length buf"
proof -
  assume "matches_at buf i pat" and "pat \<noteq> []"
  then have "length (take (length pat) (drop i buf)) = length pat" and "0 < length pat"
    by (simp_all add: matches_at_def)
  then show ?thesis unfolding length_take length_drop by linarith
qed

end
