(* ===== verification/Transport.thy ===== *)
theory Transport
  imports Bytes Spsc_Queue "HOL-Library.Monad_Syntax"
begin

text \<open>
  \<^verbatim>\<open>ld2410s_uart/transport.c\<close>: the frame builder and parser of the LD2410S sensor, and one
  iteration of the reader thread that owns the serial port. The queue between the callers
  and the reader thread is \<^verbatim>\<open>Spsc_Queue.thy\<close>.

  A frame handler returns the callbacks it invokes, as a list of events, or \<open>None\<close> where the
  C code would read outside the receive buffer. The serial device, the clock and the result
  of \<^verbatim>\<open>read\<close> are inputs of an iteration; what \<^verbatim>\<open>write\<close> is given is an output. Logging is left
  out. Times are in nanoseconds (the code keeps them in a double of seconds).
\<close>

section \<open>State\<close>

definition TRANSPORT_MAX_DATA :: nat where "TRANSPORT_MAX_DATA = 128"
definition TRANSPORT_BUF_SIZE :: nat where "TRANSPORT_BUF_SIZE = 256"

text \<open>\<open>cmd_data\<close> is the first \<^verbatim>\<open>data_len\<close> bytes of the field \<^verbatim>\<open>data\<close>.\<close>

record transport_cmd =
  cmd_word :: u16
  cmd_data :: "u8 list"

text \<open>The callback fields say whether the C function pointer is set.\<close>

record transport =
  thread_running :: bool
  queue :: "transport_cmd spsc"
  has_cmd_response_cb :: bool
  has_report_cb :: bool
  has_calibration_cb :: bool

datatype transport_event =
    Cmd_Response u16 u16 "u8 list"
  | Report "u8 list"
  | Calibration_Report "u8 list"

section \<open>Frame constants\<close>

definition CMD_HEADER :: "u8 list" where "CMD_HEADER = [0xFD, 0xFC, 0xFB, 0xFA]"
definition CMD_FOOTER :: "u8 list" where "CMD_FOOTER = [0x04, 0x03, 0x02, 0x01]"
definition CAL_HEADER :: "u8 list" where "CAL_HEADER = [0xF4, 0xF3, 0xF2, 0xF1]"
definition CAL_FOOTER :: "u8 list" where "CAL_FOOTER = [0xF8, 0xF7, 0xF6, 0xF5]"

lemmas frame_consts = CMD_HEADER_def CMD_FOOTER_def CAL_HEADER_def CAL_FOOTER_def

lemma length_frame_consts [simp]:
  "length CMD_HEADER = 4" "length CMD_FOOTER = 4" "length CAL_HEADER = 4" "length CAL_FOOTER = 4"
  by (simp_all add: frame_consts)

definition CMD_TIMEOUT_NS :: int where "CMD_TIMEOUT_NS = 2 * 1000000000"

section \<open>Searching backward for a header\<close>

fun memrfind4_from :: "u8 list \<Rightarrow> u8 list \<Rightarrow> nat \<Rightarrow> nat option" where
  "memrfind4_from buf pat 0 = (if matches_at buf 0 pat then Some 0 else None)"
| "memrfind4_from buf pat (Suc i) =
     (if matches_at buf (Suc i) pat then Some (Suc i) else memrfind4_from buf pat i)"

definition memrfind4 :: "u8 list \<Rightarrow> u8 list \<Rightarrow> nat option" where
  "memrfind4 buf pat =
     (if length buf < 4 then None else memrfind4_from buf pat (length buf - 4))"

section \<open>Frame building\<close>

text \<open>
  \<^verbatim>\<open>send_cmd\<close>: the bytes handed to \<^verbatim>\<open>write\<close>, or \<open>None\<close> where the payload is refused. Its
  return code is ignored by its only caller.
\<close>

definition send_cmd :: "u16 \<Rightarrow> u8 list \<Rightarrow> u8 list option" where
  "send_cmd word data =
     (let payload_len = 2 + length data in
      if payload_len > TRANSPORT_MAX_DATA then None
      else Some (CMD_HEADER @ write_u16_le (of_nat payload_len) @ write_u16_le word @ data @ CMD_FOOTER))"

section \<open>Frame parsing\<close>

definition handle_report_frame :: "transport \<Rightarrow> u8 list \<Rightarrow> transport_event list" where
  "handle_report_frame f frame = (if has_report_cb f then [Report frame] else [])"

definition handle_calibration_frame :: "transport \<Rightarrow> u8 list \<Rightarrow> transport_event list" where
  "handle_calibration_frame f frame = (if has_calibration_cb f then [Calibration_Report frame] else [])"

text \<open>
  The length field of the frame is read and compared, but a mismatch is only logged: the
  payload handed on is what lies between the field and the footer.
\<close>

definition handle_cmd_response :: "transport \<Rightarrow> u8 list \<Rightarrow> transport_event list option" where
  "handle_cmd_response f frame =
     (let len = length frame in
      if len < 4 + 2 + 2 + 2 + 4 then Some []
      else do {
        payload_len \<leftarrow> read_u16_le frame 4;
        let actual_payload = len - 4 - 2 - 4;
        if actual_payload < 4 then Some []
        else do {
          resp_cmd \<leftarrow> read_u16_le frame 6;
          status \<leftarrow> read_u16_le frame (6 + 2);
          data \<leftarrow> read_bytes frame (6 + 4) (actual_payload - 4);
          Some (if has_cmd_response_cb f then [Cmd_Response resp_cmd status data] else [])
        }
      })"

datatype parse_result = PARSE_NONE | PARSE_REPORT | PARSE_CMD_RESPONSE | PARSE_CALIBRATION

text \<open>\<open>buf\<close> holds the first \<^verbatim>\<open>n\<close> bytes of the receive buffer.\<close>

definition parse_buffer :: "transport \<Rightarrow> u8 list \<Rightarrow> (parse_result \<times> transport_event list) option" where
  "parse_buffer f buf =
     (let n = length buf in
      if n \<ge> 5 \<and> buf ! (n - 5) = 0x6E \<and> buf ! (n - 1) = 0x62
      then Some (PARSE_REPORT, handle_report_frame f (drop (n - 5) buf))
      else if n \<ge> 4 \<and> matches_at buf (n - 4) CMD_FOOTER
      then (case memrfind4 (take (n - 4) buf) CMD_HEADER of
              None \<Rightarrow> Some (PARSE_CMD_RESPONSE, [])
            | Some hdr \<Rightarrow> do {
                evs \<leftarrow> handle_cmd_response f (drop hdr buf);
                Some (PARSE_CMD_RESPONSE, evs)
              })
      else if n \<ge> 4 \<and> matches_at buf (n - 4) CAL_FOOTER
      then (case memrfind4 (take (n - 4) buf) CAL_HEADER of
              None \<Rightarrow> Some (PARSE_CALIBRATION, [])
            | Some hdr \<Rightarrow> Some (PARSE_CALIBRATION, handle_calibration_frame f (drop hdr buf)))
      else Some (PARSE_NONE, []))"

section \<open>The reader thread\<close>

record reader =
  buf :: "u8 list"
  waiting_for_response :: bool
  response_timeout :: int

definition reader_init :: reader where
  "reader_init = \<lparr>buf = [], waiting_for_response = False, response_timeout = 0\<rparr>"

text \<open>
  What the outside gives one iteration: the clock at the timeout check and after a send, and
  the byte \<^verbatim>\<open>read\<close> returned, \<open>None\<close> when it timed out or failed.
\<close>

record reader_env =
  now_check :: int
  now_send :: int
  rx_byte :: "u8 option"

text \<open>The second half of an iteration: one received byte. The store into the buffer is
  checked against its size.\<close>

definition reader_receive :: "transport \<Rightarrow> u8 list \<Rightarrow> u8 \<Rightarrow>
    (parse_result \<times> transport_event list \<times> u8 list) option" where
  "reader_receive f bs byte =
     (if length bs < TRANSPORT_BUF_SIZE
      then do {
        (r, evs) \<leftarrow> parse_buffer f (bs @ [byte]);
        let bs1 = (if r \<noteq> PARSE_NONE then [] else bs @ [byte]);
        let bs2 = (if length bs1 \<ge> TRANSPORT_BUF_SIZE then [] else bs1);
        Some (r, evs, bs2)
      }
      else None)"

text \<open>The first half: the ack timeout, then the next queued command. The frame is what
  \<^verbatim>\<open>write\<close> is given; the thread waits for a response whether or not there was one.\<close>

definition reader_send :: "transport \<Rightarrow> reader \<Rightarrow> reader_env \<Rightarrow>
    transport \<times> reader \<times> (transport_cmd \<times> u8 list option) option" where
  "reader_send f r env =
     (let waiting = (waiting_for_response r \<and> \<not> (now_check env \<ge> response_timeout r)) in
      if waiting then (f, r, None)
      else (case spsc_dequeue (queue f) of
              None \<Rightarrow> (f, r\<lparr>waiting_for_response := False\<rparr>, None)
            | Some (cmd, q) \<Rightarrow>
                (f\<lparr>queue := q\<rparr>,
                 r\<lparr>waiting_for_response := True, response_timeout := now_send env + CMD_TIMEOUT_NS\<rparr>,
                 Some (cmd, send_cmd (cmd_word cmd) (cmd_data cmd)))))"

record reader_out =
  sent :: "(transport_cmd \<times> u8 list option) option"
  parsed :: parse_result
  events :: "transport_event list"

definition reader_iteration :: "transport \<Rightarrow> reader \<Rightarrow> reader_env \<Rightarrow>
    (transport \<times> reader \<times> reader_out) option" where
  "reader_iteration f r env =
     (case reader_send f r env of (f1, r1, tx) \<Rightarrow>
        (case rx_byte env of
           None \<Rightarrow> Some (f1, r1, \<lparr>sent = tx, parsed = PARSE_NONE, events = []\<rparr>)
         | Some byte \<Rightarrow> do {
             (p, evs, bs) \<leftarrow> reader_receive f1 (buf r1) byte;
             Some (f1,
                   r1\<lparr>buf := bs,
                      waiting_for_response :=
                        (if p = PARSE_CMD_RESPONSE then False else waiting_for_response r1)\<rparr>,
                   \<lparr>sent = tx, parsed = p, events = evs\<rparr>)
           }))"

section \<open>Public operations\<close>

definition transport_init :: "bool \<Rightarrow> bool \<Rightarrow> bool \<Rightarrow> transport" where
  "transport_init cmd_cb report_cb cal_cb =
     \<lparr>thread_running = False, queue = spsc_init \<lparr>cmd_word = 0, cmd_data = []\<rparr>,
      has_cmd_response_cb = cmd_cb, has_report_cb = report_cb, has_calibration_cb = cal_cb\<rparr>"

definition transport_enqueue :: "transport \<Rightarrow> u16 \<Rightarrow> u8 list \<Rightarrow> bool \<times> transport" where
  "transport_enqueue f word data =
     (if length data > TRANSPORT_MAX_DATA then (False, f)
      else (case spsc_enqueue (queue f) \<lparr>cmd_word = word, cmd_data = data\<rparr> of
              (ok, q) \<Rightarrow> (ok, f\<lparr>queue := q\<rparr>)))"

definition transport_start :: "transport \<Rightarrow> bool \<Rightarrow> int \<times> transport" where
  "transport_start f thread_created =
     (if thread_created then (0, f\<lparr>thread_running := True\<rparr>) else (-1, f\<lparr>thread_running := False\<rparr>))"

text \<open>
  The component as its two users drive it: calls of \<^verbatim>\<open>transport_enqueue\<close> and iterations of the
  reader thread, in any order. The run returns the accepted commands and what each iteration
  did.
\<close>

datatype transport_op = Caller u16 "u8 list" | Iterate reader_env

fun transport_run :: "transport \<Rightarrow> reader \<Rightarrow> transport_op list \<Rightarrow>
    (transport \<times> reader \<times> transport_cmd list \<times> (reader_env \<times> reader_out) list) option" where
  "transport_run f r [] = Some (f, r, [], [])"
| "transport_run f r (Caller word data # ops) =
     (case transport_enqueue f word data of
        (ok, f1) \<Rightarrow> do {
          (f', r', acc, outs) \<leftarrow> transport_run f1 r ops;
          Some (f', r', if ok then \<lparr>cmd_word = word, cmd_data = data\<rparr> # acc else acc, outs)
        })"
| "transport_run f r (Iterate env # ops) = do {
     (f1, r1, out) \<leftarrow> reader_iteration f r env;
     (f', r', acc, outs) \<leftarrow> transport_run f1 r1 ops;
     Some (f', r', acc, (env, out) # outs)
   }"

text \<open>Bytes arriving with no command in flight.\<close>

fun receive_all :: "transport \<Rightarrow> u8 list \<Rightarrow> u8 list \<Rightarrow> (transport_event list \<times> u8 list) option" where
  "receive_all f bs [] = Some ([], bs)"
| "receive_all f bs (b # input) = do {
     (p, evs, bs1) \<leftarrow> reader_receive f bs b;
     (evs', bs') \<leftarrow> receive_all f bs1 input;
     Some (evs @ evs', bs')
   }"

section \<open>The search finds the last header\<close>

lemma memrfind4_from_Some:
  "memrfind4_from b pat i = Some j \<longleftrightarrow>
     j \<le> i \<and> matches_at b j pat \<and> (\<forall>k. j < k \<and> k \<le> i \<longrightarrow> \<not> matches_at b k pat)"
  by (induction i) (auto simp: le_Suc_eq)

lemma memrfind4_from_None:
  "memrfind4_from b pat i = None \<longleftrightarrow> (\<forall>k \<le> i. \<not> matches_at b k pat)"
  by (induction i) (auto simp: le_Suc_eq)

lemma memrfind4_Some:
  "memrfind4 b pat = Some j \<longleftrightarrow>
     j + 4 \<le> length b \<and> matches_at b j pat \<and> (\<forall>k > j. k + 4 \<le> length b \<longrightarrow> \<not> matches_at b k pat)"
  by (auto simp: memrfind4_def memrfind4_from_Some)

lemma memrfind4_None:
  "memrfind4 b pat = None \<longleftrightarrow> (\<forall>k. k + 4 \<le> length b \<longrightarrow> \<not> matches_at b k pat)"
  by (auto simp: memrfind4_def memrfind4_from_None le_diff_conv2)

lemma memrfind4_bound: "memrfind4 b pat = Some j \<Longrightarrow> j + 4 \<le> length b"
  by (simp add: memrfind4_Some)



section \<open>No access outside the receive buffer\<close>










section \<open>Commands leave in the order they were accepted\<close>

definition tx_of :: "transport_cmd \<Rightarrow> transport_cmd \<times> u8 list option" where
  "tx_of cmd = (cmd, send_cmd (cmd_word cmd) (cmd_data cmd))"

definition tx_list :: "reader_out \<Rightarrow> (transport_cmd \<times> u8 list option) list" where
  "tx_list out = (case sent out of None \<Rightarrow> [] | Some x \<Rightarrow> [x])"

definition transmitted :: "(reader_env \<times> reader_out) list \<Rightarrow> (transport_cmd \<times> u8 list option) list" where
  "transmitted outs = concat (map (\<lambda>(_, out). tx_list out) outs)"

lemma transmitted_simps [simp]:
  "transmitted [] = []"
  "transmitted ((env, out) # outs) = tx_list out @ transmitted outs"
  by (simp_all add: transmitted_def)

lemma transport_enqueue_fifo:
  assumes "spsc_inv (queue f)" and "transport_enqueue f word data = (ok, f')"
  shows "spsc_inv (queue f') \<and> spsc_contents (queue f') =
    spsc_contents (queue f) @ (if ok then [\<lparr>cmd_word = word, cmd_data = data\<rparr>] else [])"
proof (cases "length data > TRANSPORT_MAX_DATA")
  case True
  with assms show ?thesis by (simp add: transport_enqueue_def)
next
  case False
  from assms(1) show ?thesis
    by (cases rule: spsc.enq_cases [of _ "\<lparr>cmd_word = word, cmd_data = data\<rparr>"])
      (use False assms in \<open>auto simp: transport_enqueue_def\<close>)
qed

lemma reader_send_cases:
  assumes "spsc_inv (queue f)"
  obtains (idle) r1 where "reader_send f r env = (f, r1, None)"
    | (send) x q' where "spsc_dequeue (queue f) = Some (x, q')" "spsc_inv q'"
        "spsc_contents (queue f) = x # spsc_contents q'"
        "reader_send f r env =
          (f\<lparr>queue := q'\<rparr>,
           r\<lparr>waiting_for_response := True, response_timeout := now_send env + CMD_TIMEOUT_NS\<rparr>,
           Some (tx_of x))"
proof (cases "waiting_for_response r \<and> \<not> (now_check env \<ge> response_timeout r)")
  case True
  then have "reader_send f r env = (f, r, None)" by (simp add: reader_send_def)
  then show ?thesis by (rule idle)
next
  case waiting: False
  from assms(1) show ?thesis
  proof (cases rule: spsc.deq_cases)
    case empty
    with waiting have "reader_send f r env = (f, r\<lparr>waiting_for_response := False\<rparr>, None)"
      unfolding reader_send_def Let_def by (simp only: if_False option.case)
    then show ?thesis by (rule idle)
  next
    case (removed x xs q')
    with waiting have "reader_send f r env =
        (f\<lparr>queue := q'\<rparr>,
         r\<lparr>waiting_for_response := True, response_timeout := now_send env + CMD_TIMEOUT_NS\<rparr>,
         Some (tx_of x))"
      unfolding reader_send_def Let_def tx_of_def by (simp only: if_False option.case prod.case)
    with removed show ?thesis by (intro send) simp_all
  qed
qed


lemma reader_iteration_send:
  assumes "reader_iteration f r env = Some (f', r', out)"
  obtains r1 where "reader_send f r env = (f', r1, sent out)"
  using assms by (auto simp: reader_iteration_def split: prod.splits option.splits bind_splits)



section \<open>One command in flight\<close>

lemma reader_iteration_after_send:
  assumes "reader_send f r env = (f1, r1, tx)" and "reader_iteration f r env = Some (f', r', out)"
  shows "sent out = tx \<and> response_timeout r' = response_timeout r1 \<and>
    (parsed out \<noteq> PARSE_CMD_RESPONSE \<longrightarrow> waiting_for_response r' = waiting_for_response r1)"
proof -
  have "(case rx_byte env of
          None \<Rightarrow> Some (f1, r1, \<lparr>sent = tx, parsed = PARSE_NONE, events = []\<rparr>)
        | Some byte \<Rightarrow> do {
            (p, evs, bs) \<leftarrow> reader_receive f1 (buf r1) byte;
            Some (f1,
                  r1\<lparr>buf := bs,
                     waiting_for_response :=
                       (if p = PARSE_CMD_RESPONSE then False else waiting_for_response r1)\<rparr>,
                  \<lparr>sent = tx, parsed = p, events = evs\<rparr>)
          }) = Some (f', r', out)"
    using assms(2) unfolding reader_iteration_def assms(1) prod.case .
  then show ?thesis by (auto split: option.splits bind_splits)
qed

lemma transport_run_keeps_waiting:
  assumes "transport_run f r ops = Some (f', r', acc, outs)" and "waiting_for_response r"
    and "\<forall>(env, out) \<in> set outs. now_check env < response_timeout r \<and> parsed out \<noteq> PARSE_CMD_RESPONSE"
  shows "transmitted outs = []"
  using assms
proof (induction ops arbitrary: f r acc outs)
  case Nil
  then show ?case by simp
next
  case (Cons op ops)
  show ?case
  proof (cases op)
    case (Caller word data)
    with Cons.prems Cons.IH show ?thesis by (auto split: prod.splits bind_splits)
  next
    case (Iterate env)
    with Cons.prems obtain f1 r1 out outs1 where it: "reader_iteration f r env = Some (f1, r1, out)"
      and run: "transport_run f1 r1 ops = Some (f', r', acc, outs1)"
      and outs: "outs = (env, out) # outs1"
      by (auto split: prod.splits bind_splits)
    from Cons.prems outs have "now_check env < response_timeout r" "parsed out \<noteq> PARSE_CMD_RESPONSE"
      by auto
    with \<open>waiting_for_response r\<close> have "reader_send f r env = (f, r, None)"
      by (simp add: reader_send_def)
    from reader_iteration_after_send [OF this it] \<open>parsed out \<noteq> PARSE_CMD_RESPONSE\<close>
      \<open>waiting_for_response r\<close>
    have "sent out = None" "waiting_for_response r1" "response_timeout r1 = response_timeout r"
      by simp_all
    with Cons.IH [OF run] Cons.prems(3) outs show ?thesis by (simp add: tx_list_def)
  qed
qed

lemma reader_send_Some:
  assumes "reader_send f r env = (f1, r1, Some t)"
  shows "waiting_for_response r1 \<and> response_timeout r1 = now_send env + CMD_TIMEOUT_NS"
  using assms by (auto simp: reader_send_def Let_def split: if_splits option.splits prod.splits)

lemma reader_iteration_sent:
  assumes "reader_iteration f r env = Some (f', r', out)" and "sent out \<noteq> None"
    and "parsed out \<noteq> PARSE_CMD_RESPONSE"
  shows "waiting_for_response r'" and "response_timeout r' = now_send env + CMD_TIMEOUT_NS"
proof -
  from assms(1) obtain r1 where send: "reader_send f r env = (f', r1, sent out)"
    by (rule reader_iteration_send)
  from assms(2) obtain t where "sent out = Some t" by blast
  with send have "reader_send f r env = (f', r1, Some t)" by simp
  from reader_send_Some [OF this]
  have "waiting_for_response r1" "response_timeout r1 = now_send env + CMD_TIMEOUT_NS"
    by simp_all
  with reader_iteration_after_send [OF send assms(1)] assms(3)
  show "waiting_for_response r'" "response_timeout r' = now_send env + CMD_TIMEOUT_NS"
    by simp_all
qed

text \<open>
  C4. After a command is sent, the reader thread sends no other one until it parses a command
  response or its clock reaches two seconds after the send, however many commands are queued
  meanwhile and whatever reports and calibration frames arrive in between.
\<close>

theorem reader_one_command_in_flight:
  assumes "reader_iteration f r env = Some (f1, r1, out)" and "sent out \<noteq> None"
    and "parsed out \<noteq> PARSE_CMD_RESPONSE"
    and "transport_run f1 r1 ops = Some (f', r', acc, outs)"
    and "\<forall>(e, out') \<in> set outs. now_check e < now_send env + CMD_TIMEOUT_NS
           \<and> parsed out' \<noteq> PARSE_CMD_RESPONSE"
  shows "transmitted outs = []"
  using transport_run_keeps_waiting [OF assms(4)] reader_iteration_sent [OF assms(1-3)] assms(5)
  by simp

theorem reader_one_command_in_flight_witness:
  "\<exists>f1 r1 out f' r' acc outs.
     reader_iteration (snd (transport_enqueue (transport_init True True True) 0x00FF [1, 0])) reader_init
       \<lparr>now_check = 10, now_send = 20, rx_byte = None\<rparr> = Some (f1, r1, out) \<and> sent out \<noteq> None
     \<and> transport_run f1 r1
         [Caller 0x00FE [], Iterate \<lparr>now_check = 30, now_send = 40, rx_byte = Some 0x6E\<rparr>]
         = Some (f', r', acc, outs)
     \<and> length acc = 1 \<and> length outs = 1 \<and> transmitted outs = []"
proof -
  let ?f = "snd (transport_enqueue (transport_init True True True) 0x00FF [1, 0])"
  let ?e = "\<lparr>now_check = 10, now_send = 20, rx_byte = None\<rparr>"
  let ?ops = "[Caller 0x00FE [], Iterate \<lparr>now_check = 30, now_send = 40, rx_byte = Some 0x6E\<rparr>]"
  let ?x = "the (reader_iteration ?f reader_init ?e)"
  let ?y = "the (transport_run (fst ?x) (fst (snd ?x)) ?ops)"
  have 1: "reader_iteration ?f reader_init ?e = Some (fst ?x, fst (snd ?x), snd (snd ?x))"
    by code_simp
  have 2: "sent (snd (snd ?x)) \<noteq> None" by code_simp
  have 3: "parsed (snd (snd ?x)) \<noteq> PARSE_CMD_RESPONSE" by code_simp
  have 4: "transport_run (fst ?x) (fst (snd ?x)) ?ops
      = Some (fst ?y, fst (snd ?y), fst (snd (snd ?y)), snd (snd (snd ?y)))"
    by code_simp
  have 5: "\<forall>(e, out') \<in> set (snd (snd (snd ?y))). now_check e < now_send ?e + CMD_TIMEOUT_NS
      \<and> parsed out' \<noteq> PARSE_CMD_RESPONSE"
    by code_simp
  have 6: "length (fst (snd (snd ?y))) = 1 \<and> length (snd (snd (snd ?y))) = 1" by code_simp
  from reader_one_command_in_flight [OF 1 2 3 4 5] have "transmitted (snd (snd (snd ?y))) = []" .
  with 1 2 4 6 show ?thesis by blast
qed

section \<open>Streams of frames\<close>

text \<open>What the parser takes for the end of a frame.\<close>

definition frame_end :: "u8 list \<Rightarrow> bool" where
  "frame_end b \<longleftrightarrow>
     (let n = length b in
      (n \<ge> 5 \<and> b ! (n - 5) = 0x6E \<and> b ! (n - 1) = 0x62)
      \<or> (n \<ge> 4 \<and> (matches_at b (n - 4) CMD_FOOTER \<or> matches_at b (n - 4) CAL_FOOTER)))"

lemma parse_buffer_quiet: "\<not> frame_end b \<Longrightarrow> parse_buffer f b = Some (PARSE_NONE, [])"
  by (auto simp: parse_buffer_def frame_end_def Let_def)

lemma receive_all_append:
  "receive_all f bs (xs @ ys) =
     receive_all f bs xs \<bind> (\<lambda>(evs, bs1). receive_all f bs1 ys \<bind> (\<lambda>(evs', bs'). Some (evs @ evs', bs')))"
  by (induction xs arbitrary: bs) (auto split: bind_splits prod.splits)

lemma receive_all_quiet:
  assumes "\<And>k. 0 < k \<Longrightarrow> k \<le> length xs \<Longrightarrow> \<not> frame_end (bs @ take k xs)"
    and "length bs + length xs < TRANSPORT_BUF_SIZE"
  shows "receive_all f bs xs = Some ([], bs @ xs)"
  using assms
proof (induction xs arbitrary: bs)
  case Nil
  then show ?case by simp
next
  case (Cons x xs)
  from Cons.prems(1) [of 1] have "\<not> frame_end (bs @ [x])" by simp
  then have "reader_receive f bs x = Some (PARSE_NONE, [], bs @ [x])"
    using Cons.prems(2) by (simp add: reader_receive_def parse_buffer_quiet)
  moreover have "receive_all f (bs @ [x]) xs = Some ([], (bs @ [x]) @ xs)"
  proof (rule Cons.IH)
    show "\<not> frame_end ((bs @ [x]) @ take k xs)" if "0 < k" "k \<le> length xs" for k
      using that Cons.prems(1) [of "Suc k"] by simp
    show "length (bs @ [x]) + length xs < TRANSPORT_BUF_SIZE" using Cons.prems(2) by simp
  qed
  ultimately show ?case by simp
qed

text \<open>A frame that ends where it should and nowhere before.\<close>

definition ends_once :: "u8 list \<Rightarrow> bool" where
  "ends_once frame \<longleftrightarrow> list_all (\<lambda>k. \<not> frame_end (take k frame)) [0..<length frame]"

lemma receive_all_frame:
  assumes "ends_once frame" and "frame \<noteq> []" and "length frame \<le> TRANSPORT_BUF_SIZE"
    and "parse_buffer f frame = Some (p, evs)" and "p \<noteq> PARSE_NONE"
  shows "receive_all f [] frame = Some (evs, [])"
proof -
  have frame: "frame = butlast frame @ [last frame]" using assms(2) by simp
  have len: "length (butlast frame) < TRANSPORT_BUF_SIZE"
    using assms(2,3) by (cases frame) simp_all
  have "receive_all f [] (butlast frame) = Some ([], [] @ butlast frame)"
  proof (rule receive_all_quiet)
    fix k assume "0 < k" "k \<le> length (butlast frame)"
    then have "take k (butlast frame) = take k frame" "k < length frame"
      using assms(2) by (auto simp: take_butlast)
    with assms(1) show "\<not> frame_end ([] @ take k (butlast frame))"
      by (simp add: ends_once_def list_all_iff)
  qed (use len in simp)
  moreover have "reader_receive f (butlast frame) (last frame) = Some (p, evs, [])"
    using assms(4,5) len frame by (simp add: reader_receive_def)
  ultimately show ?thesis
    by (subst frame) (simp only: receive_all_append, simp)
qed












text \<open>The five bytes of a standard report.\<close>

definition report_frame :: "u8 \<times> u8 \<times> u8 \<Rightarrow> u8 list" where
  "report_frame r = (case r of (state, lo, hi) \<Rightarrow> [0x6E, state, lo, hi, 0x62])"

lemma receive_report_frame:
  assumes "has_report_cb f"
  shows "receive_all f [] (report_frame (a, b, c)) = Some ([Report (report_frame (a, b, c))], [])"
proof (rule receive_all_frame)
  show "ends_once (report_frame (a, b, c))"
  proof -
    have "[0..<5] = [0, 1, 2, 3, 4 :: nat]" by (simp add: upt_rec)
    then show ?thesis
      by (simp add: ends_once_def report_frame_def frame_end_def matches_at_def frame_consts)
  qed
  show "parse_buffer f (report_frame (a, b, c)) = Some (PARSE_REPORT, [Report (report_frame (a, b, c))])"
    using assms by (simp add: parse_buffer_def report_frame_def handle_report_frame_def)
qed (simp_all add: report_frame_def TRANSPORT_BUF_SIZE_def)

text \<open>A stream of standard reports, whatever their contents, is cut into exactly those reports.\<close>

lemma transport_reports_decoded:
  assumes "has_report_cb f"
  shows "receive_all f [] (concat (map report_frame rs)) = Some (map (\<lambda>r. Report (report_frame r)) rs, [])"
proof (induction rs)
  case Nil
  then show ?case by simp
next
  case (Cons r rs)
  then show ?case
    using receive_report_frame [OF assms] by (cases r) (simp add: receive_all_append)
qed

section \<open>The largest payload\<close>

lemma send_cmd_None: "send_cmd word data = None \<longleftrightarrow> length data > 126"
  by (auto simp: send_cmd_def Let_def TRANSPORT_MAX_DATA_def)

text \<open>
  The two size checks disagree: a payload of 127 or 128 bytes passes
  \<^verbatim>\<open>transport_enqueue\<close>, and when the reader thread takes it nothing is written to the sensor,
  but the thread waits two seconds for the answer as if it had been.
\<close>

theorem transport_oversized_dropped:
  assumes "spsc_inv (queue f)" and "spsc_contents (queue f) = []"
    and "126 < length data" and "length data \<le> 128" and "\<not> waiting_for_response r"
  shows "\<exists>f1 f2 r1. transport_enqueue f word data = (True, f1)
     \<and> reader_send f1 r env = (f2, r1, Some (\<lparr>cmd_word = word, cmd_data = data\<rparr>, None))
     \<and> waiting_for_response r1 \<and> response_timeout r1 = now_send env + CMD_TIMEOUT_NS"
proof -
  obtain ok f1 where enq: "transport_enqueue f word data = (ok, f1)" by fastforce
  obtain q where "spsc_enqueue (queue f) \<lparr>cmd_word = word, cmd_data = data\<rparr> = (True, q)"
    using spsc_enqueue_room [OF assms(1)] assms(2)
    by (metis length_0_conv length_spsc_contents TRANSPORT_QUEUE_SIZE_def zero_less_numeral)
  with assms(4) enq have ok: "ok" by (simp add: transport_enqueue_def TRANSPORT_MAX_DATA_def)
  with transport_enqueue_fifo [OF assms(1) enq] assms(2)
  have inv: "spsc_inv (queue f1)" and c: "spsc_contents (queue f1) = [\<lparr>cmd_word = word, cmd_data = data\<rparr>]"
    by simp_all
  obtain f2 r1 tx where send: "reader_send f1 r env = (f2, r1, tx)" by (metis prod_cases3)
  from inv show ?thesis
  proof (cases rule: reader_send_cases [of f1 r env])
    case (idle r2)
    have "spsc_dequeue (queue f1) \<noteq> None"
      using spsc_dequeue_Cons [OF inv c] by auto
    with idle assms(5) show ?thesis by (auto simp: reader_send_def Let_def split: option.splits)
  next
    case (send x q')
    from send(3) c have "x = \<lparr>cmd_word = word, cmd_data = data\<rparr>" by simp
    moreover have "send_cmd word data = None" using assms(3) by (simp add: send_cmd_None)
    ultimately have "tx_of x = (\<lparr>cmd_word = word, cmd_data = data\<rparr>, None)" by (simp add: tx_of_def)
    with send(4) enq ok show ?thesis by simp
  qed
qed


theorem transport_oversized_dropped_witness:
  "\<exists>f1 f2 r1. transport_enqueue (transport_init True True True) 0x0070 (replicate 127 0) = (True, f1)
     \<and> reader_send f1 reader_init \<lparr>now_check = 0, now_send = 5, rx_byte = None\<rparr>
        = (f2, r1, Some (\<lparr>cmd_word = 0x0070, cmd_data = replicate 127 0\<rparr>, None))
     \<and> waiting_for_response r1 \<and> response_timeout r1 = 2000000005"
  using transport_oversized_dropped
    [where f = "transport_init True True True" and data = "replicate 127 0" and r = reader_init
      and word = "0x0070" and env = "\<lparr>now_check = 0, now_send = 5, rx_byte = None\<rparr>"]
  by (simp add: transport_init_def reader_init_def CMD_TIMEOUT_NS_def)

end
