(* ===== verification/Session.thy ===== *)
theory Session
  imports Transport "HOL-Library.Sublist"
begin

text \<open>
  \<^verbatim>\<open>ld2410s_uart/session.c\<close>: blocking request and response over the transport. The callback
  the reader thread runs (\<^verbatim>\<open>on_cmd_response\<close>) deposits a response in a single slot; the caller
  clears the slot, queues a command and waits on the condition variable until the slot is
  filled or the deadline passes.

  What the other side does meanwhile is an argument of each wait: how many queued commands
  the reader thread has taken, which responses it deposits before the caller gets the slot's
  mutex, and then one entry per return of \<^verbatim>\<open>pthread_cond_timedwait\<close>. \<^verbatim>\<open>cmd_mutex\<close> is held for a
  whole \<^verbatim>\<open>session_cmd\<close>, so calls are sequential. A run that is still waiting when its
  wake-ups are used up is \<open>None\<close>.
\<close>

section \<open>State\<close>

definition CMD_ENABLE_CONFIG :: u16 where "CMD_ENABLE_CONFIG = 0x00FF"
definition CMD_END_CONFIG :: u16 where "CMD_END_CONFIG = 0x00FE"
definition RESP_OFFSET :: u16 where "RESP_OFFSET = 0x0100"

record session =
  sess_transport :: transport
  resp_cmd :: u16
  resp_data :: "u8 list"
  resp_len :: nat
  resp_status :: u16
  resp_pending :: bool

text \<open>A response as the transport reports it: command word, status, data.\<close>

type_synonym response = "u16 \<times> u16 \<times> u8 list"

section \<open>The callback on the reader thread\<close>

definition on_cmd_response :: "session \<Rightarrow> response \<Rightarrow> session" where
  "on_cmd_response s r =
     (case r of (word, status, data) \<Rightarrow>
        let copy = (if length data < TRANSPORT_MAX_DATA then length data else TRANSPORT_MAX_DATA) in
        s\<lparr>resp_cmd := word,
          resp_status := status,
          resp_data := take copy data @ drop copy (resp_data s),
          resp_len := copy,
          resp_pending := True\<rparr>)"

definition on_cmd_responses :: "session \<Rightarrow> response list \<Rightarrow> session" where
  "on_cmd_responses s rs = foldl on_cmd_response s rs"

section \<open>Waiting\<close>

text \<open>One return of \<^verbatim>\<open>pthread_cond_timedwait\<close>: the responses deposited while the mutex was
  released (none for a spurious wake-up), and whether it returned \<^verbatim>\<open>ETIMEDOUT\<close>.\<close>

record wake =
  deposited :: "response list"
  etimedout :: bool

record wait_env =
  taken :: nat
  early :: "response list"
  wakes :: "wake list"

datatype wait_result = Timed_Out (wait_session: session) | Answered (wait_session: session)

fun wait_response :: "session \<Rightarrow> wake list \<Rightarrow> wait_result option" where
  "wait_response s ws =
     (if resp_pending s then Some (Answered (s\<lparr>resp_pending := False\<rparr>))
      else (case ws of
              [] \<Rightarrow> None
            | w # ws' \<Rightarrow>
                (let s1 = on_cmd_responses s (deposited w) in
                 if etimedout w then Some (Timed_Out s1) else wait_response s1 ws')))"

declare wait_response.simps [simp del]

text \<open>The reader thread takes commands from the queue.\<close>

fun reader_takes :: "nat \<Rightarrow> transport \<Rightarrow> transport" where
  "reader_takes 0 f = f"
| "reader_takes (Suc n) f =
     (case spsc_dequeue (queue f) of None \<Rightarrow> f | Some (_, q) \<Rightarrow> reader_takes n (f\<lparr>queue := q\<rparr>))"

text \<open>
  The result of an exchange: return code, state, the caller's output buffer and length (each
  \<open>None\<close> for a null pointer). A mismatching command word is only logged.
\<close>

record exchange =
  ret :: int
  sess :: session
  out_buf :: "u8 list option"
  out_len :: "nat option"

definition copy_out :: "session \<Rightarrow> u8 list option \<Rightarrow> u8 list option" where
  "copy_out s out =
     (case out of
        None \<Rightarrow> None
      | Some b \<Rightarrow>
          (let copy = (if resp_len s < length b then resp_len s else length b) in
           Some (take copy (resp_data s) @ drop copy b)))"

definition send_and_wait ::
    "session \<Rightarrow> u16 \<Rightarrow> u8 list \<Rightarrow> u8 list option \<Rightarrow> nat option \<Rightarrow> wait_env \<Rightarrow> exchange option" where
  "send_and_wait s word data out olen env =
     (let s1 = s\<lparr>resp_pending := False, sess_transport := reader_takes (taken env) (sess_transport s)\<rparr> in
      case transport_enqueue (sess_transport s1) word data of
        (ok, f) \<Rightarrow>
          if \<not> ok then Some \<lparr>ret = -1, sess = s1, out_buf = out, out_len = olen\<rparr>
          else
            (case wait_response (on_cmd_responses (s1\<lparr>sess_transport := f\<rparr>) (early env)) (wakes env) of
               None \<Rightarrow> None
             | Some (Timed_Out s2) \<Rightarrow> Some \<lparr>ret = -1, sess = s2, out_buf = out, out_len = olen\<rparr>
             | Some (Answered s2) \<Rightarrow>
                 Some \<lparr>ret = (if resp_status s2 = 0 then 0 else -1), sess = s2,
                       out_buf = copy_out s2 out,
                       out_len = map_option (\<lambda>_. resp_len s2) olen\<rparr>))"

section \<open>Public operations\<close>

definition session_init :: "bool \<Rightarrow> transport option \<Rightarrow> session option" where
  "session_init alloc_ok transport =
     (if \<not> alloc_ok then None
      else map_option (\<lambda>f. \<lparr>sess_transport = f, resp_cmd = 0, resp_data = replicate TRANSPORT_MAX_DATA 0,
                            resp_len = 0, resp_status = 0, resp_pending = False\<rparr>) transport)"

definition session_start :: "session \<Rightarrow> bool \<Rightarrow> int \<times> session" where
  "session_start s thread_created =
     (case transport_start (sess_transport s) thread_created of
        (r, f) \<Rightarrow> (r, s\<lparr>sess_transport := f\<rparr>))"

text \<open>The environment gives one entry per exchange; the second is used only if the first
  succeeded. The result lists the exchanges attempted, with their payloads.\<close>

definition session_cmd ::
    "session \<Rightarrow> u16 \<Rightarrow> u8 list \<Rightarrow> u8 list option \<Rightarrow> nat option \<Rightarrow> wait_env \<times> wait_env \<times> wait_env
       \<Rightarrow> (exchange \<times> (u16 \<times> u8 list) list) option" where
  "session_cmd s word data out olen envs =
     (case envs of (env_enable, env_cmd, env_end) \<Rightarrow> do {
        a \<leftarrow> send_and_wait s CMD_ENABLE_CONFIG [0x01, 0x00] None None env_enable;
        (b, tr) \<leftarrow>
          (if ret a = 0
           then do {
             x \<leftarrow> send_and_wait (sess a) word data out olen env_cmd;
             Some (x, [(CMD_ENABLE_CONFIG, [0x01, 0x00]), (word, data)])
           }
           else Some (a\<lparr>out_buf := out, out_len := olen\<rparr>, [(CMD_ENABLE_CONFIG, [0x01, 0x00])]));
        c \<leftarrow> send_and_wait (sess b) CMD_END_CONFIG [] None None env_end;
        Some (b\<lparr>sess := sess c\<rparr>, tr @ [(CMD_END_CONFIG, [])])
      })"


section \<open>The response slot\<close>

text \<open>What the slot holds after a deposit, whatever it held before.\<close>

definition slot_holds :: "session \<Rightarrow> response \<Rightarrow> bool" where
  "slot_holds s r \<longleftrightarrow>
     (case r of (word, status, data) \<Rightarrow>
        resp_cmd s = word \<and> resp_status s = status
        \<and> resp_len s = min (length data) TRANSPORT_MAX_DATA
        \<and> take (resp_len s) (resp_data s) = take TRANSPORT_MAX_DATA data)"

lemma on_cmd_response_slot:
  "slot_holds (on_cmd_response s r) r" "resp_pending (on_cmd_response s r)"
  "sess_transport (on_cmd_response s r) = sess_transport s"
  by (cases r; simp add: slot_holds_def on_cmd_response_def Let_def)+

lemma on_cmd_responses_transport [simp, effect_simps]:
  "sess_transport (on_cmd_responses s rs) = sess_transport s"
  by (induction rs arbitrary: s) (simp_all add: on_cmd_responses_def on_cmd_response_slot)

lemma on_cmd_responses_Nil [simp]: "on_cmd_responses s [] = s"
  by (simp add: on_cmd_responses_def)

lemma on_cmd_responses_last:
  assumes "rs \<noteq> []"
  shows "slot_holds (on_cmd_responses s rs) (last rs)" and "resp_pending (on_cmd_responses s rs)"
proof -
  have "on_cmd_responses s rs = on_cmd_response (on_cmd_responses s (butlast rs)) (last rs)"
    unfolding on_cmd_responses_def by (subst append_butlast_last_id [OF assms, symmetric]) simp
  then show "slot_holds (on_cmd_responses s rs) (last rs)" and "resp_pending (on_cmd_responses s rs)"
    by (simp_all add: on_cmd_response_slot)
qed

lemma slot_holds_clear [simp]: "slot_holds (s\<lparr>resp_pending := b\<rparr>) r = slot_holds s r"
  by (simp add: slot_holds_def)

section \<open>A wait\<close>

lemma wait_response_pending:
  "resp_pending s \<Longrightarrow> wait_response s ws = Some (Answered (s\<lparr>resp_pending := False\<rparr>))"
  by (subst wait_response.simps) simp

lemma wait_response_Nil: "\<not> resp_pending s \<Longrightarrow> wait_response s [] = None"
  by (subst wait_response.simps) simp

lemma wait_response_timeout:
  "\<not> resp_pending s \<Longrightarrow> etimedout w \<Longrightarrow>
     wait_response s (w # ws) = Some (Timed_Out (on_cmd_responses s (deposited w)))"
  by (subst wait_response.simps) simp

lemma wait_response_wake:
  "\<not> resp_pending s \<Longrightarrow> \<not> etimedout w \<Longrightarrow>
     wait_response s (w # ws) = wait_response (on_cmd_responses s (deposited w)) ws"
  by (subst wait_response.simps) simp

lemmas wait_response_cases =
  wait_response_pending wait_response_Nil wait_response_timeout wait_response_wake

lemma wait_response_answered:
  assumes "wait_response s ws = Some (Answered s')"
    and "resp_pending s \<Longrightarrow> \<exists>r \<in> R. slot_holds s r"
    and "\<Union> (set ` deposited ` set ws) \<subseteq> R"
  shows "\<exists>r \<in> R. slot_holds s' r"
  using assms
proof (induction ws arbitrary: s)
  case Nil
  then show ?case by (cases "resp_pending s") (auto simp: wait_response_cases)
next
  case (Cons w ws)
  show ?case
  proof (cases "resp_pending s \<or> etimedout w")
    case True
    with Cons.prems(1,2) show ?thesis by (cases "resp_pending s") (auto simp: wait_response_cases)
  next
    case False
    have "\<exists>r \<in> R. slot_holds (on_cmd_responses s (deposited w)) r"
      if "resp_pending (on_cmd_responses s (deposited w))"
    proof -
      from that False have "deposited w \<noteq> []" by auto
      with Cons.prems(3) have "last (deposited w) \<in> R" by auto
      with on_cmd_responses_last(1) [OF \<open>deposited w \<noteq> []\<close>] show ?thesis by blast
    qed
    moreover have "wait_response (on_cmd_responses s (deposited w)) ws = Some (Answered s')"
      using Cons.prems(1) False by (simp add: wait_response_wake)
    ultimately show ?thesis using Cons.IH Cons.prems(3) by simp
  qed
qed

lemma wait_response_transport:
  "wait_response s ws = Some res \<Longrightarrow> sess_transport (wait_session res) = sess_transport s"
proof (induction ws arbitrary: s)
  case Nil
  then show ?case by (cases "resp_pending s") (auto simp: wait_response_cases)
next
  case (Cons w ws)
  then show ?case
    by (cases "resp_pending s"; cases "etimedout w") (auto simp: wait_response_cases)
qed

text \<open>The wait is over once the deadline passes or an answer arrives.\<close>

definition wait_ends :: "wait_env \<Rightarrow> bool" where
  "wait_ends env \<longleftrightarrow> early env \<noteq> [] \<or> (\<exists>w \<in> set (wakes env). etimedout w \<or> deposited w \<noteq> [])"

lemma wait_response_returns:
  assumes "resp_pending s \<or> (\<exists>w \<in> set ws. etimedout w \<or> deposited w \<noteq> [])"
  shows "wait_response s ws \<noteq> None"
  using assms
proof (induction ws arbitrary: s)
  case Nil
  then show ?case by (simp add: wait_response_cases)
next
  case (Cons w ws)
  show ?case
  proof (cases "resp_pending s \<or> etimedout w")
    case True
    then show ?thesis by (cases "resp_pending s") (simp_all add: wait_response_cases)
  next
    case False
    have "resp_pending (on_cmd_responses s (deposited w))
        \<or> (\<exists>w \<in> set ws. etimedout w \<or> deposited w \<noteq> [])"
      using Cons.prems False on_cmd_responses_last(2) [of "deposited w" s] by auto
    then show ?thesis using False Cons.IH by (simp add: wait_response_wake)
  qed
qed

section \<open>An exchange\<close>

text \<open>The three ways an exchange ends.\<close>

lemma send_and_wait_cases:
  assumes "send_and_wait s word data out olen env = Some x"
  obtains
    (refused) f where
      "transport_enqueue (reader_takes (taken env) (sess_transport s)) word data = (False, f)"
      "ret x = -1" "out_buf x = out" "out_len x = olen"
      "sess_transport (sess x) = reader_takes (taken env) (sess_transport s)"
  | (timeout) f where
      "transport_enqueue (reader_takes (taken env) (sess_transport s)) word data = (True, f)"
      "ret x = -1" "out_buf x = out" "out_len x = olen" "sess_transport (sess x) = f"
  | (answered) f s1 where
      "transport_enqueue (reader_takes (taken env) (sess_transport s)) word data = (True, f)"
      "wait_response (on_cmd_responses (s\<lparr>resp_pending := False, sess_transport := f\<rparr>) (early env))
         (wakes env) = Some (Answered s1)"
      "ret x = (if resp_status s1 = 0 then 0 else -1)" "out_buf x = copy_out s1 out"
      "out_len x = map_option (\<lambda>_. resp_len s1) olen" "sess_transport (sess x) = f" "sess x = s1"
proof -
  obtain ok f where e: "transport_enqueue (reader_takes (taken env) (sess_transport s)) word data = (ok, f)"
    by fastforce
  show ?thesis
  proof (cases ok)
    case False
    with assms e show ?thesis by (intro refused) (auto simp: send_and_wait_def Let_def)
  next
    case True
    let ?s = "on_cmd_responses (s\<lparr>resp_pending := False, sess_transport := f\<rparr>) (early env)"
    from assms e True obtain res where w: "wait_response ?s (wakes env) = Some res"
      by (auto simp: send_and_wait_def Let_def split: option.splits)
    from wait_response_transport [OF w] have t: "sess_transport (wait_session res) = f" by simp
    show ?thesis
    proof (cases res)
      case (Timed_Out s1)
      with assms e True w t show ?thesis by (intro timeout) (auto simp: send_and_wait_def Let_def)
    next
      case (Answered s1)
      with assms e True w t show ?thesis by (intro answered) (auto simp: send_and_wait_def Let_def)
    qed
  qed
qed


lemma reader_takes_drop:
  "spsc_inv (queue f) \<Longrightarrow> spsc_inv (queue (reader_takes n f))
     \<and> spsc_contents (queue (reader_takes n f)) = drop n (spsc_contents (queue f))"
proof (induction n arbitrary: f)
  case 0
  then show ?case by simp
next
  case (Suc n)
  from Suc.prems show ?case
  proof (cases rule: spsc.deq_cases)
    case empty
    with Suc.prems show ?thesis by simp
  next
    case (removed x xs q')
    with Suc.IH [of "f\<lparr>queue := q'\<rparr>"] show ?thesis by simp
  qed
qed

abbreviation pending_cmds :: "session \<Rightarrow> transport_cmd list" where
  "pending_cmds s \<equiv> spsc_contents (queue (sess_transport s))"

definition session_inv :: "session \<Rightarrow> bool" where
  "session_inv s \<longleftrightarrow> spsc_inv (queue (sess_transport s))"

lemma send_and_wait_queue:
  assumes "session_inv s" and "send_and_wait s word data out olen env = Some x"
  obtains ok where "session_inv (sess x)" and "ret x = 0 \<longrightarrow> ok" and "ret x = 0 \<or> ret x = -1"
    and "pending_cmds (sess x) =
      drop (taken env) (pending_cmds s) @ (if ok then [\<lparr>cmd_word = word, cmd_data = data\<rparr>] else [])"
proof -
  have inv: "spsc_inv (queue (reader_takes (taken env) (sess_transport s)))"
    and c: "spsc_contents (queue (reader_takes (taken env) (sess_transport s))) =
      drop (taken env) (pending_cmds s)"
    using assms(1) reader_takes_drop by (simp_all add: session_inv_def)
  from assms(2) show ?thesis
  proof (cases rule: send_and_wait_cases)
    case (refused f)
    with inv c that [of False] show ?thesis by (simp add: session_inv_def)
  next
    case (timeout f)
    with transport_enqueue_fifo [OF inv timeout(1)] c that [of True] show ?thesis
      by (simp add: session_inv_def)
  next
    case (answered f s1)
    with transport_enqueue_fifo [OF inv answered(1)] c that [of True] show ?thesis
      by (simp add: session_inv_def)
  qed
qed

lemma suffix_append_mono: "suffix xs ys \<Longrightarrow> suffix (xs @ zs) (ys @ zs)"
  by (auto simp: suffix_def)

lemma send_and_wait_appends:
  assumes "session_inv s" and "send_and_wait s word data out olen env = Some x"
    and "suffix (pending_cmds s) cs"
  obtains acc where "suffix (pending_cmds (sess x)) (cs @ acc)"
    and "acc = [] \<or> acc = [\<lparr>cmd_word = word, cmd_data = data\<rparr>]"
    and "ret x = 0 \<longrightarrow> acc = [\<lparr>cmd_word = word, cmd_data = data\<rparr>]"
    and "session_inv (sess x)" and "ret x = 0 \<or> ret x = -1"
proof -
  obtain ok where x: "session_inv (sess x)" "ret x = 0 \<longrightarrow> ok" "ret x = 0 \<or> ret x = -1"
    "pending_cmds (sess x) =
      drop (taken env) (pending_cmds s) @ (if ok then [\<lparr>cmd_word = word, cmd_data = data\<rparr>] else [])"
    using send_and_wait_queue [OF assms(1,2)] .
  have "suffix (drop (taken env) (pending_cmds s)) cs"
    using assms(3) suffix_drop suffix_order.trans by blast
  then have "suffix (pending_cmds (sess x)) (cs @ (if ok then [\<lparr>cmd_word = word, cmd_data = data\<rparr>] else []))"
    unfolding x(4) by (rule suffix_append_mono)
  with x(1-3) show ?thesis by (intro that) auto
qed

section \<open>What an exchange takes\<close>

text \<open>
  The answer an exchange takes: the last of the responses deposited before its first wait, or of
  those the first return of the condition variable brings that brings any; none if the deadline
  passes first.
\<close>

fun first_deposit :: "wake list \<Rightarrow> response option" where
  "first_deposit [] = None"
| "first_deposit (w # ws) =
     (if etimedout w then None else if deposited w = [] then first_deposit ws else Some (last (deposited w)))"

definition answer_taken :: "wait_env \<Rightarrow> response option" where
  "answer_taken env = (if early env = [] then first_deposit (wakes env) else Some (last (early env)))"

text \<open>Nothing but answers to the command in progress arrives while the caller waits.\<close>

definition only_answers_to :: "u16 \<Rightarrow> wait_env \<Rightarrow> bool" where
  "only_answers_to word env \<longleftrightarrow>
     (\<forall>r \<in> set (early env) \<union> \<Union> (set ` deposited ` set (wakes env)). fst r = word + RESP_OFFSET)"

text \<open>The command finds room in the queue, which the reader thread has been emptying.\<close>

definition queued :: "nat \<Rightarrow> u8 list \<Rightarrow> wait_env \<Rightarrow> bool" where
  "queued n data env \<longleftrightarrow> length data \<le> TRANSPORT_MAX_DATA \<and> n - taken env < TRANSPORT_QUEUE_SIZE"

text \<open>The command was answered with status 0, by an answer of its own.\<close>

definition answered_ok :: "u16 \<Rightarrow> wait_env \<Rightarrow> bool" where
  "answered_ok word env \<longleftrightarrow>
     (case answer_taken env of None \<Rightarrow> False | Some (w, st, d) \<Rightarrow> w = word + RESP_OFFSET \<and> st = 0)"

lemma first_deposit_arrived: "first_deposit ws = Some r \<Longrightarrow> r \<in> \<Union> (set ` deposited ` set ws)"
  by (induction ws) (auto split: if_splits)

lemma answer_taken_arrived:
  "answer_taken env = Some r \<Longrightarrow> r \<in> set (early env) \<union> \<Union> (set ` deposited ` set (wakes env))"
  using first_deposit_arrived [of "wakes env" r] by (auto simp: answer_taken_def split: if_splits)

lemma only_answers_taken:
  assumes "only_answers_to word env" "answer_taken env = Some (w, st, d)"
  shows "w = word + RESP_OFFSET"
proof -
  have "fst (w, st, d) = word + RESP_OFFSET"
    using assms(1)[unfolded only_answers_to_def] answer_taken_arrived [OF assms(2)] by (rule bspec)
  then show ?thesis by simp
qed

lemma first_deposit_wait:
  assumes "\<not> resp_pending s" "wait_response s ws = Some res"
  shows "case first_deposit ws of None \<Rightarrow> \<exists>s'. res = Timed_Out s' | Some r \<Rightarrow> \<exists>s'. res = Answered s' \<and> slot_holds s' r"
  using assms
proof (induction ws arbitrary: s)
  case (Cons w ws)
  show ?case
  proof (cases "etimedout w \<or> deposited w = []")
    case True
    then show ?thesis using Cons by (cases "etimedout w") (auto simp: wait_response_cases)
  next
    case False
    with Cons.prems have "res = Answered ((on_cmd_responses s (deposited w))\<lparr>resp_pending := False\<rparr>)"
      by (simp add: wait_response_wake wait_response_pending on_cmd_responses_last(2))
    then show ?thesis using False on_cmd_responses_last(1) by auto
  qed
qed (simp add: wait_response_cases)

lemma answer_taken_wait:
  assumes "\<not> resp_pending s" "wait_response (on_cmd_responses s (early env)) (wakes env) = Some res"
  shows "case answer_taken env of None \<Rightarrow> \<exists>s'. res = Timed_Out s' | Some r \<Rightarrow> \<exists>s'. res = Answered s' \<and> slot_holds s' r"
proof (cases "early env = []")
  case True
  then show ?thesis using first_deposit_wait assms by (simp add: answer_taken_def)
next
  case False
  then have "res = Answered ((on_cmd_responses s (early env))\<lparr>resp_pending := False\<rparr>)"
    using assms(2) by (simp add: wait_response_pending on_cmd_responses_last(2))
  then show ?thesis using False on_cmd_responses_last(1) by (auto simp: answer_taken_def)
qed

lemma enqueue_iff_queued:
  assumes "session_inv s" "transport_enqueue (reader_takes (taken env) (sess_transport s)) word data = (ok, f)"
  shows "ok \<longleftrightarrow> queued (length (pending_cmds s)) data env"
proof -
  let ?f = "reader_takes (taken env) (sess_transport s)"
  have inv: "spsc_inv (queue ?f)" and c: "spsc_contents (queue ?f) = drop (taken env) (pending_cmds s)"
    using assms(1) reader_takes_drop by (simp_all add: session_inv_def)
  have n: "spsc_count (queue ?f) = length (pending_cmds s) - taken env"
    using c by (metis length_drop length_spsc_contents)
  from inv show ?thesis
  proof (cases rule: spsc.enq_cases [of _ "\<lparr>cmd_word = word, cmd_data = data\<rparr>"])
    case rejected
    then show ?thesis using assms(2) c by (auto simp: transport_enqueue_def queued_def split: if_splits)
  next
    case (accepted q')
    have "spsc_count (queue ?f) < TRANSPORT_QUEUE_SIZE"
      using accepted(1) spsc_enqueue_full [OF inv] spsc_inv_count [OF inv] by (metis Pair_inject le_neq_implies_less)
    then show ?thesis using assms(2) accepted(1) n by (auto simp: transport_enqueue_def queued_def split: if_splits)
  qed
qed

text \<open>The result of an exchange, from what was queued and what was taken.\<close>

lemma exchange_result:
  assumes "session_inv s" "send_and_wait s word data out olen env = Some x"
  shows "queued (length (pending_cmds s)) data env \<Longrightarrow> answer_taken env = Some (w, st, d) \<Longrightarrow>
      ret x = (if st = 0 then 0 else -1) \<and> slot_holds (sess x) (w, st, d) \<and> out_buf x = copy_out (sess x) out
      \<and> out_len x = map_option (\<lambda>_. resp_len (sess x)) olen"
    and "\<not> queued (length (pending_cmds s)) data env \<or> answer_taken env = None \<Longrightarrow>
      ret x = -1 \<and> out_buf x = out \<and> out_len x = olen"
    and "pending_cmds (sess x) = drop (taken env) (pending_cmds s)
      @ (if queued (length (pending_cmds s)) data env then [\<lparr>cmd_word = word, cmd_data = data\<rparr>] else [])"
proof -
  let ?f = "reader_takes (taken env) (sess_transport s)"
  let ?Q = "queued (length (pending_cmds s)) data env"
  have inv: "spsc_inv (queue ?f)" and c: "spsc_contents (queue ?f) = drop (taken env) (pending_cmds s)"
    using assms(1) reader_takes_drop by (simp_all add: session_inv_def)
  obtain ok f where e: "transport_enqueue ?f word data = (ok, f)" by fastforce
  have q: "ok = ?Q" using enqueue_iff_queued [OF assms(1) e] by simp
  let ?s = "s\<lparr>resp_pending := False, sess_transport := f\<rparr>"
  have step: "send_and_wait s word data out olen env = (if \<not> ok
      then Some \<lparr>ret = -1, sess = s\<lparr>resp_pending := False, sess_transport := ?f\<rparr>, out_buf = out, out_len = olen\<rparr>
      else (case wait_response (on_cmd_responses ?s (early env)) (wakes env) of
               None \<Rightarrow> None
             | Some (Timed_Out s2) \<Rightarrow> Some \<lparr>ret = -1, sess = s2, out_buf = out, out_len = olen\<rparr>
             | Some (Answered s2) \<Rightarrow>
                 Some \<lparr>ret = (if resp_status s2 = 0 then 0 else -1), sess = s2, out_buf = copy_out s2 out,
                       out_len = map_option (\<lambda>_. resp_len s2) olen\<rparr>))"
    using e by (simp add: send_and_wait_def Let_def)
  have res: "case answer_taken env of None \<Rightarrow> \<exists>s'. r = Timed_Out s' | Some a \<Rightarrow> \<exists>s'. r = Answered s' \<and> slot_holds s' a"
    if "wait_response (on_cmd_responses ?s (early env)) (wakes env) = Some r" for r
    by (rule answer_taken_wait [OF _ that]) simp
  show "ret x = (if st = 0 then 0 else -1) \<and> slot_holds (sess x) (w, st, d) \<and> out_buf x = copy_out (sess x) out
      \<and> out_len x = map_option (\<lambda>_. resp_len (sess x)) olen" if "?Q" "answer_taken env = Some (w, st, d)"
    using assms(2) that q res unfolding step by (fastforce simp: slot_holds_def split: option.splits wait_result.splits)
  show "ret x = -1 \<and> out_buf x = out \<and> out_len x = olen" if "\<not> ?Q \<or> answer_taken env = None"
    using assms(2) that q res unfolding step by (fastforce split: option.splits wait_result.splits if_splits)
  show "pending_cmds (sess x) = drop (taken env) (pending_cmds s)
      @ (if ?Q then [\<lparr>cmd_word = word, cmd_data = data\<rparr>] else [])"
    using assms(2) c transport_enqueue_fifo [OF inv e] q wait_response_transport unfolding step
    by (fastforce split: option.splits wait_result.splits if_splits)
qed

lemma exchange_ok:
  assumes "session_inv s" "send_and_wait s word data out olen env = Some x" "only_answers_to word env"
  shows "ret x = 0 \<longleftrightarrow> queued (length (pending_cmds s)) data env \<and> answered_ok word env"
proof (cases "answer_taken env")
  case None
  then show ?thesis using exchange_result(2) [OF assms(1,2)] by (simp add: answered_ok_def)
next
  case (Some r)
  obtain w st d where r: "answer_taken env = Some (w, st, d)" using Some by (cases r) auto
  note w = only_answers_taken [OF assms(3) r]
  show ?thesis
  proof (cases "queued (length (pending_cmds s)) data env")
    case True
    from exchange_result(1) [OF assms(1,2) True r] have "ret x = (if st = 0 then 0 else -1)" by blast
    then show ?thesis using True r w by (simp add: answered_ok_def)
  qed (use exchange_result(2) [OF assms(1,2)] in simp)
qed

section \<open>A transaction\<close>

lemma session_cmd_cases:
  assumes "session_cmd s word data out olen (e1, e2, e3) = Some (x, tr)"
  obtains
    (refused) a c where "send_and_wait s CMD_ENABLE_CONFIG [1, 0] None None e1 = Some a" "ret a \<noteq> 0"
      "send_and_wait (sess a) CMD_END_CONFIG [] None None e3 = Some c"
      "x = a\<lparr>out_buf := out, out_len := olen, sess := sess c\<rparr>"
      "tr = [(CMD_ENABLE_CONFIG, [1, 0]), (CMD_END_CONFIG, [])]"
  | (entered) a b c where "send_and_wait s CMD_ENABLE_CONFIG [1, 0] None None e1 = Some a" "ret a = 0"
      "send_and_wait (sess a) word data out olen e2 = Some b"
      "send_and_wait (sess b) CMD_END_CONFIG [] None None e3 = Some c"
      "x = b\<lparr>sess := sess c\<rparr>"
      "tr = [(CMD_ENABLE_CONFIG, [1, 0]), (word, data), (CMD_END_CONFIG, [])]"
proof -
  from assms obtain a where a: "send_and_wait s CMD_ENABLE_CONFIG [1, 0] None None e1 = Some a"
    by (auto simp: session_cmd_def split: bind_splits)
  show ?thesis
  proof (cases "ret a = 0")
    case True
    with assms a show ?thesis
      by (auto simp: session_cmd_def split: bind_splits intro: entered)
  next
    case False
    with assms a show ?thesis
      by (auto simp: session_cmd_def split: bind_splits intro: refused)
  qed
qed

lemma session_cmd_trace:
  assumes "session_cmd s word data out olen (e1, e2, e3) = Some (x, tr)"
  shows "set tr \<subseteq> {(CMD_ENABLE_CONFIG, [1, 0]), (word, data), (CMD_END_CONFIG, [])}
    \<and> (ret x = 0 \<longrightarrow> (word, data) \<in> set tr)"
  using assms
proof (cases rule: session_cmd_cases)
  case (refused a c)
  from refused(2,4,5) show ?thesis by simp
next
  case (entered a b c)
  from entered(6) show ?thesis by simp
qed

text \<open>
  The order of the commands on the way to the sensor, and that the mode is left again.
\<close>

lemma session_cmd_order:
  assumes "session_inv s" and "session_cmd s word data out olen envs = Some (x, tr)"
  shows "(tr = [(CMD_ENABLE_CONFIG, [1, 0]), (CMD_END_CONFIG, [])] \<and> ret x = -1
           \<or> tr = [(CMD_ENABLE_CONFIG, [1, 0]), (word, data), (CMD_END_CONFIG, [])])
       \<and> session_inv (sess x)
       \<and> (\<exists>acc. subseq acc (map (\<lambda>(w, d). \<lparr>cmd_word = w, cmd_data = d\<rparr>) tr)
             \<and> suffix (pending_cmds (sess x)) (pending_cmds s @ acc)
             \<and> (ret x = 0 \<longrightarrow>
                  prefix [\<lparr>cmd_word = CMD_ENABLE_CONFIG, cmd_data = [1, 0]\<rparr>,
                          \<lparr>cmd_word = word, cmd_data = data\<rparr>] acc))"
proof -
  obtain e1 e2 e3 where envs: "envs = (e1, e2, e3)" by (cases envs) auto
  have s0: "suffix (pending_cmds s) (pending_cmds s @ [])" by simp
  from assms(2) show ?thesis unfolding envs
  proof (cases rule: session_cmd_cases)
    case (refused a c)
    obtain acc1 where 1: "suffix (pending_cmds (sess a)) ((pending_cmds s @ []) @ acc1)"
      "acc1 = [] \<or> acc1 = [\<lparr>cmd_word = CMD_ENABLE_CONFIG, cmd_data = [1, 0]\<rparr>]"
      "session_inv (sess a)" "ret a = 0 \<or> ret a = -1"
      using send_and_wait_appends [OF assms(1) refused(1) s0] by metis
    obtain acc2 where 2: "suffix (pending_cmds (sess c)) (((pending_cmds s @ []) @ acc1) @ acc2)"
      "acc2 = [] \<or> acc2 = [\<lparr>cmd_word = CMD_END_CONFIG, cmd_data = []\<rparr>]" "session_inv (sess c)"
      using send_and_wait_appends [OF 1(3) refused(3) 1(1)] by metis
    have "subseq (acc1 @ acc2) (map (\<lambda>(w, d). \<lparr>cmd_word = w, cmd_data = d\<rparr>) tr)"
      using 1(2) 2(2) refused(5) by auto
    with 1(4) 2(1,3) refused(2,4,5) show ?thesis by auto
  next
    case (entered a b c)
    obtain acc1 where 1: "suffix (pending_cmds (sess a)) ((pending_cmds s @ []) @ acc1)"
      "acc1 = [\<lparr>cmd_word = CMD_ENABLE_CONFIG, cmd_data = [1, 0]\<rparr>]" "session_inv (sess a)"
      using send_and_wait_appends [OF assms(1) entered(1) s0] entered(2) by metis
    obtain acc2 where 2: "suffix (pending_cmds (sess b)) (((pending_cmds s @ []) @ acc1) @ acc2)"
      "acc2 = [] \<or> acc2 = [\<lparr>cmd_word = word, cmd_data = data\<rparr>]"
      "ret b = 0 \<longrightarrow> acc2 = [\<lparr>cmd_word = word, cmd_data = data\<rparr>]" "session_inv (sess b)"
      using send_and_wait_appends [OF 1(3) entered(3) 1(1)] by metis
    obtain acc3 where 3:
      "suffix (pending_cmds (sess c)) ((((pending_cmds s @ []) @ acc1) @ acc2) @ acc3)"
      "acc3 = [] \<or> acc3 = [\<lparr>cmd_word = CMD_END_CONFIG, cmd_data = []\<rparr>]" "session_inv (sess c)"
      using send_and_wait_appends [OF 2(4) entered(4) 2(1)] by metis
    have "subseq (acc1 @ acc2 @ acc3) (map (\<lambda>(w, d). \<lparr>cmd_word = w, cmd_data = d\<rparr>) tr)"
      using 1(2) 2(2) 3(2) entered(6) by auto
    moreover have "ret x = 0 \<longrightarrow> prefix [\<lparr>cmd_word = CMD_ENABLE_CONFIG, cmd_data = [1, 0]\<rparr>,
        \<lparr>cmd_word = word, cmd_data = data\<rparr>] (acc1 @ acc2 @ acc3)"
      using 1(2) 2(3) entered(5) by simp
    moreover have "suffix (pending_cmds (sess x)) (pending_cmds s @ acc1 @ acc2 @ acc3)"
      using 3(1) entered(5) by simp
    ultimately show ?thesis using 3(3) entered(5,6) by auto
  qed
qed

text \<open>Which of the exchanges a transaction goes through, and what it answers.\<close>

lemma session_cmd_decided:
  assumes "session_inv s" and "session_cmd s word data out olen (e1, e2, e3) = Some (x, tr)"
    and "only_answers_to CMD_ENABLE_CONFIG e1" "only_answers_to word e2"
  shows "(if queued (length (pending_cmds s)) [1, 0] e1 \<and> answered_ok CMD_ENABLE_CONFIG e1
          then tr = [(CMD_ENABLE_CONFIG, [1, 0]), (word, data), (CMD_END_CONFIG, [])]
            \<and> ret x = (if queued (length (pending_cmds s) - taken e1 + 1) data e2 \<and> answered_ok word e2 then 0 else -1)
          else tr = [(CMD_ENABLE_CONFIG, [1, 0]), (CMD_END_CONFIG, [])]
            \<and> ret x = -1 \<and> out_buf x = out \<and> out_len x = olen)"
  using assms(2)
proof (cases rule: session_cmd_cases)
  case (refused a c)
  have "ret a = -1" using send_and_wait_queue [OF assms(1) refused(1)] refused(2) by blast
  with exchange_ok [OF assms(1) refused(1) assms(3)] refused(2,4,5) show ?thesis by simp
next
  case (entered a b c)
  note ok = exchange_ok [OF assms(1) entered(1) assms(3)]
  have inv: "session_inv (sess a)" using send_and_wait_queue [OF assms(1) entered(1)] by blast
  have n: "length (pending_cmds (sess a)) = length (pending_cmds s) - taken e1 + 1"
    using exchange_result(3) [OF assms(1) entered(1)] ok entered(2) by simp
  have "ret b = 0 \<or> ret b = -1" using send_and_wait_queue [OF inv entered(3)] by blast
  with exchange_ok [OF inv entered(3) assms(4)] ok entered(2,5,6) n show ?thesis by auto
qed

text \<open>
  C7. A transaction with the sensor brackets its command. As long as nothing but answers to
  the command in progress arrives during a wait: it asks for configuration mode first, and the
  command is tried exactly when that request found room in the queue and was answered with
  status 0; the transaction succeeds exactly when the command was then queued and answered with
  status 0 as well, and gives -1 otherwise, without touching the caller's buffer when the mode was
  not entered. It always ends by leaving the mode, whether the command was answered, refused
  or timed out. What reaches the queue is a part of these commands in this order, with nothing of
  another caller between them; on success it begins with the entry and the command, and what is
  still queued at the end is a tail of it.
\<close>

theorem session_cmd_brackets:
  assumes "session_inv s" and "session_cmd s word data out olen (e1, e2, e3) = Some (x, tr)"
    and "only_answers_to CMD_ENABLE_CONFIG e1" "only_answers_to word e2"
  shows "(if queued (length (pending_cmds s)) [1, 0] e1 \<and> answered_ok CMD_ENABLE_CONFIG e1
          then tr = [(CMD_ENABLE_CONFIG, [1, 0]), (word, data), (CMD_END_CONFIG, [])]
            \<and> ret x = (if queued (length (pending_cmds s) - taken e1 + 1) data e2 \<and> answered_ok word e2 then 0 else -1)
          else tr = [(CMD_ENABLE_CONFIG, [1, 0]), (CMD_END_CONFIG, [])]
            \<and> ret x = -1 \<and> out_buf x = out \<and> out_len x = olen)
       \<and> session_inv (sess x)
       \<and> (\<exists>acc. subseq acc (map (\<lambda>(w, d). \<lparr>cmd_word = w, cmd_data = d\<rparr>) tr)
             \<and> suffix (pending_cmds (sess x)) (pending_cmds s @ acc)
             \<and> (ret x = 0 \<longrightarrow>
                  prefix [\<lparr>cmd_word = CMD_ENABLE_CONFIG, cmd_data = [1, 0]\<rparr>,
                          \<lparr>cmd_word = word, cmd_data = data\<rparr>] acc))"
  using session_cmd_decided [OF assms] session_cmd_order [OF assms(1,2)] by blast


lemma copy_out_Some:
  "copy_out s (Some b) = Some (take (min (resp_len s) (length b)) (resp_data s)
     @ drop (min (resp_len s) (length b)) b)"
  by (auto simp: copy_out_def Let_def min_def)

lemma slot_copied_out:
  assumes "slot_holds s (w, st, d)"
  shows "copy_out s (Some b) = Some (let k = min (min (length d) TRANSPORT_MAX_DATA) (length b) in take k d @ drop k b)"
proof -
  from assms have slot: "resp_len s = min (length d) TRANSPORT_MAX_DATA"
    "take (resp_len s) (resp_data s) = take TRANSPORT_MAX_DATA d" unfolding slot_holds_def by auto
  have "take (min (resp_len s) (length b)) (resp_data s) = take (length b) (take (resp_len s) (resp_data s))"
    by (simp add: min.commute)
  also have "\<dots> = take (length b) (take (resp_len s) d)" by (simp only: slot(2)) (simp add: slot(1) min_def)
  finally show ?thesis unfolding copy_out_Some slot(1) Let_def by (simp add: min.commute)
qed

lemma send_and_wait_fresh:
  assumes "send_and_wait s word data (Some b) (Some n) env = Some x" and "ret x = 0"
  shows "\<exists>w d. (w, 0, d) \<in> set (early env) \<union> \<Union> (set ` deposited ` set (wakes env))
     \<and> out_len x = Some (min (length d) TRANSPORT_MAX_DATA)
     \<and> out_buf x = Some (let k = min (min (length d) TRANSPORT_MAX_DATA) (length b)
                          in take k d @ drop k b)"
  using assms(1)
proof (cases rule: send_and_wait_cases)
  case (answered f s1)
  let ?R = "set (early env) \<union> \<Union> (set ` deposited ` set (wakes env))"
  let ?s = "s\<lparr>resp_pending := False, sess_transport := f\<rparr>"
  have "\<exists>r \<in> ?R. slot_holds (on_cmd_responses ?s (early env)) r"
    if "resp_pending (on_cmd_responses ?s (early env))"
  proof -
    from that have "early env \<noteq> []" by (cases "early env") auto
    with on_cmd_responses_last(1) [of "early env" ?s] show ?thesis by auto
  qed
  with wait_response_answered [OF answered(2), of ?R] obtain r where r: "r \<in> ?R" "slot_holds s1 r"
    by blast
  obtain w st d where "r = (w, st, d)" by (cases r)
  with r(2) have slot: "resp_status s1 = st" "resp_len s1 = min (length d) TRANSPORT_MAX_DATA"
    "take (resp_len s1) (resp_data s1) = take TRANSPORT_MAX_DATA d"
    unfolding slot_holds_def prod.case by blast+
  from assms(2) answered(3) slot(1) have "st = 0" by (simp split: if_splits)
  have "take (min (resp_len s1) (length b)) (resp_data s1) = take (min (resp_len s1) (length b)) d"
  proof -
    have "take (length b) (take (resp_len s1) (resp_data s1)) = take (length b) (take TRANSPORT_MAX_DATA d)"
      by (simp only: slot(3))
    moreover have "take TRANSPORT_MAX_DATA d = take (resp_len s1) d"
      by (simp add: slot(2) min_def)
    ultimately show ?thesis by (simp add: min.commute)
  qed
  then have "out_buf x = Some (let k = min (min (length d) TRANSPORT_MAX_DATA) (length b)
      in take k d @ drop k b)"
    unfolding answered(4) copy_out_Some slot(2) Let_def by simp
  with r(1) \<open>r = (w, st, d)\<close> \<open>st = 0\<close> answered(5) slot(2) show ?thesis by auto
qed (use assms(2) in simp_all)

text \<open>
  C8. What a successful exchange hands to its caller is an answer to its own command that
  arrived during it. Let nothing but answers to the command in progress arrive during the
  wait, whatever the slot held before. When the exchange succeeds, the command was queued,
  and it takes the last of the responses that were there before its first wait, or else of those
  the first return of the condition variable brought; that response carries the command word
  plus the answer offset and status 0. The caller's buffer receives its data as far as both the slot
  and the buffer hold it, the rest of the buffer is untouched, and the length is what the slot
  kept. (A response to another command is not filtered out as the comments say, see
  \<open>session_accepts_any_answer\<close>.)
\<close>

theorem session_answer_fresh:
  assumes "session_inv s" "send_and_wait s word data (Some b) (Some n) env = Some x" and "ret x = 0"
    and "only_answers_to word env"
  shows "\<exists>d. queued (length (pending_cmds s)) data env \<and> answer_taken env = Some (word + RESP_OFFSET, 0, d)
     \<and> (word + RESP_OFFSET, 0, d) \<in> set (early env) \<union> \<Union> (set ` deposited ` set (wakes env))
     \<and> out_len x = Some (min (length d) TRANSPORT_MAX_DATA)
     \<and> out_buf x = Some (let k = min (min (length d) TRANSPORT_MAX_DATA) (length b)
                          in take k d @ drop k b)"
proof -
  obtain d where d: "queued (length (pending_cmds s)) data env" "answer_taken env = Some (word + RESP_OFFSET, 0, d)"
    using exchange_ok [OF assms(1,2,4)] assms(3) by (auto simp: answered_ok_def split: option.splits)
  note x = exchange_result(1) [OF assms(1,2) d]
  then have holds: "slot_holds (sess x) (word + RESP_OFFSET, 0, d)" by blast
  then have "out_len x = Some (min (length d) TRANSPORT_MAX_DATA)" using x by (simp add: slot_holds_def)
  moreover have "out_buf x = Some (let k = min (min (length d) TRANSPORT_MAX_DATA) (length b) in take k d @ drop k b)"
    using x slot_copied_out [OF holds] by simp
  moreover note d answer_taken_arrived [OF d(2)]
  ultimately show ?thesis by blast
qed

lemma send_and_wait_returns:
  assumes "wait_ends env"
  shows "\<exists>x. send_and_wait s word data out olen env = Some x"
proof -
  obtain ok f where e: "transport_enqueue (reader_takes (taken env) (sess_transport s)) word data = (ok, f)"
    by fastforce
  have "wait_response (on_cmd_responses s' (early env)) (wakes env) \<noteq> None" for s'
    using assms on_cmd_responses_last(2) [of "early env" s']
    by (intro wait_response_returns) (auto simp: wait_ends_def)
  then obtain res where
    "wait_response (on_cmd_responses (s\<lparr>resp_pending := False, sess_transport := f\<rparr>) (early env))
       (wakes env) = Some res"
    by blast
  with e show ?thesis
    by (cases res) (simp_all add: send_and_wait_def Let_def)
qed

lemma session_cmd_total:
  assumes "wait_ends e1" and "wait_ends e2" and "wait_ends e3"
  shows "\<exists>x tr. session_cmd s word data out olen (e1, e2, e3) = Some (x, tr) \<and> (ret x = 0 \<or> ret x = -1)"
proof -
  have r: "ret x = 0 \<or> ret x = -1" if "send_and_wait s' w d o' l' e = Some x" for s' w d o' l' e x
    using that by (cases rule: send_and_wait_cases) auto
  obtain a where a: "send_and_wait s CMD_ENABLE_CONFIG [1, 0] None None e1 = Some a"
    using send_and_wait_returns [OF assms(1)] by blast
  obtain b where b: "send_and_wait (sess a) word data out olen e2 = Some b"
    using send_and_wait_returns [OF assms(2)] by blast
  obtain c where c: "send_and_wait (sess b) CMD_END_CONFIG [] None None e3 = Some c"
    using send_and_wait_returns [OF assms(3)] by blast
  obtain c' where c': "send_and_wait (sess a) CMD_END_CONFIG [] None None e3 = Some c'"
    using send_and_wait_returns [OF assms(3)] by blast
  show ?thesis
    using a b c c' r [OF a] r [OF b] by (cases "ret a = 0") (simp_all add: session_cmd_def)
qed

text \<open>
  C9. A transaction returns, and what it returns is decided. If each of its three waits sees an
  answer or its deadline, and nothing but answers to the command in progress arrives during a
  wait, it ends: with 0 when the request for configuration mode and then the command were each
  queued and answered with status 0, with -1 in every other case, whatever becomes of leaving the
  mode.
\<close>

theorem session_cmd_returns:
  assumes "session_inv s" "wait_ends e1" "wait_ends e2" "wait_ends e3"
    and "only_answers_to CMD_ENABLE_CONFIG e1" "only_answers_to word e2" "only_answers_to CMD_END_CONFIG e3"
  shows "\<exists>x tr. session_cmd s word data out olen (e1, e2, e3) = Some (x, tr)
     \<and> ret x = (if queued (length (pending_cmds s)) [1, 0] e1 \<and> answered_ok CMD_ENABLE_CONFIG e1
                \<and> queued (length (pending_cmds s) - taken e1 + 1) data e2 \<and> answered_ok word e2 then 0 else -1)"
proof -
  obtain x tr where r: "session_cmd s word data out olen (e1, e2, e3) = Some (x, tr)"
    using session_cmd_total [OF assms(2-4)] by blast
  with session_cmd_decided [OF assms(1) r assms(5,6)] show ?thesis by (auto split: if_splits)
qed

text \<open>
  The command word of the answer plays no part in the result: an answer to any other
  command, with status 0, completes the exchange with success (the code logs the mismatch
  and leaves the loop, where its comment promises to discard such answers and go on waiting).
\<close>

theorem session_accepts_any_answer:
  assumes "session_inv s" and "length (pending_cmds s) < TRANSPORT_QUEUE_SIZE"
    and "length data \<le> TRANSPORT_MAX_DATA" and "early env = [(w, 0, d)]"
  shows "\<exists>x. send_and_wait s word data out olen env = Some x \<and> ret x = 0"
proof -
  let ?f = "reader_takes (taken env) (sess_transport s)"
  have inv: "spsc_inv (queue ?f)" and c: "spsc_contents (queue ?f) = drop (taken env) (pending_cmds s)"
    using assms(1) reader_takes_drop by (simp_all add: session_inv_def)
  from c assms(2) have "spsc_count (queue ?f) < TRANSPORT_QUEUE_SIZE"
    by (metis diff_le_self length_drop length_spsc_contents order.strict_trans1)
  from spsc_enqueue_room [OF inv this] obtain q
    where "spsc_enqueue (queue ?f) \<lparr>cmd_word = word, cmd_data = data\<rparr> = (True, q)" by blast
  with assms(3) obtain f where f: "transport_enqueue ?f word data = (True, f)"
    by (simp add: transport_enqueue_def)
  let ?s = "s\<lparr>resp_pending := False, sess_transport := f\<rparr>"
  have "wait_response (on_cmd_responses ?s (early env)) (wakes env)
      = Some (Answered ((on_cmd_responses ?s (early env))\<lparr>resp_pending := False\<rparr>))"
    by (rule wait_response_pending) (simp add: on_cmd_responses_last(2) assms(4))
  moreover have "resp_status (on_cmd_responses ?s (early env)) = 0"
    by (simp add: assms(4) on_cmd_responses_def on_cmd_response_def Let_def)
  ultimately show ?thesis
    using f by (simp add: send_and_wait_def Let_def)
qed


section \<open>Instances\<close>

text \<open>A fresh session, and a sensor that answers each command at once.\<close>

definition session_example :: session where
  "session_example = the (session_init True (Some (transport_init True True True)))"

definition answer_env :: "u16 \<Rightarrow> u8 list \<Rightarrow> wait_env" where
  "answer_env word data =
     \<lparr>taken = 1, early = [], wakes = [\<lparr>deposited = [(word, 0, data)], etimedout = False\<rparr>]\<rparr>"

definition timeout_env :: wait_env where
  "timeout_env = \<lparr>taken = 1, early = [], wakes = [\<lparr>deposited = [], etimedout = True\<rparr>]\<rparr>"

lemma session_example_inv: "session_inv session_example" "pending_cmds session_example = []"
  by (simp_all add: session_example_def session_inv_def session_init_def transport_init_def)

theorem session_cmd_brackets_witness:
  "\<exists>x tr. session_cmd session_example 0x0071 [5, 0] (Some [0, 0]) (Some 0)
       (answer_env 0x01FF [], answer_env 0x0171 [9, 8, 7], timeout_env) = Some (x, tr)
     \<and> ret x = 0 \<and> out_buf x = Some [9, 8] \<and> out_len x = Some 3
     \<and> tr = [(CMD_ENABLE_CONFIG, [1, 0]), (0x0071, [5, 0]), (CMD_END_CONFIG, [])]"
proof -
  let ?r = "session_cmd session_example 0x0071 [5, 0] (Some [0, 0]) (Some 0)
       (answer_env 0x01FF [], answer_env 0x0171 [9, 8, 7], timeout_env)"
  have 1: "?r = Some (fst (the ?r), snd (the ?r))" by code_simp
  have 2: "ret (fst (the ?r)) = 0 \<and> out_buf (fst (the ?r)) = Some [9, 8]
      \<and> out_len (fst (the ?r)) = Some 3" by code_simp
  have only: "only_answers_to CMD_ENABLE_CONFIG (answer_env 0x01FF [])" "only_answers_to 0x0071 (answer_env 0x0171 [9, 8, 7])"
    by (simp_all add: only_answers_to_def answer_env_def CMD_ENABLE_CONFIG_def RESP_OFFSET_def)
  have "queued (length (pending_cmds session_example)) [1, 0] (answer_env 0x01FF [])"
    "answered_ok CMD_ENABLE_CONFIG (answer_env 0x01FF [])"
    by (simp_all add: session_example_inv queued_def answered_ok_def answer_taken_def answer_env_def
        CMD_ENABLE_CONFIG_def RESP_OFFSET_def TRANSPORT_MAX_DATA_def TRANSPORT_QUEUE_SIZE_def)
  with session_cmd_brackets [OF session_example_inv(1) 1 only]
  have "snd (the ?r) = [(CMD_ENABLE_CONFIG, [1, 0]), (0x0071, [5, 0]), (CMD_END_CONFIG, [])]"
    by simp
  with 1 2 show ?thesis by metis
qed

theorem session_answer_fresh_witness:
  "\<exists>d. answer_taken (answer_env 0x0171 [9, 8, 7]) = Some (0x0171, 0, d) \<and> length d = 3"
proof -
  let ?s = "on_cmd_response session_example (0x0110, 0, [1])"
  let ?r = "send_and_wait ?s 0x0071 [5, 0] (Some [0, 0]) (Some 0) (answer_env 0x0171 [9, 8, 7])"
  have 1: "?r = Some (the ?r)" by code_simp
  have 2: "ret (the ?r) = 0" by code_simp
  have 3: "session_inv ?s" using session_example_inv(1) by (simp add: session_inv_def on_cmd_response_slot)
  have 4: "only_answers_to 0x0071 (answer_env 0x0171 [9, 8, 7])"
    by (simp add: only_answers_to_def answer_env_def RESP_OFFSET_def)
  from session_answer_fresh [OF 3 1 2 4] show ?thesis by (auto simp: answer_env_def RESP_OFFSET_def)
qed

theorem session_cmd_returns_witness:
  "(\<exists>x tr. session_cmd session_example 0x0071 [] None None (answer_env 0x01FF [], timeout_env, timeout_env)
     = Some (x, tr) \<and> ret x = -1)
   \<and> (\<exists>x tr. session_cmd session_example 0x0071 [] None None
          (answer_env 0x01FF [], answer_env 0x0171 [], timeout_env) = Some (x, tr) \<and> ret x = 0)"
proof -
  have only: "only_answers_to CMD_ENABLE_CONFIG (answer_env 0x01FF [])" "only_answers_to 0x0071 (answer_env 0x0171 [])"
    "only_answers_to w timeout_env" for w
    by (simp_all add: only_answers_to_def answer_env_def timeout_env_def CMD_ENABLE_CONFIG_def RESP_OFFSET_def)
  have ends: "wait_ends (answer_env w d)" "wait_ends timeout_env" for w d
    by (simp_all add: wait_ends_def answer_env_def timeout_env_def)
  have no: "\<not> answered_ok 0x0071 timeout_env" by (simp add: answered_ok_def answer_taken_def timeout_env_def)
  have ok: "answered_ok CMD_ENABLE_CONFIG (answer_env 0x01FF [])" "answered_ok 0x0071 (answer_env 0x0171 [])"
    "queued 0 [1, 0] (answer_env 0x01FF [])" "queued (0 - taken (answer_env 0x01FF []) + 1) [] (answer_env 0x0171 [])"
    by (simp_all add: answered_ok_def answer_taken_def answer_env_def queued_def CMD_ENABLE_CONFIG_def RESP_OFFSET_def
        TRANSPORT_MAX_DATA_def TRANSPORT_QUEUE_SIZE_def)
  show ?thesis
    using session_cmd_returns [OF session_example_inv(1) ends(1,2,2) only(1) only(3,3),
        where word = "0x0071" and data = "[]" and out = None and olen = None]
      session_cmd_returns [OF session_example_inv(1) ends(1,1,2) only(1,2,3), where data = "[]" and out = None and olen = None]
      no ok session_example_inv(2)
    by (auto simp del: length_spsc_contents)
qed

theorem session_accepts_any_answer_witness:
  "\<exists>x. send_and_wait session_example 0x0071 [] None None
         \<lparr>taken = 0, early = [(0xBEEF, 0, [])], wakes = []\<rparr> = Some x \<and> ret x = 0"
  by (rule session_accepts_any_answer [OF session_example_inv(1)])
    (simp_all add: session_example_inv TRANSPORT_QUEUE_SIZE_def)

end
