(* ===== verification/Uart.thy ===== *)
theory Uart
  imports Session
begin

text \<open>
  \<^verbatim>\<open>ld2410s_uart/ld2410s_uart.c\<close>: the typed interface of the sensor over \<^verbatim>\<open>session_cmd\<close>. It
  decodes report and calibration frames for the user's callbacks, keeps the count of
  consecutive vacant reports, and reads and writes the sensor's parameters.

  A function returns \<open>None\<close> where its transaction is still waiting, or where it would access
  memory outside a buffer. A local buffer the C code leaves uninitialised is the argument
  \<open>stack\<close>.
\<close>

section \<open>Constants\<close>

definition CMD_READ_FIRMWARE :: u16 where "CMD_READ_FIRMWARE = 0x0000"
definition CMD_WRITE_SERIAL :: u16 where "CMD_WRITE_SERIAL = 0x0010"
definition CMD_READ_SERIAL :: u16 where "CMD_READ_SERIAL = 0x0011"
definition CMD_CALIBRATE :: u16 where "CMD_CALIBRATE = 0x0009"
definition CMD_WRITE_COMMON :: u16 where "CMD_WRITE_COMMON = 0x0070"
definition CMD_READ_COMMON :: u16 where "CMD_READ_COMMON = 0x0071"
definition CMD_WRITE_THRESHOLD :: u16 where "CMD_WRITE_THRESHOLD = 0x0072"
definition CMD_READ_THRESHOLD :: u16 where "CMD_READ_THRESHOLD = 0x0073"
definition CMD_WRITE_SNR :: u16 where "CMD_WRITE_SNR = 0x0074"
definition CMD_READ_SNR :: u16 where "CMD_READ_SNR = 0x0075"

type_synonym param_entry = "string \<times> u16 \<times> u16"

definition PARAM_TABLE :: "param_entry list" where
  "PARAM_TABLE =
     [(''farthest_gate'', CMD_WRITE_COMMON, 0x05),
      (''nearest_gate'', CMD_WRITE_COMMON, 0x0A),
      (''unmanned_delay'', CMD_WRITE_COMMON, 0x06),
      (''status_report_freq'', CMD_WRITE_COMMON, 0x02),
      (''dist_report_freq'', CMD_WRITE_COMMON, 0x0C),
      (''response_speed'', CMD_WRITE_COMMON, 0x0B),
      (''gate_0_trigger'', CMD_WRITE_THRESHOLD, 0x00),
      (''gate_0_holding'', CMD_WRITE_THRESHOLD, 0x08),
      (''gate_1_trigger'', CMD_WRITE_THRESHOLD, 0x01),
      (''gate_1_holding'', CMD_WRITE_THRESHOLD, 0x09),
      (''gate_2_trigger'', CMD_WRITE_THRESHOLD, 0x02),
      (''gate_2_holding'', CMD_WRITE_THRESHOLD, 0x0A),
      (''gate_3_trigger'', CMD_WRITE_THRESHOLD, 0x03),
      (''gate_3_holding'', CMD_WRITE_THRESHOLD, 0x0B),
      (''gate_4_trigger'', CMD_WRITE_THRESHOLD, 0x04),
      (''gate_4_holding'', CMD_WRITE_THRESHOLD, 0x0C),
      (''gate_5_trigger'', CMD_WRITE_THRESHOLD, 0x05),
      (''gate_5_holding'', CMD_WRITE_THRESHOLD, 0x0D),
      (''gate_6_trigger'', CMD_WRITE_THRESHOLD, 0x06),
      (''gate_6_holding'', CMD_WRITE_THRESHOLD, 0x0E),
      (''gate_7_trigger'', CMD_WRITE_THRESHOLD, 0x07),
      (''gate_7_holding'', CMD_WRITE_THRESHOLD, 0x0F),
      (''gate_8_trigger_snr'', CMD_WRITE_SNR, 0x00),
      (''gate_8_hold_snr'', CMD_WRITE_SNR, 0x08),
      (''gate_9_trigger_snr'', CMD_WRITE_SNR, 0x01),
      (''gate_9_hold_snr'', CMD_WRITE_SNR, 0x09),
      (''gate_10_trigger_snr'', CMD_WRITE_SNR, 0x02),
      (''gate_10_hold_snr'', CMD_WRITE_SNR, 0x0A),
      (''gate_11_trigger_snr'', CMD_WRITE_SNR, 0x03),
      (''gate_11_hold_snr'', CMD_WRITE_SNR, 0x0B),
      (''gate_12_trigger_snr'', CMD_WRITE_SNR, 0x04),
      (''gate_12_hold_snr'', CMD_WRITE_SNR, 0x0C),
      (''gate_13_trigger_snr'', CMD_WRITE_SNR, 0x05),
      (''gate_13_hold_snr'', CMD_WRITE_SNR, 0x0D),
      (''gate_14_trigger_snr'', CMD_WRITE_SNR, 0x06),
      (''gate_14_hold_snr'', CMD_WRITE_SNR, 0x0E),
      (''gate_15_trigger_snr'', CMD_WRITE_SNR, 0x07),
      (''gate_15_hold_snr'', CMD_WRITE_SNR, 0x0F)]"

definition COMMON_PARAM_WORDS :: "u16 list" where
  "COMMON_PARAM_WORDS = [0x05, 0x0A, 0x06, 0x02, 0x0C, 0x0B]"

definition NUM_COMMON_PARAMS :: nat where "NUM_COMMON_PARAMS = 6"

section \<open>State\<close>

record uart =
  uart_session :: session
  last_vacancy_count :: size_t
  has_user_report_cb :: bool
  has_user_cal_cb :: bool

record report =
  occupied :: bool
  distance :: u16

record common_params =
  farthest_gate :: u32
  nearest_gate :: u32
  unmanned_delay :: u32
  status_report_freq :: u32
  dist_report_freq :: u32
  response_speed :: u32

record threshold_params =
  thr_trigger :: "u32 list"
  thr_holding :: "u32 list"

record snr_params =
  snr_trigger :: "u32 list"
  snr_hold :: "u32 list"

section \<open>Decoders on the reader thread\<close>

text \<open>The report passed to the user's callback, if one is made.\<close>

definition decode_report :: "uart \<Rightarrow> u8 list \<Rightarrow> (uart \<times> report list) option" where
  "decode_report s frame =
     (if length frame < 5 \<or> \<not> has_user_report_cb s then Some (s, [])
      else do {
        let state = frame ! 1;
        dist \<leftarrow> read_u16_le frame 2;
        let r = \<lparr>occupied = (\<not> (state = 0 \<or> state = 1)), distance = dist\<rparr>;
        Some (s\<lparr>last_vacancy_count := (if occupied r then 0 else last_vacancy_count s + 1)\<rparr>, [r])
      })"

definition decode_calibration :: "uart \<Rightarrow> u8 list \<Rightarrow> u16 list option" where
  "decode_calibration s frame =
     (if length frame < 4 + 2 + 3 + 4 \<or> \<not> has_user_cal_cb s then Some []
      else
        let payload_len = length frame - 4 - 2 - 4 in
        if payload_len < 3 then Some []
        else do {
          progress \<leftarrow> read_u16_le frame (6 + 1);
          Some [progress]
        })"

section \<open>Lifecycle\<close>

definition ld2410s_uart_init :: "bool \<Rightarrow> session option \<Rightarrow> bool \<Rightarrow> bool \<Rightarrow> uart option" where
  "ld2410s_uart_init alloc_ok session report_cb cal_cb =
     (if \<not> alloc_ok then None
      else map_option (\<lambda>se. \<lparr>uart_session = se, last_vacancy_count = 0,
             has_user_report_cb = report_cb, has_user_cal_cb = cal_cb\<rparr>) session)"

definition ld2410s_uart_start :: "uart \<Rightarrow> bool \<Rightarrow> int \<times> uart" where
  "ld2410s_uart_start s thread_created =
     (case session_start (uart_session s) thread_created of (r, se) \<Rightarrow> (r, s\<lparr>uart_session := se\<rparr>))"

definition ld2410s_uart_get_vacant_reports_count :: "uart \<Rightarrow> size_t" where
  "ld2410s_uart_get_vacant_reports_count s = last_vacancy_count s"

section \<open>Getters\<close>

type_synonym envs = "wait_env \<times> wait_env \<times> wait_env"

text \<open>The common shape of every command: one transaction on the session.\<close>

definition uart_cmd :: "uart \<Rightarrow> u16 \<Rightarrow> u8 list \<Rightarrow> u8 list option \<Rightarrow> nat option \<Rightarrow> envs
    \<Rightarrow> (uart \<times> exchange \<times> (u16 \<times> u8 list) list) option" where
  "uart_cmd s word data out olen envs = do {
     (x, tr) \<leftarrow> session_cmd (uart_session s) word data out olen envs;
     Some (s\<lparr>uart_session := sess x\<rparr>, x, tr)
   }"

definition ld2410s_uart_get_firmware :: "uart \<Rightarrow> u8 list \<Rightarrow> nat option \<Rightarrow> envs
    \<Rightarrow> (int \<times> uart \<times> u8 list option \<times> nat option) option" where
  "ld2410s_uart_get_firmware s out actual_len envs = do {
     (s1, x, tr) \<leftarrow> uart_cmd s CMD_READ_FIRMWARE [] (Some out) actual_len envs;
     Some (ret x, s1, out_buf x, out_len x)
   }"

text \<open>The loop that moves the terminator over trailing NUL bytes.\<close>

fun strip_nulls :: "u8 list \<Rightarrow> nat \<Rightarrow> nat" where
  "strip_nulls out 0 = 0"
| "strip_nulls out (Suc copy) = (if out ! copy = 0 then strip_nulls out copy else Suc copy)"

text \<open>
  The part of \<^verbatim>\<open>ld2410s_uart_get_serial\<close> after the transaction: \<open>b\<close> is the local buffer, \<open>n\<close> the
  response length, \<open>out\<close> the caller's buffer, whose size the caller passes as \<open>out_size\<close>.
\<close>

definition store_serial :: "u8 list \<Rightarrow> nat \<Rightarrow> u8 list \<Rightarrow> size_t \<Rightarrow> u8 list option" where
  "store_serial b n out out_size = do {
     sn_len0 \<leftarrow> read_u16_le b 0;
     let avail = (of_nat (n - 2) :: size_t);
     let sn_len = (if ucast sn_len0 > avail then ucast avail else sn_len0);
     let copy = unat (if ucast sn_len < out_size - 1 then ucast sn_len else out_size - 1);
     bytes \<leftarrow> read_bytes b 2 copy;
     (if copy < length out
      then (let out1 = (bytes @ drop copy out)[copy := 0];
                copy1 = strip_nulls out1 copy
            in Some (out1[copy1 := 0]))
      else None)
   }"

definition ld2410s_uart_get_serial :: "uart \<Rightarrow> u8 list \<Rightarrow> size_t \<Rightarrow> u8 list \<Rightarrow> envs
    \<Rightarrow> (int \<times> uart \<times> u8 list) option" where
  "ld2410s_uart_get_serial s out out_size stack envs = do {
     (s1, x, tr) \<leftarrow> uart_cmd s CMD_READ_SERIAL [] (Some stack) (Some 0) envs;
     if ret x < 0 then Some (-1, s1, out)
     else if the (out_len x) < 2 then Some (-1, s1, out)
     else do {
       out' \<leftarrow> store_serial (the (out_buf x)) (the (out_len x)) out out_size;
       Some (0, s1, out')
     }
   }"

text \<open>The result of a parameter getter: return code, state, and the output if it is set.\<close>

definition common_read_payload :: "u8 list" where
  "common_read_payload =
     concat (map (\<lambda>i. write_u16_le (COMMON_PARAM_WORDS ! i)) [0..<NUM_COMMON_PARAMS])"

definition gates_read_payload :: "u8 list" where
  "gates_read_payload = concat (map (\<lambda>i. write_u16_le (of_nat i)) [0..<16])"

definition ld2410s_uart_get_common_params :: "uart \<Rightarrow> u8 list \<Rightarrow> envs
    \<Rightarrow> (int \<times> uart \<times> common_params option) option" where
  "ld2410s_uart_get_common_params s stack envs = do {
     (s1, x, tr) \<leftarrow> uart_cmd s CMD_READ_COMMON common_read_payload (Some stack) (Some 0) envs;
     if ret x < 0 then Some (-1, s1, None)
     else if the (out_len x) < NUM_COMMON_PARAMS * 4 then Some (-1, s1, None)
     else do {
       let b = the (out_buf x);
       v0 \<leftarrow> read_u32_le b (0 * 4);
       v1 \<leftarrow> read_u32_le b (1 * 4);
       v2 \<leftarrow> read_u32_le b (2 * 4);
       v3 \<leftarrow> read_u32_le b (3 * 4);
       v4 \<leftarrow> read_u32_le b (4 * 4);
       v5 \<leftarrow> read_u32_le b (5 * 4);
       Some (0, s1, Some \<lparr>farthest_gate = v0, nearest_gate = v1, unmanned_delay = v2,
                          status_report_freq = v3, dist_report_freq = v4, response_speed = v5\<rparr>)
     }
   }"

definition ld2410s_uart_get_threshold :: "uart \<Rightarrow> u8 list \<Rightarrow> envs
    \<Rightarrow> (int \<times> uart \<times> threshold_params option) option" where
  "ld2410s_uart_get_threshold s stack envs = do {
     (s1, x, tr) \<leftarrow> uart_cmd s CMD_READ_THRESHOLD gates_read_payload (Some stack) (Some 0) envs;
     if ret x < 0 then Some (-1, s1, None)
     else if the (out_len x) < 16 * 4 then Some (-1, s1, None)
     else do {
       let b = the (out_buf x);
       tr8 \<leftarrow> those (map (\<lambda>i. read_u32_le b (i * 4)) [0..<8]);
       ho8 \<leftarrow> those (map (\<lambda>i. read_u32_le b ((i + 8) * 4)) [0..<8]);
       Some (0, s1, Some \<lparr>thr_trigger = tr8, thr_holding = ho8\<rparr>)
     }
   }"

definition ld2410s_uart_get_snr :: "uart \<Rightarrow> u8 list \<Rightarrow> envs
    \<Rightarrow> (int \<times> uart \<times> snr_params option) option" where
  "ld2410s_uart_get_snr s stack envs = do {
     (s1, x, tr) \<leftarrow> uart_cmd s CMD_READ_SNR gates_read_payload (Some stack) (Some 0) envs;
     if ret x < 0 then Some (-1, s1, None)
     else if the (out_len x) < 16 * 4 then Some (-1, s1, None)
     else do {
       let b = the (out_buf x);
       tr8 \<leftarrow> those (map (\<lambda>i. read_u32_le b (i * 4)) [0..<8]);
       ho8 \<leftarrow> those (map (\<lambda>i. read_u32_le b ((i + 8) * 4)) [0..<8]);
       Some (0, s1, Some \<lparr>snr_trigger = tr8, snr_hold = ho8\<rparr>)
     }
   }"

section \<open>Setters\<close>

text \<open>Strings of the caller are lists of bytes without the terminator.\<close>

definition ld2410s_uart_set_serial :: "uart \<Rightarrow> u8 list \<Rightarrow> envs
    \<Rightarrow> (int \<times> uart \<times> (u16 \<times> u8 list) list) option" where
  "ld2410s_uart_set_serial s serial envs = do {
     let len = (if length serial > 8 then 8 else length serial);
     let payload = write_u16_le 8 @ take len serial @ replicate (8 - len) 0;
     (s1, x, tr) \<leftarrow> uart_cmd s CMD_WRITE_SERIAL payload None None envs;
     Some (ret x, s1, tr)
   }"

definition ld2410s_uart_set_param :: "uart \<Rightarrow> string \<Rightarrow> u32 \<Rightarrow> envs
    \<Rightarrow> (int \<times> uart \<times> (u16 \<times> u8 list) list) option" where
  "ld2410s_uart_set_param s name value envs =
     (case find (\<lambda>(n, _). n = name) PARAM_TABLE of
        None \<Rightarrow> Some (-1, s, [])
      | Some (_, write_cmd, param_word) \<Rightarrow> do {
          let payload = write_u16_le param_word @ write_u32_le value;
          (s1, x, tr) \<leftarrow> uart_cmd s write_cmd payload None None envs;
          Some (ret x, s1, tr)
        })"

definition ld2410s_uart_start_calibration :: "uart \<Rightarrow> u16 \<Rightarrow> u16 \<Rightarrow> u16 \<Rightarrow> envs
    \<Rightarrow> (int \<times> uart \<times> (u16 \<times> u8 list) list) option" where
  "ld2410s_uart_start_calibration s trigger retention duration_secs envs = do {
     let cal_data = write_u16_le trigger @ write_u16_le retention @ write_u16_le duration_secs;
     (s1, x, tr) \<leftarrow> uart_cmd s CMD_CALIBRATE cal_data None None envs;
     Some (ret x, s1, tr)
   }"


section \<open>The callbacks the reader thread runs\<close>

text \<open>\<^verbatim>\<open>ld2410s_uart_init\<close> registers the two decoders and, through \<^verbatim>\<open>session_init\<close>, the deposit of
  responses, as the callbacks of the transport.\<close>

fun uart_on_event :: "uart \<Rightarrow> transport_event \<Rightarrow> (uart \<times> report list \<times> u16 list) option" where
  "uart_on_event s (Cmd_Response word status data) =
     Some (s\<lparr>uart_session := on_cmd_response (uart_session s) (word, status, data)\<rparr>, [], [])"
| "uart_on_event s (Report frame) = do {
     (s1, rs) \<leftarrow> decode_report s frame;
     Some (s1, rs, [])
   }"
| "uart_on_event s (Calibration_Report frame) = do {
     ps \<leftarrow> decode_calibration s frame;
     Some (s, [], ps)
   }"

fun uart_on_events :: "uart \<Rightarrow> transport_event list \<Rightarrow> (uart \<times> report list \<times> u16 list) option" where
  "uart_on_events s [] = Some (s, [], [])"
| "uart_on_events s (e # es) = do {
     (s1, rs, ps) \<leftarrow> uart_on_event s e;
     (s2, rs', ps') \<leftarrow> uart_on_events s1 es;
     Some (s2, rs @ rs', ps @ ps')
   }"

text \<open>What the user should see of a report with the given state and distance bytes.\<close>

fun report_of :: "u8 \<times> u8 \<times> u8 \<Rightarrow> report" where
  "report_of (state, lo, hi) =
     \<lparr>occupied = (state \<noteq> 0 \<and> state \<noteq> 1), distance = ucast lo OR push_bit 8 (ucast hi)\<rparr>"

definition vacant_tail :: "report list \<Rightarrow> nat" where
  "vacant_tail rs = length (takeWhile (\<lambda>r. \<not> occupied r) (rev rs))"

lemma decode_report_frame:
  assumes "has_user_report_cb s"
  shows "decode_report s (report_frame r) =
    Some (s\<lparr>last_vacancy_count := (if occupied (report_of r) then 0 else last_vacancy_count s + 1)\<rparr>,
          [report_of r])"
  using assms
  by (cases r) (simp add: decode_report_def report_frame_def read_u16_le_def Let_def)

lemma takeWhile_append_all: "takeWhile P (xs @ ys) = (if list_all P xs then xs @ takeWhile P ys else takeWhile P xs)"
  by (induction xs) auto

lemma uart_on_report_events:
  assumes "has_user_report_cb s"
  shows "uart_on_events s (map (\<lambda>r. Report (report_frame r)) rs) =
    Some (s\<lparr>last_vacancy_count :=
              (if list_all (\<lambda>r. \<not> occupied (report_of r)) rs then last_vacancy_count s else 0)
              + of_nat (vacant_tail (map report_of rs))\<rparr>,
          map report_of rs, [])"
  using assms
proof (induction rs arbitrary: s)
  case Nil
  then show ?case by (simp add: vacant_tail_def)
next
  case (Cons r rs)
  let ?v = "last_vacancy_count s"
  have tail: "vacant_tail (report_of r # map report_of rs) =
      (if list_all (\<lambda>r. \<not> occupied (report_of r)) rs
       then length rs + (if occupied (report_of r) then 0 else 1)
       else vacant_tail (map report_of rs))"
    by (simp add: vacant_tail_def takeWhile_append_all list_all_iff comp_def)
  have all: "vacant_tail (map report_of rs) = length rs" if "list_all (\<lambda>r. \<not> occupied (report_of r)) rs"
  proof -
    from that have "takeWhile (\<lambda>r. \<not> occupied r) (rev (map report_of rs)) = rev (map report_of rs)"
      by (subst takeWhile_eq_all_conv) (auto simp: list_all_iff)
    then show ?thesis unfolding vacant_tail_def by (simp only: length_rev length_map)
  qed
  show ?case
    using Cons.prems Cons.IH [of "s\<lparr>last_vacancy_count := if occupied (report_of r) then 0 else ?v + 1\<rparr>"]
    by (simp add: decode_report_frame tail all add.assoc add.commute [of 1])
qed

text \<open>
  C6. From the wire to the user: a stream of standard reports read byte by byte reaches the
  user's callback as exactly these reports in order, decoded, and the vacancy count is the
  number of reports since the last occupied one (added to the old count, modulo 2^32, when
  none was occupied).
\<close>

theorem uart_reports_from_wire:
  assumes "has_report_cb f" and "has_user_report_cb s"
  shows "\<exists>evs s'. receive_all f [] (concat (map report_frame rs)) = Some (evs, [])
     \<and> uart_on_events s evs = Some (s', map report_of rs, [])
     \<and> uart_session s' = uart_session s
     \<and> ld2410s_uart_get_vacant_reports_count s' =
         (if list_all (\<lambda>r. \<not> occupied (report_of r)) rs then last_vacancy_count s else 0)
         + of_nat (vacant_tail (map report_of rs))"
  using transport_reports_decoded [OF assms(1)] uart_on_report_events [OF assms(2), of rs]
  by (simp add: ld2410s_uart_get_vacant_reports_count_def)


definition uart_example :: uart where
  "uart_example = the (ld2410s_uart_init True (Some session_example) True True)"

theorem uart_reports_from_wire_witness:
  "\<exists>evs s'. receive_all (transport_init True True True) []
       (concat (map report_frame [(2, 0x40, 1), (0, 0, 0), (1, 0x62, 0x6E)])) = Some (evs, [])
     \<and> uart_on_events uart_example evs =
         Some (s', [\<lparr>occupied = True, distance = 0x0140\<rparr>, \<lparr>occupied = False, distance = 0\<rparr>,
                    \<lparr>occupied = False, distance = 0x6E62\<rparr>], [])
     \<and> uart_session s' = uart_session uart_example
     \<and> ld2410s_uart_get_vacant_reports_count s' = 2"
  using uart_reports_from_wire [of "transport_init True True True" uart_example
      "[(2, 0x40, 1), (0, 0, 0), (1, 0x62, 0x6E)]"]
  by (simp add: transport_init_def uart_example_def ld2410s_uart_init_def session_example_def
      session_init_def vacant_tail_def)

section \<open>Reading a block of parameters\<close>

text \<open>The successful answers that arrive during a wait.\<close>

definition ok_answers :: "wait_env \<Rightarrow> u8 list set" where
  "ok_answers env = {d. \<exists>w. (w, 0, d) \<in> set (early env) \<union> \<Union> (set ` deposited ` set (wakes env))}"

lemma uart_cmd_ok:
  assumes "uart_cmd s word payload out olen envs = Some (s1, x, tr)" and "\<not> ret x < 0"
  shows "ret x = 0"
proof -
  obtain e1 e2 e3 where envs: "envs = (e1, e2, e3)" by (cases envs) auto
  have r: "ret y = 0 \<or> ret y = -1" if "send_and_wait s' w d o' l' e = Some y" for s' w d o' l' e y
    using that by (cases rule: send_and_wait_cases) auto
  from assms(1) have "session_cmd (uart_session s) word payload out olen (e1, e2, e3) = Some (x, tr)"
    by (auto simp: uart_cmd_def envs split: bind_splits)
  then have "ret x = 0 \<or> ret x = -1"
    by (cases rule: session_cmd_cases) (use r in fastforce)+
  with assms(2) show ?thesis by auto
qed

lemma uart_cmd_fresh:
  assumes "uart_cmd s word payload (Some stack) (Some 0) (e1, e2, e3) = Some (s1, x, tr)"
    and "ret x = 0"
  obtains d where "d \<in> ok_answers e2" and "out_len x = Some (min (length d) TRANSPORT_MAX_DATA)"
    and "out_buf x = Some (let k = min (min (length d) TRANSPORT_MAX_DATA) (length stack)
                           in take k d @ drop k stack)"
proof -
  from assms(1) have "session_cmd (uart_session s) word payload (Some stack) (Some 0) (e1, e2, e3) = Some (x, tr)"
    by (auto simp: uart_cmd_def split: bind_splits)
  then show ?thesis
  proof (cases rule: session_cmd_cases)
    case (refused a c)
    with assms(2) show ?thesis by simp
  next
    case (entered a b c)
    with assms(2) have "ret b = 0" by simp
    from send_and_wait_fresh [OF entered(3) this] obtain w d where
      "(w, 0, d) \<in> set (early e2) \<union> \<Union> (set ` deposited ` set (wakes e2))"
      and b: "out_len b = Some (min (length d) TRANSPORT_MAX_DATA)"
        "out_buf b = Some (let k = min (min (length d) TRANSPORT_MAX_DATA) (length stack)
                           in take k d @ drop k stack)"
      by blast
    then have "d \<in> ok_answers e2" unfolding ok_answers_def by blast
    with b entered(5) show ?thesis by (intro that) simp_all
  qed
qed

lemma uart_cmd_answer:
  assumes "uart_cmd s word payload (Some stack) (Some 0) (e1, e2, e3) = Some (s1, x, tr)"
    and "ret x = 0" and "ok_answers e2 \<subseteq> {d}"
    and "length d = length stack" and "length d \<le> TRANSPORT_MAX_DATA"
  shows "out_buf x = Some d \<and> out_len x = Some (length d)"
  using assms(1,2)
proof (rule uart_cmd_fresh)
  fix d' assume "d' \<in> ok_answers e2" and x: "out_len x = Some (min (length d') TRANSPORT_MAX_DATA)"
    "out_buf x = Some (let k = min (min (length d') TRANSPORT_MAX_DATA) (length stack)
                       in take k d' @ drop k stack)"
  with assms(3) have "d' = d" by blast
  with x assms(4,5) show ?thesis by (simp add: Let_def)
qed

lemma read_u32_le_nth:
  "i < length vs \<Longrightarrow> read_u32_le (concat (map write_u32_le vs)) (i * 4) = Some (vs ! i)"
proof (induction vs arbitrary: i)
  case Nil
  then show ?case by simp
next
  case (Cons v vs)
  show ?case
  proof (cases i)
    case 0
    with read_write_u32_le [of "[]" v "concat (map write_u32_le vs)"] show ?thesis by simp
  next
    case (Suc k)
    have "read_u32_le (write_u32_le v @ ys) (4 + j) = read_u32_le ys j" for ys j
      by (simp add: read_u32_le_def nth_append add.commute)
    with Suc Cons show ?thesis by simp
  qed
qed

lemma length_concat_write_u32_le [simp]: "length (concat (map write_u32_le vs)) = 4 * length vs"
  by (induction vs) simp_all

lemma those_map_Some: "(\<And>i. i \<in> set xs \<Longrightarrow> f i = Some (g i)) \<Longrightarrow> those (map f xs) = Some (map g xs)"
  by (induction xs) simp_all

lemma read_words:
  assumes "length vs = 16"
  shows "those (map (\<lambda>i. read_u32_le (concat (map write_u32_le vs)) (i * 4)) [0..<8]) = Some (take 8 vs)"
    and "those (map (\<lambda>i. read_u32_le (concat (map write_u32_le vs)) ((i + 8) * 4)) [0..<8]) = Some (drop 8 vs)"
proof -
  have "those (map (\<lambda>i. read_u32_le (concat (map write_u32_le vs)) (i * 4)) [0..<8]) = Some (map ((!) vs) [0..<8])"
    by (rule those_map_Some) (simp add: read_u32_le_nth assms)
  also have "map ((!) vs) [0..<8] = take 8 vs"
    using assms by (intro nth_equalityI) simp_all
  finally show "those (map (\<lambda>i. read_u32_le (concat (map write_u32_le vs)) (i * 4)) [0..<8]) = Some (take 8 vs)" .
  have "those (map (\<lambda>i. read_u32_le (concat (map write_u32_le vs)) ((i + 8) * 4)) [0..<8])
      = Some (map (\<lambda>i. vs ! (i + 8)) [0..<8])"
    by (rule those_map_Some, rule read_u32_le_nth) (simp add: assms)
  also have "map (\<lambda>i. vs ! (i + 8)) [0..<8] = drop 8 vs"
    using assms by (intro nth_equalityI) (simp_all add: add.commute)
  finally show "those (map (\<lambda>i. read_u32_le (concat (map write_u32_le vs)) ((i + 8) * 4)) [0..<8]) = Some (drop 8 vs)" .
qed


section \<open>Parameters by name\<close>

text \<open>The fields of the three structures under the names the parameter table gives them.\<close>

definition gate_name :: "nat \<Rightarrow> string \<Rightarrow> string" where
  "gate_name i what =
     ''gate_'' @ (if i < 10 then [char_of (48 + i)] else [char_of (49 :: nat), char_of (38 + i)])
     @ ''_'' @ what"

definition common_names :: "string list" where
  "common_names = [''farthest_gate'', ''nearest_gate'', ''unmanned_delay'', ''status_report_freq'',
     ''dist_report_freq'', ''response_speed'']"

definition common_values :: "common_params \<Rightarrow> u32 list" where
  "common_values p = [farthest_gate p, nearest_gate p, unmanned_delay p, status_report_freq p,
     dist_report_freq p, response_speed p]"

definition threshold_names :: "string list" where
  "threshold_names = map (\<lambda>i. gate_name i ''trigger'') [0..<8] @ map (\<lambda>i. gate_name i ''holding'') [0..<8]"

definition snr_names :: "string list" where
  "snr_names = map (\<lambda>i. gate_name (8 + i) ''trigger_snr'') [0..<8]
     @ map (\<lambda>i. gate_name (8 + i) ''hold_snr'') [0..<8]"

definition params_by_name :: "common_params \<Rightarrow> threshold_params \<Rightarrow> snr_params \<Rightarrow> string \<Rightarrow> u32 option" where
  "params_by_name p t q =
     map_of (zip common_names (common_values p)
             @ zip threshold_names (thr_trigger t @ thr_holding t)
             @ zip snr_names (snr_trigger q @ snr_hold q))"

text \<open>The same names with the block and register each getter reads for them.\<close>

definition gate_words :: "u16 list" where
  "gate_words = map of_nat [0..<16]"

definition read_layout :: "param_entry list" where
  "read_layout =
     zip common_names (map (Pair CMD_WRITE_COMMON) COMMON_PARAM_WORDS)
     @ zip threshold_names (map (Pair CMD_WRITE_THRESHOLD) gate_words)
     @ zip snr_names (map (Pair CMD_WRITE_SNR) gate_words)"

lemma read_layout_is_table: "set read_layout = set PARAM_TABLE" "distinct (map fst read_layout)"
  by code_simp+

lemma PARAM_TABLE_names_distinct: "distinct (map fst PARAM_TABLE)"
  by code_simp

lemma PARAM_TABLE_registers_distinct: "distinct (map snd PARAM_TABLE)"
  by code_simp

lemma map_of_layout:
  "(n, c, w) \<in> set PARAM_TABLE \<Longrightarrow> map_of (map (\<lambda>(n, c, w). (n, dev c w)) read_layout) n = Some (dev c w)"
  unfolding read_layout_is_table(1) [symmetric]
  by (rule map_of_is_SomeI) (auto simp: comp_def case_prod_beta read_layout_is_table(2) rev_image_eqI)

section \<open>The getters against a sensor\<close>

text \<open>
  A sensor keeps a value per register of each block (\<open>dev\<close>, blocks named by their write
  command) and answers a read command with the values of the requested registers in the
  order of the request.
\<close>

definition answers_reads :: "(u16 \<Rightarrow> u8 list \<Rightarrow> u8 list) \<Rightarrow> (u16 \<Rightarrow> u16 \<Rightarrow> u32) \<Rightarrow> bool" where
  "answers_reads sensor dev \<longleftrightarrow>
     (\<forall>ws. sensor CMD_READ_COMMON (concat (map write_u16_le ws))
             = concat (map write_u32_le (map (dev CMD_WRITE_COMMON) ws))
         \<and> sensor CMD_READ_THRESHOLD (concat (map write_u16_le ws))
             = concat (map write_u32_le (map (dev CMD_WRITE_THRESHOLD) ws))
         \<and> sensor CMD_READ_SNR (concat (map write_u16_le ws))
             = concat (map write_u32_le (map (dev CMD_WRITE_SNR) ws)))"

lemma common_read_payload_words: "common_read_payload = concat (map write_u16_le COMMON_PARAM_WORDS)"
proof -
  have "[0..<6] = [0, 1, 2, 3, 4, 5 :: nat]" by (simp add: upt_rec)
  then show ?thesis
    by (simp add: common_read_payload_def COMMON_PARAM_WORDS_def NUM_COMMON_PARAMS_def)
qed

lemma gates_read_payload_words: "gates_read_payload = concat (map write_u16_le gate_words)"
  unfolding gates_read_payload_def gate_words_def by (simp add: comp_def)

lemma length_gate_words [simp]: "length gate_words = 16"
  by (simp add: gate_words_def)

lemma get_common_values:
  assumes "answers_reads sensor dev"
    and "ld2410s_uart_get_common_params s stack (e1, e2, e3) = Some (0, s1, out)" and "length stack = 24"
    and "ok_answers e2 \<subseteq> {sensor CMD_READ_COMMON common_read_payload}"
  shows "\<exists>p. out = Some p \<and> common_values p = map (dev CMD_WRITE_COMMON) COMMON_PARAM_WORDS"
proof -
  let ?vs = "map (dev CMD_WRITE_COMMON) COMMON_PARAM_WORDS"
  let ?d = "concat (map write_u32_le ?vs)"
  have d: "sensor CMD_READ_COMMON common_read_payload = ?d"
    using assms(1) unfolding answers_reads_def common_read_payload_words by blast
  have len: "length ?vs = 6" by (simp add: COMMON_PARAM_WORDS_def)
  from assms(2) obtain x tr where x:
    "uart_cmd s CMD_READ_COMMON common_read_payload (Some stack) (Some 0) (e1, e2, e3) = Some (s1, x, tr)"
    "\<not> ret x < 0"
    by (auto simp: ld2410s_uart_get_common_params_def Let_def split: bind_splits if_splits)
  have ans: "out_buf x = Some ?d \<and> out_len x = Some 24"
    using uart_cmd_answer [OF x(1) uart_cmd_ok [OF x], of ?d] assms(3,4) d
    unfolding length_concat_write_u32_le len by (simp add: TRANSPORT_MAX_DATA_def)
  have "read_u32_le ?d (i * 4) = Some (?vs ! i)" if "i < 6" for i
    using that len by (intro read_u32_le_nth) simp
  from this [of 0] this [of 1] this [of 2] this [of 3] this [of 4] this [of 5]
  show ?thesis
    using assms(2) x ans
    by (auto simp: ld2410s_uart_get_common_params_def Let_def NUM_COMMON_PARAMS_def common_values_def
        COMMON_PARAM_WORDS_def)
qed

lemma get_threshold_values:
  assumes "answers_reads sensor dev"
    and "ld2410s_uart_get_threshold s stack (e1, e2, e3) = Some (0, s1, out)" and "length stack = 64"
    and "ok_answers e2 \<subseteq> {sensor CMD_READ_THRESHOLD gates_read_payload}"
  shows "\<exists>t. out = Some t \<and> thr_trigger t @ thr_holding t = map (dev CMD_WRITE_THRESHOLD) gate_words"
proof -
  let ?vs = "map (dev CMD_WRITE_THRESHOLD) gate_words"
  let ?d = "concat (map write_u32_le ?vs)"
  have d: "sensor CMD_READ_THRESHOLD gates_read_payload = ?d"
    using assms(1) unfolding answers_reads_def gates_read_payload_words by blast
  have len: "length ?vs = 16" by simp
  from assms(2) obtain x tr where x:
    "uart_cmd s CMD_READ_THRESHOLD gates_read_payload (Some stack) (Some 0) (e1, e2, e3) = Some (s1, x, tr)"
    "\<not> ret x < 0"
    by (auto simp: ld2410s_uart_get_threshold_def Let_def split: bind_splits if_splits)
  have ans: "out_buf x = Some ?d \<and> out_len x = Some 64"
    using uart_cmd_answer [OF x(1) uart_cmd_ok [OF x], of ?d] assms(3,4) d
    unfolding length_concat_write_u32_le len by (simp add: TRANSPORT_MAX_DATA_def)
  obtain vs where vs: "vs = ?vs" by blast
  show ?thesis
    using assms(2) x ans read_words [OF len]
    unfolding vs [symmetric]
    by (auto simp: ld2410s_uart_get_threshold_def Let_def)
qed

lemma get_snr_values:
  assumes "answers_reads sensor dev"
    and "ld2410s_uart_get_snr s stack (e1, e2, e3) = Some (0, s1, out)" and "length stack = 64"
    and "ok_answers e2 \<subseteq> {sensor CMD_READ_SNR gates_read_payload}"
  shows "\<exists>t. out = Some t \<and> snr_trigger t @ snr_hold t = map (dev CMD_WRITE_SNR) gate_words"
proof -
  let ?vs = "map (dev CMD_WRITE_SNR) gate_words"
  let ?d = "concat (map write_u32_le ?vs)"
  have d: "sensor CMD_READ_SNR gates_read_payload = ?d"
    using assms(1) unfolding answers_reads_def gates_read_payload_words by blast
  have len: "length ?vs = 16" by simp
  from assms(2) obtain x tr where x:
    "uart_cmd s CMD_READ_SNR gates_read_payload (Some stack) (Some 0) (e1, e2, e3) = Some (s1, x, tr)"
    "\<not> ret x < 0"
    by (auto simp: ld2410s_uart_get_snr_def Let_def split: bind_splits if_splits)
  have ans: "out_buf x = Some ?d \<and> out_len x = Some 64"
    using uart_cmd_answer [OF x(1) uart_cmd_ok [OF x], of ?d] assms(3,4) d
    unfolding length_concat_write_u32_le len by (simp add: TRANSPORT_MAX_DATA_def)
  obtain vs where vs: "vs = ?vs" by blast
  show ?thesis
    using assms(2) x ans read_words [OF len]
    unfolding vs [symmetric]
    by (auto simp: ld2410s_uart_get_snr_def Let_def)
qed


lemma layout_values:
  assumes "common_values p = map (dev CMD_WRITE_COMMON) COMMON_PARAM_WORDS"
    and "thr_trigger t @ thr_holding t = map (dev CMD_WRITE_THRESHOLD) gate_words"
    and "snr_trigger q @ snr_hold q = map (dev CMD_WRITE_SNR) gate_words"
  shows "params_by_name p t q = map_of (map (\<lambda>(n, c, w). (n, dev c w)) read_layout)"
proof -
  have z: "zip ns (map (dev c) ws) = map (\<lambda>(n, c, w). (n, dev c w)) (zip ns (map (Pair c) ws))"
    for ns :: "string list" and c ws
    by (induction ns ws rule: list_induct2') simp_all
  show ?thesis
    unfolding params_by_name_def read_layout_def assms z map_append ..
qed

text \<open>
  C10. Setters and getters agree on the sensor's registers: whenever the three getters
  succeed, every name of the parameter table has a field in their results, and that field is
  the value of the very register that setting this name writes, for any sensor that answers a
  read with the values of the registers asked for.
\<close>

theorem uart_getters_match_table:
  assumes "answers_reads sensor dev"
    and "ld2410s_uart_get_common_params s1 stack1 (a1, a2, a3) = Some (0, s1', Some p)"
    and "ld2410s_uart_get_threshold s2 stack2 (b1, b2, b3) = Some (0, s2', Some t)"
    and "ld2410s_uart_get_snr s3 stack3 (c1, c2, c3) = Some (0, s3', Some q)"
    and "length stack1 = 24" and "length stack2 = 64" and "length stack3 = 64"
    and "ok_answers a2 \<subseteq> {sensor CMD_READ_COMMON common_read_payload}"
    and "ok_answers b2 \<subseteq> {sensor CMD_READ_THRESHOLD gates_read_payload}"
    and "ok_answers c2 \<subseteq> {sensor CMD_READ_SNR gates_read_payload}"
    and "(name, cmd, word) \<in> set PARAM_TABLE"
  shows "params_by_name p t q name = Some (dev cmd word)"
  using layout_values [of p dev t q] get_common_values [OF assms(1,2,5,8)] get_threshold_values [OF assms(1,3,6,9)]
    get_snr_values [OF assms(1,4,7,10)] map_of_layout [OF assms(11)]
  by simp

section \<open>Setters\<close>

lemma find_name_in_table:
  "(name, cmd, word) \<in> set PARAM_TABLE \<Longrightarrow> find (\<lambda>(n, _). n = name) PARAM_TABLE = Some (name, cmd, word)"
proof -
  have "find (\<lambda>(n, _). n = name) xs = Some (name, v)" if "distinct (map fst xs)" "(name, v) \<in> set xs"
    for xs :: "(string \<times> u16 \<times> u16) list" and v
    using that by (induction xs) (auto simp: rev_image_eqI)
  then show "(name, cmd, word) \<in> set PARAM_TABLE \<Longrightarrow> ?thesis"
    using PARAM_TABLE_names_distinct by blast
qed

lemma uart_cmd_returns:
  assumes "wait_ends e1" and "wait_ends e2" and "wait_ends e3"
  obtains s1 x tr where "uart_cmd s word data out olen (e1, e2, e3) = Some (s1, x, tr)"
    and "session_cmd (uart_session s) word data out olen (e1, e2, e3) = Some (x, tr)"
    and "ret x = 0 \<or> ret x = -1"
proof -
  obtain x tr where "session_cmd (uart_session s) word data out olen (e1, e2, e3) = Some (x, tr)"
    "ret x = 0 \<or> ret x = -1"
    using session_cmd_total [OF assms] by blast
  then show ?thesis by (intro that [of "s\<lparr>uart_session := sess x\<rparr>" x tr]) (simp_all add: uart_cmd_def)
qed

text \<open>
  Setting a parameter: an unknown name is refused and nothing is sent. A known one sends
  its own block's write command, with a payload from which the sensor reads back exactly the
  register of the table and the value; the call returns, and success means that this command
  was answered.
\<close>

theorem uart_set_param_sends:
  assumes "wait_ends e1" and "wait_ends e2" and "wait_ends e3"
  shows "if name \<in> fst ` set PARAM_TABLE
    then \<exists>cmd word r s' tr. (name, cmd, word) \<in> set PARAM_TABLE
       \<and> ld2410s_uart_set_param s name value (e1, e2, e3) = Some (r, s', tr) \<and> (r = 0 \<or> r = -1)
       \<and> (\<forall>(c, d) \<in> set tr. c \<noteq> CMD_ENABLE_CONFIG \<and> c \<noteq> CMD_END_CONFIG \<longrightarrow>
            c = cmd \<and> length d = 6 \<and> read_u16_le d 0 = Some word \<and> read_u32_le d 2 = Some value)
       \<and> (r = 0 \<longrightarrow> cmd \<in> fst ` set tr)
    else ld2410s_uart_set_param s name value (e1, e2, e3) = Some (-1, s, [])"
proof (cases "name \<in> fst ` set PARAM_TABLE")
  case True
  then obtain cmd word where t: "(name, cmd, word) \<in> set PARAM_TABLE" by force
  let ?d = "write_u16_le word @ write_u32_le value"
  obtain s1 x tr where u: "uart_cmd s cmd ?d None None (e1, e2, e3) = Some (s1, x, tr)"
    and c: "session_cmd (uart_session s) cmd ?d None None (e1, e2, e3) = Some (x, tr)"
    and r: "ret x = 0 \<or> ret x = -1"
    using uart_cmd_returns [OF assms] by metis
  have w: "read_u16_le ?d 0 = Some word" "read_u32_le ?d 2 = Some value"
    by (rule read_u16_le_at [of _ "[]"] read_u32_le_at [of _ "write_u16_le word" _ _ "[]"]; simp)+
  have tr: "(\<forall>(c, d) \<in> set tr. c \<noteq> CMD_ENABLE_CONFIG \<and> c \<noteq> CMD_END_CONFIG \<longrightarrow> c = cmd \<and> d = ?d)"
    and ok: "ret x = 0 \<longrightarrow> cmd \<in> fst ` set tr"
    using session_cmd_trace [OF c] by force+
  have "\<forall>(c, d) \<in> set tr. c \<noteq> CMD_ENABLE_CONFIG \<and> c \<noteq> CMD_END_CONFIG \<longrightarrow>
      c = cmd \<and> length d = 6 \<and> read_u16_le d 0 = Some word \<and> read_u32_le d 2 = Some value"
  proof (intro ballI case_prodI2 impI)
    fix p c d assume "p \<in> set tr" "p = (c, d)" "c \<noteq> CMD_ENABLE_CONFIG \<and> c \<noteq> CMD_END_CONFIG"
    with tr have "c = cmd" "d = ?d" by auto
    with w show "c = cmd \<and> length d = 6 \<and> read_u16_le d 0 = Some word \<and> read_u32_le d 2 = Some value"
      by simp
  qed
  moreover have "ld2410s_uart_set_param s name value (e1, e2, e3) = Some (ret x, s1, tr)"
    using u by (simp add: ld2410s_uart_set_param_def find_name_in_table [OF t])
  ultimately show ?thesis using True t r ok by (simp only: if_True) blast
next
  case False
  then have "find (\<lambda>(n, _). n = name) PARAM_TABLE = None"
    by (auto simp: find_None_iff rev_image_eqI)
  with False show ?thesis by (simp add: ld2410s_uart_set_param_def)
qed


section \<open>The serial number\<close>

lemma strip_nulls_le: "strip_nulls b n \<le> n"
  by (induction n) (simp_all add: le_Suc_eq)

lemma store_serial_safe:
  assumes "2 \<le> n" and "n \<le> length b" and "n \<le> 128"
    and "unat out_size = length out" and "out \<noteq> []"
  shows "\<exists>out'. store_serial b n out out_size = Some out' \<and> length out' = length out \<and> 0 \<in> set out'"
proof -
  let ?a = "of_nat (n - 2) :: size_t"
  obtain sn0 where sn0: "read_u16_le b 0 = Some sn0"
    using read_u16_le_in_range [of 0 b] assms(1,2) by auto
  define sn where "sn = (if ucast sn0 > ?a then ucast ?a else sn0)"
  define copy where "copy = unat (if ucast sn < out_size - 1 then ucast sn else out_size - 1)"
  have a: "unat ?a = n - 2" using assms(3) by (simp add: unat_of_nat take_bit_nat_eq_self)
  have "unat (ucast sn :: size_t) \<le> n - 2"
  proof (cases "ucast sn0 > ?a")
    case True
    then have "unat (ucast sn :: size_t) = take_bit 32 (take_bit 16 (unat ?a))"
      by (simp add: sn_def unsigned_ucast_eq unsigned_take_bit_eq)
    also have "\<dots> \<le> n - 2"
      unfolding a by (meson order_trans take_bit_nat_less_eq_self)
    finally show ?thesis .
  next
    case False
    then show ?thesis using a by (simp add: sn_def word_less_nat_alt)
  qed
  moreover have "out_size \<noteq> 0" using assms(4,5) by auto
  then have m: "unat (out_size - 1) = length out - 1"
    using assms(4) by (simp add: unat_minus_one)
  ultimately have copy: "copy \<le> n - 2" "copy \<le> length out - 1"
    by (auto simp: copy_def word_less_nat_alt)
  then have c: "2 + copy \<le> length b" "copy < length out"
    using assms(1,2,5) by (simp_all add: length_greater_0_conv [symmetric] del: length_greater_0_conv)
  let ?out1 = "(take copy (drop 2 b) @ drop copy out)[copy := 0]"
  have l: "length ?out1 = length out" using c by simp
  have "store_serial b n out out_size = read_bytes b 2 copy \<bind> (\<lambda>bytes.
      if copy < length out
      then Some (((bytes @ drop copy out)[copy := 0])
                  [strip_nulls ((bytes @ drop copy out)[copy := 0]) copy := 0])
      else None)"
    unfolding store_serial_def sn0 Let_def sn_def copy_def by simp
  then have "store_serial b n out out_size = Some (?out1[strip_nulls ?out1 copy := 0])"
    using c by (simp add: read_bytes_def)
  moreover have "strip_nulls ?out1 copy < length ?out1"
    using strip_nulls_le [of ?out1 copy] c l by simp
  ultimately show ?thesis
    using l by (simp add: set_update_memI)
qed

text \<open>
  Reading the serial number never writes outside the caller's buffer, whatever length
  the sensor announces, and a buffer of at least one byte ends up holding a terminated
  string; the call always returns.
\<close>

theorem uart_get_serial_safe:
  assumes "wait_ends e1" and "wait_ends e2" and "wait_ends e3"
    and "length stack = TRANSPORT_MAX_DATA" and "unat out_size = length out" and "out \<noteq> []"
  shows "\<exists>r s' out'. ld2410s_uart_get_serial s out out_size stack (e1, e2, e3) = Some (r, s', out')
     \<and> (r = 0 \<or> r = -1) \<and> length out' = length out \<and> (r = 0 \<longrightarrow> 0 \<in> set out') \<and> (r = -1 \<longrightarrow> out' = out)"
proof -
  obtain s1 x tr where u: "uart_cmd s CMD_READ_SERIAL [] (Some stack) (Some 0) (e1, e2, e3) = Some (s1, x, tr)"
    and c: "session_cmd (uart_session s) CMD_READ_SERIAL [] (Some stack) (Some 0) (e1, e2, e3) = Some (x, tr)"
    and r: "ret x = 0 \<or> ret x = -1"
    using uart_cmd_returns [OF assms(1-3)] by metis
  show ?thesis
  proof (cases "ret x = 0")
    case False
    with u r show ?thesis by (simp add: ld2410s_uart_get_serial_def)
  next
    case True
    obtain d where x: "out_len x = Some (min (length d) TRANSPORT_MAX_DATA)"
      "out_buf x = Some (take (min (length d) TRANSPORT_MAX_DATA) d
          @ drop (min (length d) TRANSPORT_MAX_DATA) stack)"
      using uart_cmd_fresh [OF u True] assms(4) by (metis min.cobounded2 min.orderE)
    show ?thesis
    proof (cases "min (length d) TRANSPORT_MAX_DATA < 2")
      case True
      with u \<open>ret x = 0\<close> x show ?thesis by (simp add: ld2410s_uart_get_serial_def)
    next
      case False
      let ?n = "min (length d) TRANSPORT_MAX_DATA"
      have "\<exists>out'. store_serial (take ?n d @ drop ?n stack) ?n out out_size = Some out'
          \<and> length out' = length out \<and> 0 \<in> set out'"
        using False assms(4-6) by (intro store_serial_safe) (simp_all add: TRANSPORT_MAX_DATA_def)
      with u \<open>ret x = 0\<close> x False show ?thesis by (auto simp: ld2410s_uart_get_serial_def)
    qed
  qed
qed


section \<open>Instances\<close>

text \<open>A sensor whose register \<open>w\<close> of block \<open>c\<close> holds \<open>256 * c + w\<close>.\<close>

definition example_dev :: "u16 \<Rightarrow> u16 \<Rightarrow> u32" where
  "example_dev c w = 256 * ucast c + ucast w"

fun example_words :: "u8 list \<Rightarrow> u16 list" where
  "example_words (a # b # bs) = (ucast a OR push_bit 8 (ucast b)) # example_words bs"
| "example_words _ = []"

definition example_sensor :: "u16 \<Rightarrow> u8 list \<Rightarrow> u8 list" where
  "example_sensor cmd payload = concat (map write_u32_le (map (example_dev (cmd - 1)) (example_words payload)))"

lemma example_words_payload: "example_words (concat (map write_u16_le ws)) = ws"
  by (induction ws) (simp_all add: write_u16_le_def ucast_low_byte u16_bytes_join)

lemma example_sensor_answers: "answers_reads example_sensor example_dev"
  by (simp add: answers_reads_def example_sensor_def example_words_payload CMD_READ_COMMON_def
      CMD_READ_THRESHOLD_def CMD_READ_SNR_def CMD_WRITE_COMMON_def CMD_WRITE_THRESHOLD_def CMD_WRITE_SNR_def)

definition example_envs :: "u16 \<Rightarrow> u8 list \<Rightarrow> envs" where
  "example_envs cmd payload =
     (answer_env 0x01FF [], answer_env (cmd + 0x0100) (example_sensor cmd payload), answer_env 0x01FE [])"

lemma ok_answers_answer_env: "ok_answers (answer_env w d) \<subseteq> {d}"
  by (auto simp: ok_answers_def answer_env_def)

theorem uart_getters_match_table_witness:
  "\<exists>s1' s2' s3' p t q.
     ld2410s_uart_get_common_params uart_example (replicate 24 0)
       (example_envs CMD_READ_COMMON common_read_payload) = Some (0, s1', Some p)
   \<and> ld2410s_uart_get_threshold uart_example (replicate 64 0)
       (example_envs CMD_READ_THRESHOLD gates_read_payload) = Some (0, s2', Some t)
   \<and> ld2410s_uart_get_snr uart_example (replicate 64 0)
       (example_envs CMD_READ_SNR gates_read_payload) = Some (0, s3', Some q)
   \<and> params_by_name p t q ''gate_3_holding'' = Some 0x720B"
proof -
  let ?a = "ld2410s_uart_get_common_params uart_example (replicate 24 0)
       (example_envs CMD_READ_COMMON common_read_payload)"
  let ?b = "ld2410s_uart_get_threshold uart_example (replicate 64 0)
       (example_envs CMD_READ_THRESHOLD gates_read_payload)"
  let ?c = "ld2410s_uart_get_snr uart_example (replicate 64 0)
       (example_envs CMD_READ_SNR gates_read_payload)"
  have a: "?a = Some (0, fst (snd (the ?a)), Some (the (snd (snd (the ?a)))))" by code_simp
  have b: "?b = Some (0, fst (snd (the ?b)), Some (the (snd (snd (the ?b)))))" by code_simp
  have c: "?c = Some (0, fst (snd (the ?c)), Some (the (snd (snd (the ?c)))))" by code_simp
  from a obtain s1' p where a': "?a = Some (0, s1', Some p)" by blast
  from b obtain s2' t where b': "?b = Some (0, s2', Some t)" by blast
  from c obtain s3' q where c': "?c = Some (0, s3', Some q)" by blast
  have n: "(''gate_3_holding'', CMD_WRITE_THRESHOLD, 0x0B) \<in> set PARAM_TABLE" by code_simp
  have "params_by_name p t q ''gate_3_holding'' = Some (example_dev CMD_WRITE_THRESHOLD 0x0B)"
    by (rule uart_getters_match_table [OF example_sensor_answers a' [unfolded example_envs_def]
          b' [unfolded example_envs_def] c' [unfolded example_envs_def] _ _ _ ok_answers_answer_env
          ok_answers_answer_env ok_answers_answer_env n]) simp_all
  moreover have "example_dev CMD_WRITE_THRESHOLD 0x0B = 0x720B" by code_simp
  ultimately show ?thesis using a' b' c' by metis
qed

theorem uart_set_param_sends_witness:
  "\<exists>r s' tr. ld2410s_uart_set_param uart_example ''unmanned_delay'' 30
       (answer_env 0x01FF [], timeout_env, timeout_env) = Some (r, s', tr) \<and> (r = 0 \<or> r = -1)"
proof -
  have "''unmanned_delay'' \<in> fst ` set PARAM_TABLE" by code_simp
  with uart_set_param_sends [of "answer_env 0x01FF []" timeout_env timeout_env "''unmanned_delay''"
      uart_example 30]
  show ?thesis by (auto simp: wait_ends_def answer_env_def timeout_env_def)
qed

theorem uart_get_serial_safe_witness:
  "\<exists>r s' out'. ld2410s_uart_get_serial uart_example [1, 2, 3] 3 (replicate 128 7)
       (answer_env 0x01FF [], answer_env 0x0111 [0xFF, 0xFF, 65, 66, 67, 68], timeout_env)
       = Some (r, s', out') \<and> length out' = 3"
  using uart_get_serial_safe [of "answer_env 0x01FF []" "answer_env 0x0111 [0xFF, 0xFF, 65, 66, 67, 68]"
      timeout_env "replicate 128 7" 3 "[1, 2, 3]" uart_example]
  by (auto simp: wait_ends_def answer_env_def timeout_env_def TRANSPORT_MAX_DATA_def)

end
