(* ===== verification/Occupancy.thy ===== *)
theory Occupancy
  imports Uart
begin

text \<open>
  The occupancy service: \<^verbatim>\<open>occupancy-sensor-ld2410s/ld2410s.c\<close> (the poller thread that merges the
  GPIO and UART readings and announces changes with hysteresis, the calibration gate, the
  lifecycle) and \<^verbatim>\<open>main.c\<close> (configuration, the sensor's parameters, the daily calibration).

  The poller is one function per one-second iteration; its reference is a function of the
  history of readings alone. GPIO, D-Bus, json-c and the clock are inputs.
\<close>

section \<open>State\<close>

definition VACANT_REPORTS_ROOM_EMPTY_THRESHOLD :: size_t where
  "VACANT_REPORTS_ROOM_EMPTY_THRESHOLD = 30"

record ld2410s_config =
  enable_uart :: bool
  device :: string
  debug :: bool
  sensor_report_gpio :: int
  cfg_startup_delay_secs :: u32
  cfg_hysteresis_occupied :: u32
  cfg_hysteresis_vacant :: u32

text \<open>The handle \<^verbatim>\<open>gpio\<close> is kept as whether it is open.\<close>

record ld2410s =
  uart :: "uart option"
  gpio :: bool
  gpio_pin :: int
  uart_occupied :: bool
  uart_distance :: u32
  startup_delay_secs :: u32
  hysteresis_occupied :: u32
  hysteresis_vacant :: u32
  poller_running :: bool

section \<open>The UART callback\<close>

definition on_uart_report :: "ld2410s \<Rightarrow> report \<Rightarrow> ld2410s" where
  "on_uart_report s r = s\<lparr>uart_occupied := occupied r, uart_distance := ucast (distance r)\<rparr>"

section \<open>The poller thread\<close>

record poller =
  last_emitted_occupied :: bool
  last_emitted_distance :: u16
  emitted_first :: bool
  pending_state :: bool
  pending_count :: u32
  ticks :: u32

definition poller_init :: poller where
  "poller_init = \<lparr>last_emitted_occupied = False, last_emitted_distance = 0, emitted_first = False,
     pending_state = False, pending_count = 0, ticks = 0\<rparr>"

text \<open>
  One iteration on the merged reading of this second, with the call of \<^verbatim>\<open>state_cb\<close> it makes.
\<close>

definition poller_step :: "ld2410s \<Rightarrow> poller \<Rightarrow> bool \<times> u16 \<Rightarrow> poller \<times> (bool \<times> u16) option" where
  "poller_step s p reading =
     (case reading of (occ, dist) \<Rightarrow>
        let (p1, cb) =
          (if \<not> emitted_first p then
             (if ticks p \<ge> startup_delay_secs s
              then (p\<lparr>emitted_first := True, last_emitted_occupied := occ, last_emitted_distance := dist,
                      pending_state := occ, pending_count := 1\<rparr>,
                    Some (occ, dist))
              else (p, None))
           else
             (let p0 = (if occ = pending_state p then p\<lparr>pending_count := pending_count p + 1\<rparr>
                        else p\<lparr>pending_state := occ, pending_count := 1\<rparr>);
                  threshold0 = (if occ then hysteresis_occupied s else hysteresis_vacant s);
                  threshold = (if threshold0 = 0 then 1 else threshold0)
              in if occ \<noteq> last_emitted_occupied p0 \<and> pending_count p0 \<ge> threshold
                 then (p0\<lparr>last_emitted_occupied := occ, last_emitted_distance := dist\<rparr>, Some (occ, dist))
                 else if occ = last_emitted_occupied p0 \<and> dist \<noteq> last_emitted_distance p0
                 then (p0\<lparr>last_emitted_distance := dist\<rparr>, Some (occ, dist))
                 else (p0, None)))
        in (p1\<lparr>ticks := ticks p1 + 1\<rparr>, cb))"

text \<open>
  The reading of an iteration: \<open>pin\<close> is what \<^verbatim>\<open>rpigpio_read\<close> returns (0, 1, or -1 on error,
  converted to \<open>bool\<close> by the assignment); the atomics hold the last UART report.
\<close>

definition poller_reading :: "ld2410s \<Rightarrow> int \<Rightarrow> bool \<times> u16" where
  "poller_reading s pin =
     (let gpio_occ = (if gpio s then pin \<noteq> 0 else False)
      in (gpio_occ \<or> uart_occupied s, ucast (uart_distance s)))"

fun poller_run :: "ld2410s \<Rightarrow> poller \<Rightarrow> (bool \<times> u16) list \<Rightarrow> poller \<times> (bool \<times> u16) option list" where
  "poller_run s p [] = (p, [])"
| "poller_run s p (r # rs) =
     (case poller_step s p r of (p1, cb) \<Rightarrow>
        (case poller_run s p1 rs of (p2, cbs) \<Rightarrow> (p2, cb # cbs)))"

section \<open>Lifecycle\<close>

text \<open>
  What is open at the end of \<^verbatim>\<open>ld2410s_init\<close>: the structure, the GPIO handle, the UART with its
  reader thread.
\<close>

record sensor_resources =
  res_struct :: bool
  res_gpio :: bool
  res_uart :: bool

definition no_resources :: sensor_resources where
  "no_resources = \<lparr>res_struct = False, res_gpio = False, res_uart = False\<rparr>"

text \<open>\<^verbatim>\<open>ld2410s_free\<close> stops the poller if it runs and closes whatever is open.\<close>

definition ld2410s_free :: "ld2410s option \<Rightarrow> sensor_resources \<Rightarrow> sensor_resources" where
  "ld2410s_free s res = (case s of None \<Rightarrow> res | Some _ \<Rightarrow> no_resources)"

text \<open>The outcomes of the calls \<^verbatim>\<open>ld2410s_init\<close> makes.\<close>

record init_env =
  calloc_ok :: bool
  gpio_open_ok :: bool
  uart_init_result :: "uart option"
  uart_start_ok :: bool
  pthread_create_ok :: bool

definition ld2410s_init :: "ld2410s_config \<Rightarrow> bool \<Rightarrow> init_env \<Rightarrow> ld2410s option \<times> sensor_resources" where
  "ld2410s_init cfg has_cb env =
     (if sensor_report_gpio cfg < 0 \<and> \<not> enable_uart cfg then (None, no_resources)
      else if \<not> calloc_ok env then (None, no_resources)
      else if \<not> has_cb then (None, no_resources\<lparr>res_struct := True\<rparr>)
      else
        let s = \<lparr>uart = None, gpio = False, gpio_pin = sensor_report_gpio cfg,
                 uart_occupied = False, uart_distance = 0,
                 startup_delay_secs = cfg_startup_delay_secs cfg,
                 hysteresis_occupied =
                   (if cfg_hysteresis_occupied cfg \<noteq> 0 then cfg_hysteresis_occupied cfg else 1),
                 hysteresis_vacant =
                   (if cfg_hysteresis_vacant cfg \<noteq> 0 then cfg_hysteresis_vacant cfg else 1),
                 poller_running = False\<rparr>;
            res = no_resources\<lparr>res_struct := True\<rparr>;
            want_gpio = (sensor_report_gpio cfg \<ge> 0)
        in if want_gpio \<and> \<not> gpio_open_ok env then (None, ld2410s_free (Some s) res)
           else
             let s1 = s\<lparr>gpio := want_gpio\<rparr>;
                 res1 = res\<lparr>res_gpio := want_gpio\<rparr>
             in if enable_uart cfg then
                  (case uart_init_result env of
                     None \<Rightarrow> (None, ld2410s_free (Some s1) res1)
                   | Some u \<Rightarrow>
                       (case ld2410s_uart_start u (uart_start_ok env) of (r, u1) \<Rightarrow>
                          let s2 = s1\<lparr>uart := Some u1\<rparr>;
                              res2 = res1\<lparr>res_uart := True\<rparr>
                          in if r < 0 then (None, ld2410s_free (Some s2) res2)
                             else if \<not> pthread_create_ok env then (None, ld2410s_free (Some s2) res2)
                             else (Some (s2\<lparr>poller_running := True\<rparr>), res2)))
                else if \<not> pthread_create_ok env then (None, ld2410s_free (Some s1) res1)
                else (Some (s1\<lparr>poller_running := True\<rparr>), res1))"

section \<open>Parameters and calibration\<close>

definition ld2410s_get_common_params :: "ld2410s \<Rightarrow> u8 list \<Rightarrow> envs
    \<Rightarrow> (int \<times> ld2410s \<times> common_params option) option" where
  "ld2410s_get_common_params s stack envs =
     (case uart s of
        None \<Rightarrow> Some (-1, s, None)
      | Some u \<Rightarrow> do {
          (r, u1, out) \<leftarrow> ld2410s_uart_get_common_params u stack envs;
          Some (r, s\<lparr>uart := Some u1\<rparr>, out)
        })"

definition ld2410s_set_param :: "ld2410s \<Rightarrow> string \<Rightarrow> u32 \<Rightarrow> envs
    \<Rightarrow> (int \<times> ld2410s \<times> (u16 \<times> u8 list) list) option" where
  "ld2410s_set_param s name value envs =
     (case uart s of
        None \<Rightarrow> Some (-1, s, [])
      | Some u \<Rightarrow> do {
          (r, u1, tr) \<leftarrow> ld2410s_uart_set_param u name value envs;
          Some (r, s\<lparr>uart := Some u1\<rparr>, tr)
        })"

definition ld2410s_start_calibration :: "ld2410s \<Rightarrow> u16 \<Rightarrow> u16 \<Rightarrow> u16 \<Rightarrow> envs
    \<Rightarrow> (int \<times> ld2410s \<times> (u16 \<times> u8 list) list) option" where
  "ld2410s_start_calibration s trigger retention duration_secs envs =
     (case uart s of
        None \<Rightarrow> Some (0, s, [])
      | Some u \<Rightarrow>
          (let room_empty =
             (ld2410s_uart_get_vacant_reports_count u \<ge> VACANT_REPORTS_ROOM_EMPTY_THRESHOLD)
           in if \<not> room_empty then Some (-1, s, [])
              else do {
                (r, u1, tr) \<leftarrow> ld2410s_uart_start_calibration u trigger retention duration_secs envs;
                Some (r, s\<lparr>uart := Some u1\<rparr>, tr)
              }))"


section \<open>The service's main loop\<close>

record config =
  sensor :: ld2410s_config
  cal_trigger :: u16
  cal_retention :: u16
  cal_duration :: u16

text \<open>
  \<^verbatim>\<open>load_config\<close>: \<open>root\<close> looks a key up in the parsed file (\<open>None\<close> when the file did not parse),
  and the three functions are json-c's conversions of a value.
\<close>

definition load_config :: "('j \<Rightarrow> bool) \<Rightarrow> ('j \<Rightarrow> string) \<Rightarrow> ('j \<Rightarrow> int) \<Rightarrow> (string \<Rightarrow> 'j option) option
    \<Rightarrow> config option" where
  "load_config get_boolean get_string get_int root =
     map_option (\<lambda>get.
       let bool_or = (\<lambda>k d. case get k of None \<Rightarrow> d | Some v \<Rightarrow> get_boolean v);
           int_or = (\<lambda>k d. case get k of None \<Rightarrow> d | Some v \<Rightarrow> get_int v)
       in \<lparr>sensor = \<lparr>enable_uart = bool_or ''enable_uart'' False,
             device = (case get ''device'' of None \<Rightarrow> ''/dev/ttyUSB0'' | Some v \<Rightarrow> take 63 (get_string v)),
             debug = bool_or ''debug'' False,
             sensor_report_gpio = int_or ''sensor_report_gpio'' (-1),
             cfg_startup_delay_secs = of_int (int_or ''startup_delay_secs'' 10),
             cfg_hysteresis_occupied = of_int (int_or ''hysteresis_occupied'' 3),
             cfg_hysteresis_vacant = of_int (int_or ''hysteresis_vacant'' 3)\<rparr>,
           cal_trigger = of_int (int_or ''calibration_trigger'' 2),
           cal_retention = of_int (int_or ''calibration_retention'' 1),
           cal_duration = of_int (int_or ''calibration_duration'' 120)\<rparr>) root"

definition param_keys :: "string list" where
  "param_keys = [''farthest_gate'', ''nearest_gate'', ''unmanned_delay'', ''status_report_freq'',
     ''dist_report_freq'', ''response_speed'']"

definition param_field :: "common_params \<Rightarrow> string \<Rightarrow> u32" where
  "param_field p key =
     (if key = ''farthest_gate'' then farthest_gate p
      else if key = ''nearest_gate'' then nearest_gate p
      else if key = ''unmanned_delay'' then unmanned_delay p
      else if key = ''status_report_freq'' then status_report_freq p
      else if key = ''dist_report_freq'' then dist_report_freq p
      else response_speed p)"

text \<open>The loop over the table: one environment per key. It returns the writes made, with
  their values and return codes.\<close>

fun apply_params :: "ld2410s \<Rightarrow> common_params \<Rightarrow> (string \<Rightarrow> u32 option) \<Rightarrow> (string \<times> envs) list
    \<Rightarrow> (ld2410s \<times> (string \<times> u32 \<times> int) list) option" where
  "apply_params s current desired [] = Some (s, [])"
| "apply_params s current desired ((key, env) # keys) =
     (case desired key of
        None \<Rightarrow> apply_params s current desired keys
      | Some v \<Rightarrow>
          if v = param_field current key then apply_params s current desired keys
          else do {
            (r, s1, tr) \<leftarrow> ld2410s_set_param s key v env;
            (s2, ws) \<leftarrow> apply_params s1 current desired keys;
            Some (s2, (key, v, r) # ws)
          })"

definition all_ones_params :: common_params where
  "all_ones_params = \<lparr>farthest_gate = 0xFFFFFFFF, nearest_gate = 0xFFFFFFFF,
     unmanned_delay = 0xFFFFFFFF, status_report_freq = 0xFFFFFFFF, dist_report_freq = 0xFFFFFFFF,
     response_speed = 0xFFFFFFFF\<rparr>"

definition apply_sensor_params :: "ld2410s \<Rightarrow> config \<Rightarrow> (string \<Rightarrow> u32 option) option \<Rightarrow> u8 list
    \<Rightarrow> envs \<Rightarrow> envs list \<Rightarrow> (int \<times> ld2410s \<times> (string \<times> u32 \<times> int) list) option" where
  "apply_sensor_params s cfg root stack env_get env_sets =
     (if \<not> enable_uart (sensor cfg) then Some (0, s, [])
      else (case root of
              None \<Rightarrow> Some (-1, s, [])
            | Some desired \<Rightarrow> do {
                (r, s1, out) \<leftarrow> ld2410s_get_common_params s stack env_get;
                let current = (case out of Some p \<Rightarrow> if r < 0 then all_ones_params else p
                                         | None \<Rightarrow> all_ones_params);
                (s2, ws) \<leftarrow> apply_params s1 current desired (zip param_keys env_sets);
                Some (0, s2, ws)
              }))"

record cal_state =
  last_cal_yday :: int
  calibration_force :: bool

text \<open>What reaches one turn of the main loop: the frames the reader thread has delivered
  since the last one, the local time, and the course of the transaction if one is made.\<close>

record main_input =
  rx_events :: "transport_event list"
  tm_hour :: int
  tm_yday :: int
  cal_envs :: envs

definition deliver_events :: "ld2410s \<Rightarrow> transport_event list \<Rightarrow> ld2410s option" where
  "deliver_events s evs =
     (case uart s of
        None \<Rightarrow> Some s
      | Some u \<Rightarrow> do {
          (u1, reports, progress) \<leftarrow> uart_on_events u evs;
          Some (foldl on_uart_report (s\<lparr>uart := Some u1\<rparr>) reports)
        })"

definition main_turn :: "config \<Rightarrow> cal_state \<Rightarrow> ld2410s \<Rightarrow> main_input
    \<Rightarrow> (cal_state \<times> ld2410s \<times> (int \<times> (u16 \<times> u8 list) list) option) option" where
  "main_turn cfg c s0 inp = do {
     s \<leftarrow> deliver_events s0 (rx_events inp);
     if (tm_hour inp = 3 \<and> tm_yday inp \<noteq> last_cal_yday c) \<or> calibration_force c
     then do {
       (r, s1, tr) \<leftarrow> ld2410s_start_calibration s (cal_trigger cfg) (cal_retention cfg)
                      (cal_duration cfg) (cal_envs inp);
       Some (if r = 0 then c\<lparr>last_cal_yday := tm_yday inp, calibration_force := False\<rparr> else c,
             s1, Some (r, tr))
     }
     else Some (c, s, None)
   }"

fun main_loop :: "config \<Rightarrow> cal_state \<Rightarrow> ld2410s \<Rightarrow> main_input list
    \<Rightarrow> (cal_state \<times> ld2410s \<times> (main_input \<times> (int \<times> (u16 \<times> u8 list) list) option) list) option" where
  "main_loop cfg c s [] = Some (c, s, [])"
| "main_loop cfg c s (inp # inps) = do {
     (c1, s1, a) \<leftarrow> main_turn cfg c s inp;
     (c2, s2, as) \<leftarrow> main_loop cfg c1 s1 inps;
     Some (c2, s2, (inp, a) # as)
   }"

section \<open>Hysteresis: the reference\<close>

text \<open>
  A history is the list of readings so far, the latest first. Nothing is announced before the
  startup delay. Afterwards a change of occupancy is announced once as many consecutive
  readings as its threshold agree on it, counting from the first announced reading, and a change
  of distance whenever the occupancy is the announced one.
\<close>

definition change_threshold :: "ld2410s \<Rightarrow> bool \<Rightarrow> nat" where
  "change_threshold s occ = max 1 (unat (if occ then hysteresis_occupied s else hysteresis_vacant s))"

definition run_length :: "bool \<Rightarrow> (bool \<times> u16) list \<Rightarrow> nat" where
  "run_length occ h = length (takeWhile (\<lambda>r. fst r = occ) h)"

definition since_start :: "ld2410s \<Rightarrow> (bool \<times> u16) list \<Rightarrow> (bool \<times> u16) list" where
  "since_start s h = take (length h - unat (startup_delay_secs s)) h"

fun announced :: "ld2410s \<Rightarrow> (bool \<times> u16) list \<Rightarrow> (bool \<times> u16) option" where
  "announced s [] = None"
| "announced s ((occ, dist) # h) =
     (case announced s h of
        None \<Rightarrow> if length h \<ge> unat (startup_delay_secs s) then Some (occ, dist) else None
      | Some (eo, ed) \<Rightarrow>
          if occ = eo then Some (occ, dist)
          else if run_length occ (since_start s ((occ, dist) # h)) \<ge> change_threshold s occ
          then Some (occ, dist)
          else Some (eo, ed))"

definition poller_matches :: "ld2410s \<Rightarrow> (bool \<times> u16) list \<Rightarrow> poller \<Rightarrow> bool" where
  "poller_matches s h p \<longleftrightarrow>
     (case announced s h of
        None \<Rightarrow> \<not> emitted_first p \<and> ticks p = of_nat (length h)
          \<and> length h \<le> unat (startup_delay_secs s)
      | Some (eo, ed) \<Rightarrow>
          emitted_first p \<and> last_emitted_occupied p = eo \<and> last_emitted_distance p = ed
          \<and> unat (startup_delay_secs s) < length h \<and> pending_state p = fst (hd h)
          \<and> (pending_state p \<noteq> eo \<longrightarrow>
               unat (pending_count p) = run_length (pending_state p) (since_start s h)
               \<and> run_length (pending_state p) (since_start s h) < change_threshold s (pending_state p)))"

lemma run_length_since_start:
  assumes "unat (startup_delay_secs s) < length h"
  shows "run_length occ (since_start s ((occ', dist) # h)) =
    (if occ' = occ then Suc (run_length occ (since_start s h)) else 0)"
  using assms by (simp add: run_length_def since_start_def Suc_diff_le)

lemma run_length_other:
  assumes "unat (startup_delay_secs s) < length h" and "fst (hd h) \<noteq> occ"
  shows "run_length occ (since_start s h) = 0"
  using assms by (cases h) (simp_all add: run_length_def since_start_def Suc_diff_le)

lemma threshold_reached:
  "(c \<ge> (if t = 0 then 1 else t)) = (unat c \<ge> max 1 (unat t))" for c t :: u32
  by (auto simp: word_le_nat_alt max_def unat_eq_0 unat_gt_0 Suc_le_eq)

lemma change_threshold_bound: "change_threshold s occ < 2 ^ 32"
  using unsigned_less [of "if occ then hysteresis_occupied s else hysteresis_vacant s"]
  by (simp add: change_threshold_def)


lemma poller_step_waiting:
  assumes "\<not> emitted_first p"
  shows "poller_step s p (occ, dist) =
    (if ticks p \<ge> startup_delay_secs s
     then (p\<lparr>emitted_first := True, last_emitted_occupied := occ, last_emitted_distance := dist,
             pending_state := occ, pending_count := 1, ticks := ticks p + 1\<rparr>, Some (occ, dist))
     else (p\<lparr>ticks := ticks p + 1\<rparr>, None))"
  using assms by (simp add: poller_step_def)

definition next_count :: "poller \<Rightarrow> bool \<Rightarrow> u32" where
  "next_count p occ = (if occ = pending_state p then pending_count p + 1 else 1)"

lemma poller_step_running:
  assumes "emitted_first p"
  shows "poller_step s p (occ, dist) =
    (let p1 = p\<lparr>pending_state := occ, pending_count := next_count p occ, ticks := ticks p + 1\<rparr>
     in if occ \<noteq> last_emitted_occupied p \<and> unat (next_count p occ) \<ge> change_threshold s occ
        then (p1\<lparr>last_emitted_occupied := occ, last_emitted_distance := dist\<rparr>, Some (occ, dist))
        else if occ = last_emitted_occupied p \<and> dist \<noteq> last_emitted_distance p
        then (p1\<lparr>last_emitted_distance := dist\<rparr>, Some (occ, dist))
        else (p1, None))"
proof -
  have "p\<lparr>pending_count := c\<rparr> = p\<lparr>pending_state := pending_state p, pending_count := c\<rparr>" for c
    by simp
  with assms show ?thesis
    unfolding poller_step_def next_count_def change_threshold_def Let_def threshold_reached
    by (cases "occ = pending_state p") simp_all
qed

lemma poller_matches_init: "poller_matches s [] poller_init"
  by (simp add: poller_matches_def poller_init_def)

lemma poller_step_announces:
  assumes m: "poller_matches s h p" and step: "poller_step s p r = (p', cb)"
  shows "poller_matches s (r # h) p' \<and>
    cb = (if announced s (r # h) = announced s h then None else announced s (r # h))"
proof -
  obtain occ dist where r: "r = (occ, dist)" by (cases r)
  show ?thesis
  proof (cases "announced s h")
    case None
    with m have p: "\<not> emitted_first p" "ticks p = of_nat (length h)"
      and len: "length h \<le> unat (startup_delay_secs s)"
      by (simp_all add: poller_matches_def)
    from len have "unat (of_nat (length h) :: u32) = length h"
      by (intro unat_of_nat_small) (use unat_bound [of "startup_delay_secs s"] in simp)
    with p(2) len have due: "ticks p \<ge> startup_delay_secs s \<longleftrightarrow> length h = unat (startup_delay_secs s)"
      by (auto simp: word_le_nat_alt)
    show ?thesis
      using step None len p unfolding r poller_step_waiting [OF p(1)] due
      by (auto simp: poller_matches_def split: if_splits)
  next
    case (Some e)
    obtain eo ed where e: "e = (eo, ed)" by (cases e)
    let ?w = "since_start s h"
    from m have "emitted_first p \<and> last_emitted_occupied p = eo \<and> last_emitted_distance p = ed
        \<and> unat (startup_delay_secs s) < length h \<and> pending_state p = fst (hd h)
        \<and> (pending_state p \<noteq> eo \<longrightarrow>
             unat (pending_count p) = run_length (pending_state p) ?w
             \<and> run_length (pending_state p) ?w < change_threshold s (pending_state p))"
      unfolding poller_matches_def Some e option.case prod.case .
    then have p: "emitted_first p" "last_emitted_occupied p = eo" "last_emitted_distance p = ed"
      "pending_state p = fst (hd h)"
      and len: "unat (startup_delay_secs s) < length h"
      and pend: "pending_state p \<noteq> eo \<Longrightarrow> unat (pending_count p) = run_length (pending_state p) ?w
        \<and> run_length (pending_state p) ?w < change_threshold s (pending_state p)"
      by blast+
    have run: "run_length occ (since_start s (r # h)) = Suc (run_length occ ?w)"
      unfolding r run_length_since_start [OF len] by simp
    have count: "unat (next_count p occ) = Suc (run_length occ ?w)" if "occ \<noteq> eo"
    proof (cases "occ = pending_state p")
      case True
      with that pend have "unat (pending_count p) = run_length occ ?w"
        "run_length occ ?w < change_threshold s occ" by simp_all
      moreover have "change_threshold s occ < 2 ^ 32" by (rule change_threshold_bound)
      ultimately show ?thesis
        using True by (simp add: next_count_def unat_word_ariths)
    next
      case False
      with run_length_other [OF len] p(4) have "run_length occ ?w = 0" by simp
      with False show ?thesis by (simp add: next_count_def)
    qed
    have ann: "announced s (r # h) =
        (if occ = eo \<or> Suc (run_length occ ?w) \<ge> change_threshold s occ then Some (occ, dist)
         else Some (eo, ed))"
      unfolding r announced.simps Some e run [unfolded r] option.case prod.case
      by (cases "occ = eo") (simp_all only: simp_thms if_True if_False)
    have len': "unat (startup_delay_secs s) < length (r # h)" using len by simp
    show ?thesis
    proof (cases "occ = eo")
      case True
      with step p ann len' show ?thesis
        unfolding r poller_step_running [OF p(1)] poller_matches_def
        by (auto simp: Let_def Some e split: if_splits)
    next
      case False
      with step p ann len' count [OF False] run show ?thesis
        unfolding r poller_step_running [OF p(1)] poller_matches_def
        by (auto simp: Let_def Some e split: if_splits)
    qed
  qed
qed


text \<open>What is said at the last reading of a history.\<close>

fun announcement :: "ld2410s \<Rightarrow> (bool \<times> u16) list \<Rightarrow> (bool \<times> u16) option" where
  "announcement s [] = None"
| "announcement s (r # h) =
     (if announced s (r # h) = announced s h then None else announced s (r # h))"

lemma poller_run_announces:
  "poller_matches s h p \<Longrightarrow>
     snd (poller_run s p rs) = map (\<lambda>i. announcement s (rev (take (Suc i) rs) @ h)) [0..<length rs]"
proof (induction rs arbitrary: h p)
  case Nil
  then show ?case by simp
next
  case (Cons r rs)
  obtain p1 cb where step: "poller_step s p r = (p1, cb)" by fastforce
  with poller_step_announces [OF Cons.prems step] have m: "poller_matches s (r # h) p1"
    and cb: "cb = announcement s (r # h)" by simp_all
  have "snd (poller_run s p (r # rs)) = cb # snd (poller_run s p1 rs)"
    using step by (simp split: prod.split)
  moreover have "map f [0..<length (r # rs)] = f 0 # map (\<lambda>i. f (Suc i)) [0..<length rs]" for f :: "nat \<Rightarrow> (bool \<times> u16) option"
    using map_upt_Suc_hd [of "length (r # rs)" f] by (simp del: upt_Suc)
  ultimately show ?case
    unfolding Cons.IH [OF m] cb by (simp del: announcement.simps upt_Suc list.size)
qed

text \<open>
  C11. The poller thread announces exactly what the reference says of the history of readings,
  second by second and without exception: nothing before the startup delay, a change of
  occupancy at the reading that completes its threshold of agreeing ones, a change of
  distance only while the occupancy is the announced one. The 32-bit counters of the
  code never wrap in a way that shows.
\<close>

theorem poller_announces_reference:
  "snd (poller_run s poller_init rs) = map (\<lambda>i. announcement s (rev (take (Suc i) rs))) [0..<length rs]"
  using poller_run_announces [OF poller_matches_init, of s rs] by simp

definition said :: "(bool \<times> u16) option list \<Rightarrow> (bool \<times> u16) list" where
  "said cbs = List.map_filter id cbs"

lemma said_append: "said (xs @ [c]) = said xs @ (case c of None \<Rightarrow> [] | Some x \<Rightarrow> [x])"
  by (simp add: said_def List.map_filter_def split: option.split)

lemma announced_stays: "announced s h \<noteq> None \<Longrightarrow> announced s (r # h) \<noteq> None"
  by (cases r) (auto split: option.split)

lemma said_last:
  "announced s (rev rs) =
     (let w = said (map (\<lambda>i. announcement s (rev (take (Suc i) rs))) [0..<length rs])
      in if w = [] then None else Some (last w))"
proof (induction rs rule: rev_induct)
  case Nil
  then show ?case by (simp add: said_def List.map_filter_def)
next
  case (snoc r rs)
  have "map (\<lambda>i. announcement s (rev (take (Suc i) (rs @ [r])))) [0..<length (rs @ [r])]
      = map (\<lambda>i. announcement s (rev (take (Suc i) rs))) [0..<length rs] @ [announcement s (r # rev rs)]"
    by simp
  note eq = this
  show ?case
    unfolding eq said_append using snoc announced_stays [of s "rev rs" r]
    by (simp add: Let_def del: announced.simps split: option.split if_splits)
qed

lemma announced_settled:
  assumes "unat (startup_delay_secs s) + change_threshold s occ \<le> Suc (length h)"
    and "\<forall>r \<in> set (take (change_threshold s occ) ((occ, dist) # h)). fst r = occ"
  shows "announced s ((occ, dist) # h) = Some (occ, dist)"
proof -
  let ?n = "change_threshold s occ" and ?h = "(occ, dist) # h"
  have "1 \<le> ?n" by (simp add: change_threshold_def)
  have w: "take ?n (since_start s ?h) = take ?n ?h"
    using assms(1) by (simp add: since_start_def min_def)
  have "takeWhile (\<lambda>r. fst r = occ) (take ?n ?h) = take ?n ?h"
    using assms(2) by (subst takeWhile_eq_all_conv) simp
  moreover have "length (take ?n ?h) = ?n"
    using assms(1) by simp
  ultimately have "length (takeWhile (\<lambda>r. fst r = occ) (take ?n (since_start s ?h))) = ?n"
    unfolding w by (simp only:)
  moreover have "length (takeWhile P (take n xs)) \<le> length (takeWhile P xs)"
    for P n and xs :: "(bool \<times> u16) list"
    by (induction xs arbitrary: n) (auto simp: take_Cons')
  ultimately have "?n \<le> run_length occ (since_start s ?h)"
    unfolding run_length_def by metis
  then show ?thesis
    using assms(1) \<open>1 \<le> ?n\<close> by (auto split: option.split)
qed


text \<open>
  C12. The announced state catches up: once the readings of the last seconds, as many as the
  threshold, all say the same occupancy (and the startup delay is over), the last announcement
  made is the present reading, occupancy and distance.
\<close>

theorem poller_catches_up:
  assumes "unat (startup_delay_secs s) + change_threshold s occ \<le> length rs"
    and "\<forall>r \<in> set (drop (length rs - change_threshold s occ) rs). fst r = occ"
  shows "said (snd (poller_run s poller_init rs)) \<noteq> []
    \<and> last (said (snd (poller_run s poller_init rs))) = last rs"
proof -
  have pos: "1 \<le> change_threshold s occ" by (simp add: change_threshold_def)
  with assms(1) obtain h o' d where rs: "rev rs = (o', d) # h"
    by (metis (no_types, opaque_lifting) le_add2 le_trans length_0_conv length_rev neq_Nil_conv
        not_one_le_zero surj_pair)
  have "set (take (change_threshold s occ) (rev rs)) = set (drop (length rs - change_threshold s occ) rs)"
    by (simp add: take_rev)
  with assms(2) have all: "\<forall>r \<in> set (take (change_threshold s occ) ((o', d) # h)). fst r = occ"
    by (simp only: rs)
  with pos have "o' = occ" by (cases "change_threshold s occ") simp_all
  moreover have "length rs = Suc (length h)" using rs by (metis length_Cons length_rev)
  ultimately have "announced s (rev rs) = Some (o', d)"
    using announced_settled [of s occ h d] assms(1) all rs by simp
  moreover have "last rs = (o', d)" using rs by (metis last_rev hd_rev list.sel(1) rev_rev_ident)
  ultimately show ?thesis
    using said_last [of s rs] poller_run_announces [OF poller_matches_init, of s rs]
    by (simp add: Let_def split: if_splits)
qed

definition example_sensor_state :: ld2410s where
  "example_sensor_state = \<lparr>uart = None, gpio = True, gpio_pin = 17, uart_occupied = False,
     uart_distance = 0, startup_delay_secs = 2, hysteresis_occupied = 2, hysteresis_vacant = 3,
     poller_running = True\<rparr>"

theorem poller_catches_up_witness:
  "last (said (snd (poller_run example_sensor_state poller_init
     [(True, 1), (False, 0), (False, 0), (True, 7), (False, 0), (True, 8), (True, 9)]))) = (True, 9)"
  using poller_catches_up [of example_sensor_state True
      "[(True, 1), (False, 0), (False, 0), (True, 7), (False, 0), (True, 8), (True, 9)]"]
  by (simp add: example_sensor_state_def change_threshold_def)


section \<open>Calibration\<close>

definition calibrated :: "(main_input \<times> (int \<times> (u16 \<times> u8 list) list) option) list \<Rightarrow> int list" where
  "calibrated outs =
     map (\<lambda>(inp, a). tm_yday inp)
       (filter (\<lambda>(inp, a). case a of None \<Rightarrow> False | Some (r, tr) \<Rightarrow> r = 0) outs)"

lemma main_turn_cases:
  assumes "main_turn cfg c s inp = Some (c', s', a)"
  obtains (idle) "a = None" "c' = c"
  | (failed) r tr where "a = Some (r, tr)" "r \<noteq> 0" "c' = c"
      "(tm_hour inp = 3 \<and> tm_yday inp \<noteq> last_cal_yday c) \<or> calibration_force c"
  | (calibrated) tr where "a = Some (0, tr)"
      "c' = c\<lparr>last_cal_yday := tm_yday inp, calibration_force := False\<rparr>"
      "(tm_hour inp = 3 \<and> tm_yday inp \<noteq> last_cal_yday c) \<or> calibration_force c"
proof -
  from assms obtain s1 where "deliver_events s (rx_events inp) = Some s1"
    by (auto simp: main_turn_def split: bind_splits)
  with assms show ?thesis
    by (auto simp: main_turn_def intro: idle failed calibrated split: bind_splits if_splits)
qed

lemma main_loop_calibrates:
  assumes "main_loop cfg c s inps = Some (c', s', outs)" and "\<not> calibration_force c"
  shows "distinct_adj (last_cal_yday c # calibrated outs)
    \<and> (\<forall>(inp, a) \<in> set outs. a \<noteq> None \<longrightarrow> tm_hour inp = 3)"
  using assms
proof (induction inps arbitrary: c s outs)
  case Nil
  then show ?case by (simp add: calibrated_def)
next
  case (Cons inp inps)
  then obtain c1 s1 a rest where turn: "main_turn cfg c s inp = Some (c1, s1, a)"
    and loop: "main_loop cfg c1 s1 inps = Some (c', s', rest)" and outs: "outs = (inp, a) # rest"
    by (auto split: bind_splits)
  from turn show ?case
  proof (cases rule: main_turn_cases)
    case idle
    with Cons.IH [OF loop] Cons.prems(2) show ?thesis by (simp add: outs calibrated_def)
  next
    case (failed r tr)
    with Cons.IH [OF loop] Cons.prems(2) show ?thesis by (simp add: outs calibrated_def)
  next
    case (calibrated tr)
    with Cons.IH [OF loop] Cons.prems(2) show ?thesis by (simp add: outs calibrated_def)
  qed
qed

text \<open>
  Without a forced calibration the service calibrates only at three in the morning, and
  never twice in a row on the same day of the year, over any number of turns of its loop and
  whatever the sensor answers.
\<close>

theorem calibration_once_a_day:
  assumes "main_loop cfg c s inps = Some (c', s', outs)" and "\<not> calibration_force c"
  shows "distinct_adj (last_cal_yday c # calibrated outs)
    \<and> (\<forall>(inp, a) \<in> set outs. a \<noteq> None \<longrightarrow> tm_hour inp = 3)"
  using assms by (rule main_loop_calibrates)

definition example_config :: config where
  "example_config = the (load_config (\<lambda>_. True) (\<lambda>_. []) (\<lambda>v. v) (Some Map.empty))"

definition main_example :: "main_input list" where
  "main_example =
     [\<lparr>rx_events = [], tm_hour = 2, tm_yday = 5, cal_envs = (timeout_env, timeout_env, timeout_env)\<rparr>,
      \<lparr>rx_events = [], tm_hour = 3, tm_yday = 5, cal_envs = (timeout_env, timeout_env, timeout_env)\<rparr>,
      \<lparr>rx_events = [], tm_hour = 3, tm_yday = 5, cal_envs = (timeout_env, timeout_env, timeout_env)\<rparr>,
      \<lparr>rx_events = [], tm_hour = 3, tm_yday = 6, cal_envs = (timeout_env, timeout_env, timeout_env)\<rparr>]"

theorem calibration_once_a_day_witness:
  "\<exists>c' s' outs. main_loop example_config \<lparr>last_cal_yday = -1, calibration_force = False\<rparr>
       example_sensor_state main_example = Some (c', s', outs)
     \<and> calibrated outs = [5, 6] \<and> distinct_adj (-1 # calibrated outs)"
proof -
  let ?r = "main_loop example_config \<lparr>last_cal_yday = -1, calibration_force = False\<rparr>
       example_sensor_state main_example"
  have 1: "?r = Some (fst (the ?r), fst (snd (the ?r)), snd (snd (the ?r)))"
    by (simp add: main_example_def main_turn_def deliver_events_def example_sensor_state_def
        ld2410s_start_calibration_def)
  have 2: "calibrated (snd (snd (the ?r))) = [5, 6]"
    by (simp add: main_example_def main_turn_def deliver_events_def example_sensor_state_def
        ld2410s_start_calibration_def calibrated_def)
  from calibration_once_a_day [OF 1] 1 2 show ?thesis by (metis cal_state.select_convs)
qed

lemma vacant_tail_le: "vacant_tail rs \<le> length rs"
  using length_takeWhile_le [of _ "rev rs"] by (simp add: vacant_tail_def)

lemma foldl_on_uart_report_uart [simp, effect_simps]: "uart (foldl on_uart_report s rs) = uart s"
  by (induction rs arbitrary: s) (simp_all add: on_uart_report_def)

text \<open>
  A calibration command goes to the sensor only when at least thirty reports in a row, the
  latest included, have said that the room is vacant; any other request is refused without
  sending anything.
\<close>

theorem calibration_needs_vacant_room:
  assumes "uart s = Some u" and "last_vacancy_count u = 0" and "has_user_report_cb u"
    and "length rs < 2 ^ 32"
    and "deliver_events s (map (\<lambda>r. Report (report_frame r)) rs) = Some s1"
    and "ld2410s_start_calibration s1 trigger retention duration envs = Some (r, s2, tr)"
  shows "if vacant_tail (map report_of rs) \<ge> 30 then (CMD_ENABLE_CONFIG, [1, 0]) \<in> set tr
    else r = -1 \<and> s2 = s1 \<and> tr = []"
proof -
  let ?n = "vacant_tail (map report_of rs)"
  from assms(5) obtain u1 where u1: "uart s1 = Some u1" "last_vacancy_count u1 = of_nat ?n"
    using uart_on_report_events [OF assms(3), of rs] assms(1,2)
    by (auto simp: deliver_events_def)
  have "?n < 2 ^ 32" using vacant_tail_le [of "map report_of rs"] assms(4) by simp
  then have n: "last_vacancy_count u1 \<ge> 30 \<longleftrightarrow> ?n \<ge> 30"
    using u1(2) by (simp add: word_le_nat_alt unat_of_nat_small)
  show ?thesis
  proof (cases "?n \<ge> 30")
    case False
    with n u1 assms(6) show ?thesis
      by (simp add: ld2410s_start_calibration_def ld2410s_uart_get_vacant_reports_count_def
          VACANT_REPORTS_ROOM_EMPTY_THRESHOLD_def)
  next
    case True
    with n u1 assms(6) obtain r' u2 where
      "ld2410s_uart_start_calibration u1 trigger retention duration envs = Some (r', u2, tr)"
      by (auto simp: ld2410s_start_calibration_def ld2410s_uart_get_vacant_reports_count_def
          VACANT_REPORTS_ROOM_EMPTY_THRESHOLD_def split: bind_splits)
    then obtain x e1 e2 e3 data where
      "session_cmd (uart_session u1) CMD_CALIBRATE data None None (e1, e2, e3) = Some (x, tr)"
      by (cases envs) (auto simp: ld2410s_uart_start_calibration_def uart_cmd_def split: bind_splits)
    then have "(CMD_ENABLE_CONFIG, [1, 0]) \<in> set tr"
      by (cases rule: session_cmd_cases) simp_all
    with True show ?thesis by simp
  qed
qed

theorem calibration_needs_vacant_room_witness:
  "\<exists>s1. deliver_events (example_sensor_state\<lparr>uart := Some uart_example\<rparr>)
          (map (\<lambda>r. Report (report_frame r)) [(2, 1, 0), (0, 0, 0)]) = Some s1
     \<and> ld2410s_start_calibration s1 2 1 120 (timeout_env, timeout_env, timeout_env) = Some (-1, s1, [])"
proof -
  let ?s = "example_sensor_state\<lparr>uart := Some uart_example\<rparr>" and ?rs = "[(2, 1, 0), (0, 0, 0)]"
  let ?d = "deliver_events ?s (map (\<lambda>r. Report (report_frame r)) ?rs)"
  let ?c = "ld2410s_start_calibration (the ?d) 2 1 120 (timeout_env, timeout_env, timeout_env)"
  have 1: "?d = Some (the ?d)" by code_simp
  have 2: "?c = Some (fst (the ?c), fst (snd (the ?c)), snd (snd (the ?c)))" by code_simp
  have u: "uart ?s = Some uart_example" "last_vacancy_count uart_example = 0"
    "has_user_report_cb uart_example" "length ?rs < 2 ^ 32"
    by (simp_all add: uart_example_def ld2410s_uart_init_def session_example_def session_init_def)
  have "\<not> vacant_tail (map report_of ?rs) \<ge> 30" by code_simp
  with calibration_needs_vacant_room [OF u 1 2] 1 2 show ?thesis by metis
qed


section \<open>The sensor's parameters\<close>

lemma param_keys_in_table: "set param_keys \<subseteq> fst ` set PARAM_TABLE"
  by code_simp

definition needed_writes :: "common_params \<Rightarrow> (string \<Rightarrow> u32 option) \<Rightarrow> string list \<Rightarrow> (string \<times> u32) list" where
  "needed_writes current desired keys =
     List.map_filter (\<lambda>key. case desired key of
         None \<Rightarrow> None
       | Some v \<Rightarrow> if v = param_field current key then None else Some (key, v)) keys"

definition envs_end :: "envs \<Rightarrow> bool" where
  "envs_end envs \<longleftrightarrow> (case envs of (e1, e2, e3) \<Rightarrow> wait_ends e1 \<and> wait_ends e2 \<and> wait_ends e3)"

lemma set_param_returns:
  assumes "uart s = Some u" and "envs_end env"
  shows "\<exists>r s1 u1 tr. ld2410s_set_param s key v env = Some (r, s1, tr) \<and> uart s1 = Some u1"
proof -
  obtain e1 e2 e3 where env: "env = (e1, e2, e3)" "wait_ends e1" "wait_ends e2" "wait_ends e3"
    using assms(2) by (cases env) (auto simp: envs_end_def)
  have "\<exists>x. ld2410s_uart_set_param u key v env = Some x"
  proof (cases "find (\<lambda>(n, _). n = key) PARAM_TABLE")
    case None
    then show ?thesis by (simp add: ld2410s_uart_set_param_def)
  next
    case (Some e)
    obtain n c w where e: "e = (n, c, w)" by (cases e)
    obtain s1 x tr where
      "uart_cmd u c (write_u16_le w @ write_u32_le v) None None (e1, e2, e3) = Some (s1, x, tr)"
      using uart_cmd_returns [OF env(2-4)] by metis
    with Some e env(1) show ?thesis by (simp add: ld2410s_uart_set_param_def)
  qed
  with assms(1) show ?thesis by (auto simp: ld2410s_set_param_def)
qed

lemma apply_params_writes:
  assumes "uart s = Some u" and "\<forall>(k, e) \<in> set keys. envs_end e"
  shows "\<exists>s' ws. apply_params s current desired keys = Some (s', ws)
    \<and> map (\<lambda>(k, v, r). (k, v)) ws = needed_writes current desired (map fst keys)"
  using assms
proof (induction keys arbitrary: s u)
  case Nil
  then show ?case by (simp add: needed_writes_def List.map_filter_def)
next
  case (Cons ke keys)
  obtain key env where ke: "ke = (key, env)" by (cases ke)
  with Cons.prems have end': "envs_end env" and rest: "\<forall>(k, e) \<in> set keys. envs_end e" by simp_all
  show ?case
  proof (cases "\<exists>v. desired key = Some v \<and> v \<noteq> param_field current key")
    case False
    with Cons.IH [OF Cons.prems(1) rest] ke show ?thesis
      by (cases "desired key") (simp_all add: needed_writes_def List.map_filter_def)
  next
    case True
    then obtain v where v: "desired key = Some v" "v \<noteq> param_field current key" by blast
    obtain r s1 u1 tr where set': "ld2410s_set_param s key v env = Some (r, s1, tr)" "uart s1 = Some u1"
      using set_param_returns [OF Cons.prems(1) end'] by blast
    from Cons.IH [OF set'(2) rest] v set'(1) ke show ?thesis
      by (auto simp: needed_writes_def List.map_filter_def)
  qed
qed

text \<open>
  Applying the configuration at start makes one write per configured parameter that
  differs from what the sensor reported, in the order of the table, with the configured
  value, and no other; a failed write does not stop the ones after it.
\<close>

theorem apply_sensor_params_minimal:
  assumes "enable_uart (sensor cfg)" and "uart s = Some u" and "length env_sets = 6"
    and "\<forall>e \<in> set env_sets. envs_end e"
    and "ld2410s_get_common_params s stack env_get = Some (0, s0, Some current)"
  shows "\<exists>s' ws. apply_sensor_params s cfg (Some desired) stack env_get env_sets = Some (0, s', ws)
    \<and> map (\<lambda>(k, v, r). (k, v)) ws = needed_writes current desired param_keys"
proof -
  from assms(2,5) obtain u0 where u0: "uart s0 = Some u0"
    by (auto simp: ld2410s_get_common_params_def split: bind_splits)
  have keys: "map fst (zip param_keys env_sets) = param_keys"
    using assms(3) by (simp add: param_keys_def)
  have ends: "\<forall>(k, e) \<in> set (zip param_keys env_sets). envs_end e"
    using assms(4) by (auto dest: set_zip_rightD)
  show ?thesis
    using apply_params_writes [OF u0 ends, of current desired] assms(1,5)
    unfolding keys by (auto simp: apply_sensor_params_def)
qed

theorem apply_sensor_params_minimal_witness:
  "\<exists>s' ws. apply_sensor_params (example_sensor_state\<lparr>uart := Some uart_example\<rparr>)
       (example_config\<lparr>sensor := (sensor example_config)\<lparr>enable_uart := True\<rparr>\<rparr>)
       (Some [''nearest_gate'' \<mapsto> 0x700A, ''unmanned_delay'' \<mapsto> 30]) (replicate 24 0)
       (example_envs CMD_READ_COMMON common_read_payload)
       (replicate 6 (timeout_env, timeout_env, timeout_env)) = Some (0, s', ws)
     \<and> map (\<lambda>(k, v, r). (k, v)) ws = [(''unmanned_delay'', 30)]"
proof -
  let ?s = "example_sensor_state\<lparr>uart := Some uart_example\<rparr>"
  let ?d = "[''nearest_gate'' \<mapsto> 0x700A, ''unmanned_delay'' \<mapsto> 30] :: string \<Rightarrow> u32 option"
  let ?cfg = "example_config\<lparr>sensor := (sensor example_config)\<lparr>enable_uart := True\<rparr>\<rparr>"
  let ?g = "ld2410s_get_common_params ?s (replicate 24 0) (example_envs CMD_READ_COMMON common_read_payload)"
  have g: "?g = Some (0, fst (snd (the ?g)), Some (the (snd (snd (the ?g)))))" by code_simp
  have n: "needed_writes (the (snd (snd (the ?g)))) ?d param_keys = [(''unmanned_delay'', 30)]"
    by code_simp
  have "\<exists>s' ws. apply_sensor_params ?s ?cfg (Some ?d) (replicate 24 0)
      (example_envs CMD_READ_COMMON common_read_payload)
      (replicate 6 (timeout_env, timeout_env, timeout_env)) = Some (0, s', ws)
    \<and> map (\<lambda>(k, v, r). (k, v)) ws = needed_writes (the (snd (snd (the ?g)))) ?d param_keys"
    by (rule apply_sensor_params_minimal [OF _ _ _ _ g])
      (simp_all add: envs_end_def wait_ends_def timeout_env_def)
  then show ?thesis unfolding n .
qed

end
