(* ===== verification/Photo_Cache.thy ===== *)
theory Photo_Cache
  imports Prelude "HOL-Library.Multiset"
begin

text \<open>
  \<^verbatim>\<open>photo-provider/cache.c\<close>: the ring of photos. Positions in \<open>[head, cursor)\<close> are history,
  \<open>cursor\<close> is the photo delivered last (-1 before the first), \<open>(cursor, tail)\<close> is prefetched.
  Everything the code does under the mutex is one function here; the worker's fetch happens
  between two of them.

  Positions grow by one per photo, so the 64-bit counters are kept as \<open>int\<close> and the unsigned
  cast in \<^verbatim>\<open>slot\<close> is the identity on them. The descriptors the code closes are logged in
  \<open>closed\<close>. Writing dumps to disk is left out except for its counter.
\<close>

section \<open>State\<close>

record entry =
  entry_fd :: fd
  entry_meta :: "string option"

definition empty_entry :: entry where
  "empty_entry = \<lparr>entry_fd = -1, entry_meta = None\<rparr>"

record pp_cache =
  dump_enabled :: bool
  dump_counter :: int
  generation :: u32
  ring_buf :: "entry list"
  buf_cap :: u32
  prefetch_depth :: u32
  head :: int
  cursor :: int
  tail :: int
  shutdown :: bool
  closed :: "fd list"

record pp_cache_params =
  par_cache_depth :: u32
  par_history_depth :: u32
  par_dump_to_disk :: bool

definition slot :: "pp_cache \<Rightarrow> int \<Rightarrow> nat" where
  "slot c pos = nat pos mod unat (buf_cap c)"

section \<open>Operations\<close>

definition close_fd :: "pp_cache \<Rightarrow> fd \<Rightarrow> pp_cache" where
  "close_fd c f = c\<lparr>closed := closed c @ [f]\<rparr>"

definition entry_close :: "pp_cache \<Rightarrow> int \<Rightarrow> pp_cache" where
  "entry_close c pos =
     (let e = ring_buf c ! slot c pos;
          c1 = (if entry_fd e \<ge> 0 then close_fd c (entry_fd e) else c)
      in c1\<lparr>ring_buf := (ring_buf c1)[slot c pos := empty_entry]\<rparr>)"

definition flush_locked :: "pp_cache \<Rightarrow> pp_cache" where
  "flush_locked c = (foldl entry_close c [head c..tail c - 1])\<lparr>head := 0, tail := 0, cursor := -1\<rparr>"

definition pp_cache_invalidate :: "pp_cache \<Rightarrow> pp_cache" where
  "pp_cache_invalidate c = (let c1 = flush_locked c in c1\<lparr>generation := generation c1 + 1\<rparr>)"

definition should_fetch_locked :: "pp_cache \<Rightarrow> bool" where
  "should_fetch_locked c =
     (let ahead = tail c - cursor c - 1 in
      if ahead \<ge> uint (prefetch_depth c) then False
      else
        let occ = tail c - head c in
        if occ < uint (buf_cap c) then True
        else head c < cursor c)"

text \<open>The worker's eviction loop.\<close>

function evict :: "pp_cache \<Rightarrow> pp_cache" where
  "evict c =
     (if tail c - head c \<ge> uint (buf_cap c) \<and> head c < cursor c
      then evict ((entry_close c (head c))\<lparr>head := head c + 1\<rparr>)
      else c)"
  by auto
termination
  by (relation "measure (\<lambda>c. nat (cursor c - head c))")
    (auto simp: entry_close_def close_fd_def Let_def)

declare evict.simps [simp del]

definition dump_to_disk :: "pp_cache \<Rightarrow> pp_cache" where
  "dump_to_disk c = (if dump_enabled c then c\<lparr>dump_counter := dump_counter c + 1\<rparr> else c)"

text \<open>
  What the worker does with the result of a fetch it began in generation \<open>gen\<close>: \<open>None\<close> for a
  failed one, after which it sleeps and starts over.
\<close>

definition worker_store :: "pp_cache \<Rightarrow> u32 \<Rightarrow> entry option \<Rightarrow> pp_cache" where
  "worker_store c gen result =
     (case result of
        None \<Rightarrow> c
      | Some e \<Rightarrow>
          if gen \<noteq> generation c \<or> shutdown c then close_fd c (entry_fd e)
          else
            let c1 = evict c in
            if tail c1 - head c1 \<ge> uint (buf_cap c1) then close_fd c1 (entry_fd e)
            else
              let c2 = dump_to_disk c1 in
              c2\<lparr>ring_buf := (ring_buf c2)[slot c2 (tail c2) := e], tail := tail c2 + 1\<rparr>)"

text \<open>\<^verbatim>\<open>pp_cache_init\<close> up to the creation of the worker: \<open>None\<close> if an allocation fails.\<close>

definition pp_cache_init :: "pp_cache_params \<Rightarrow> bool \<Rightarrow> bool \<Rightarrow> pp_cache option" where
  "pp_cache_init p alloc_struct_ok alloc_buf_ok =
     (if \<not> alloc_struct_ok then None
      else
        let depth = (if par_cache_depth p \<noteq> 0 then par_cache_depth p else 1);
            cap = par_history_depth p + 1 + depth
        in if \<not> alloc_buf_ok then None
           else Some \<lparr>dump_enabled = par_dump_to_disk p, dump_counter = 0, generation = 0,
                      ring_buf = replicate (unat cap) empty_entry, buf_cap = cap,
                      prefetch_depth = depth, head = 0, cursor = -1, tail = 0,
                      shutdown = False, closed = []\<rparr>)"

text \<open>The end of the worker, after \<^verbatim>\<open>pp_cache_free\<close> has set the flag.\<close>

definition cache_shutdown :: "pp_cache \<Rightarrow> pp_cache" where
  "cache_shutdown c = flush_locked (c\<lparr>shutdown := True\<rparr>)"

text \<open>
  Delivery: the cursor moves under the mutex; \<^verbatim>\<open>dup\<close> gives the caller its own descriptor, and
  its failure is noticed after the cursor has moved.
\<close>

definition cache_next :: "pp_cache \<Rightarrow> (entry \<times> pp_cache) option" where
  "cache_next c =
     (if cursor c + 1 \<ge> tail c then None
      else let c1 = c\<lparr>cursor := cursor c + 1\<rparr> in Some (ring_buf c1 ! slot c1 (cursor c1), c1))"

definition cache_prev :: "pp_cache \<Rightarrow> (entry \<times> pp_cache) option" where
  "cache_prev c =
     (if cursor c \<le> head c then None
      else let c1 = c\<lparr>cursor := cursor c - 1\<rparr> in Some (ring_buf c1 ! slot c1 (cursor c1), c1))"

definition deliver :: "(fd \<Rightarrow> fd) \<Rightarrow> entry \<Rightarrow> (fd \<times> string option) option" where
  "deliver dup e = (if dup (entry_fd e) < 0 then None else Some (dup (entry_fd e), entry_meta e))"

definition pp_cache_pop_prev :: "(fd \<Rightarrow> fd) \<Rightarrow> pp_cache \<Rightarrow> (fd \<times> string option) option \<times> pp_cache" where
  "pp_cache_pop_prev dup c =
     (case cache_prev c of None \<Rightarrow> (None, c) | Some (e, c1) \<Rightarrow> (deliver dup e, c1))"

text \<open>
  What others do while the consumer waits for the condition variable: the worker stores
  results, a setter invalidates.
\<close>

datatype cache_op = Store u32 "entry option" | Invalidate | Next | Prev

fun cache_step :: "pp_cache \<Rightarrow> cache_op \<Rightarrow> pp_cache" where
  "cache_step c (Store gen r) = worker_store c gen r"
| "cache_step c Invalidate = pp_cache_invalidate c"
| "cache_step c Next = (case cache_next c of None \<Rightarrow> c | Some (_, c1) \<Rightarrow> c1)"
| "cache_step c Prev = (case cache_prev c of None \<Rightarrow> c | Some (_, c1) \<Rightarrow> c1)"

definition cache_run :: "pp_cache \<Rightarrow> cache_op list \<Rightarrow> pp_cache" where
  "cache_run c ops = foldl cache_step c ops"

text \<open>One return of the timed wait: what happened meanwhile, and whether it timed out.\<close>

datatype pop_result = Pop_Timeout pp_cache | Popped "(fd \<times> string option) option" pp_cache

fun pp_cache_pop :: "(fd \<Rightarrow> fd) \<Rightarrow> pp_cache \<Rightarrow> (cache_op list \<times> bool) list \<Rightarrow> pop_result option" where
  "pp_cache_pop dup c wakes =
     (case cache_next c of
        Some (e, c1) \<Rightarrow> Some (Popped (deliver dup e) c1)
      | None \<Rightarrow>
          (case wakes of
             [] \<Rightarrow> None
           | (ops, timed_out) # wakes' \<Rightarrow>
               (let c1 = cache_run c ops in
                if timed_out then Some (Pop_Timeout c1) else pp_cache_pop dup c1 wakes')))"

declare pp_cache_pop.simps [simp del]


section \<open>The ring as a list\<close>

lemma mod_add_inj:
  fixes h j k n :: nat
  assumes "j < n" and "k < n" and "(h + j) mod n = (h + k) mod n"
  shows "j = k"
proof -
  have "n dvd a - b" if "a \<ge> b" "a < n" "(h + a) mod n = (h + b) mod n" for a b
    using that mod_eq_dvd_iff_nat [of "h + b" "h + a" n] by simp
  moreover have "a = b" if "a \<ge> b" "a < n" "n dvd a - b" for a b
    using that by (metis diff_is_0_eq dvd_imp_le le_antisym less_imp_diff_less linorder_not_less not_gr_zero)
  ultimately show ?thesis
    using assms by (metis nle_le)
qed

lemma rotate_update:
  assumes "k < length xs"
  shows "(rotate h xs)[k := e] = rotate h (xs[(h + k) mod length xs := e])"
proof (rule nth_equalityI)
  fix j assume "j < length ((rotate h xs)[k := e])"
  then have j: "j < length xs" by simp
  have "(h + k) mod length xs = (h + j) mod length xs \<longleftrightarrow> k = j"
    using mod_add_inj [OF assms j] by blast
  moreover have "(h + j) mod length xs < length xs" using j by (intro mod_less_divisor) linarith
  ultimately show "(rotate h xs)[k := e] ! j = rotate h (xs[(h + k) mod length xs := e]) ! j"
    using assms j by (auto simp: nth_rotate nth_list_update)
qed simp

definition held :: "pp_cache \<Rightarrow> nat" where
  "held c = nat (tail c - head c)"

text \<open>The buffer read from the slot of \<open>head\<close> on, and the photos it holds.\<close>

definition window :: "pp_cache \<Rightarrow> entry list" where
  "window c = rotate (nat (head c)) (ring_buf c)"

definition photos :: "pp_cache \<Rightarrow> entry list" where
  "photos c = take (held c) (window c)"

definition cache_inv :: "pp_cache \<Rightarrow> bool" where
  "cache_inv c \<longleftrightarrow>
     length (ring_buf c) = unat (buf_cap c) \<and> 0 < unat (prefetch_depth c)
     \<and> unat (prefetch_depth c) < unat (buf_cap c)
     \<and> 0 \<le> head c \<and> head c \<le> tail c \<and> tail c - head c \<le> int (unat (buf_cap c))
     \<and> (cursor c = -1 \<and> head c = 0 \<or> head c \<le> cursor c \<and> cursor c < tail c)
     \<and> drop (held c) (window c) = replicate (unat (buf_cap c) - held c) empty_entry
     \<and> (\<forall>e \<in> set (photos c). 0 \<le> entry_fd e)"

lemma length_window: "length (window c) = length (ring_buf c)"
  by (simp add: window_def)

lemma held_le: "cache_inv c \<Longrightarrow> held c \<le> unat (buf_cap c)"
  by (simp add: cache_inv_def held_def nat_le_iff)

lemma length_photos: "cache_inv c \<Longrightarrow> length (photos c) = held c"
  using held_le [of c] by (simp add: photos_def length_window cache_inv_def)

lemma window_nth:
  assumes "length (ring_buf c) = unat (buf_cap c)" and "0 \<le> head c" and "k < unat (buf_cap c)"
  shows "ring_buf c ! slot c (head c + int k) = window c ! k"
  using assms by (simp add: window_def slot_def nth_rotate nat_add_distrib)

lemma window_update:
  assumes "length (ring_buf c) = unat (buf_cap c)" and "0 \<le> head c" and "k < unat (buf_cap c)"
  shows "rotate (nat (head c)) ((ring_buf c)[slot c (head c + int k) := e]) = (window c)[k := e]"
  using assms by (simp add: window_def slot_def rotate_update nat_add_distrib)

lemma entry_close_effect:
  "head (entry_close c pos) = head c" "tail (entry_close c pos) = tail c"
  "cursor (entry_close c pos) = cursor c" "buf_cap (entry_close c pos) = buf_cap c"
  "prefetch_depth (entry_close c pos) = prefetch_depth c" "generation (entry_close c pos) = generation c"
  "shutdown (entry_close c pos) = shutdown c" "dump_enabled (entry_close c pos) = dump_enabled c"
  "dump_counter (entry_close c pos) = dump_counter c"
  "ring_buf (entry_close c pos) = (ring_buf c)[slot c pos := empty_entry]"
  "closed (entry_close c pos) =
     closed c @ filter (\<lambda>f. 0 \<le> f) [entry_fd (ring_buf c ! slot c pos)]"
  by (simp_all add: entry_close_def close_fd_def Let_def)

lemmas entry_close_simps [simp, effect_simps] = entry_close_effect

lemma slot_entry_close [simp]: "slot (entry_close c pos) = slot c"
  by (simp add: slot_def fun_eq_iff)

lemma window_entry_close:
  assumes "length (ring_buf c) = unat (buf_cap c)" and "0 \<le> head c" and "k < unat (buf_cap c)"
  shows "window (entry_close c (head c + int k)) = (window c)[k := empty_entry]"
  using window_update [OF assms] by (simp add: window_def)

text \<open>Closing the first \<open>m\<close> entries.\<close>

lemma close_entries:
  assumes "length (ring_buf c) = unat (buf_cap c)" and "0 \<le> head c" and "m \<le> unat (buf_cap c)"
  shows "(let c' = foldl entry_close c (map (\<lambda>k. head c + int k) [0..<m])
          in window c' = replicate m empty_entry @ drop m (window c)
           \<and> closed c' = closed c @ filter (\<lambda>f. 0 \<le> f) (map entry_fd (take m (window c)))
           \<and> head c' = head c \<and> tail c' = tail c \<and> cursor c' = cursor c \<and> buf_cap c' = buf_cap c
           \<and> prefetch_depth c' = prefetch_depth c \<and> generation c' = generation c
           \<and> shutdown c' = shutdown c \<and> length (ring_buf c') = length (ring_buf c))"
  using assms(3)
proof (induction m)
  case 0
  then show ?case by simp
next
  case (Suc m)
  let ?c = "foldl entry_close c (map (\<lambda>k. head c + int k) [0..<m])"
  from Suc have IH: "window ?c = replicate m empty_entry @ drop m (window c)"
    "closed ?c = closed c @ filter (\<lambda>f. 0 \<le> f) (map entry_fd (take m (window c)))"
    "head ?c = head c" "tail ?c = tail c" "cursor ?c = cursor c" "buf_cap ?c = buf_cap c"
    "prefetch_depth ?c = prefetch_depth c" "generation ?c = generation c"
    "shutdown ?c = shutdown c" "length (ring_buf ?c) = length (ring_buf c)"
    by (simp_all add: Let_def)
  have m: "m < length (window c)" using Suc.prems assms(1) by (simp add: length_window)
  have ok: "length (ring_buf ?c) = unat (buf_cap ?c)" "0 \<le> head ?c" "m < unat (buf_cap ?c)"
    using IH assms(1,2) Suc.prems by simp_all
  have nth: "ring_buf ?c ! slot ?c (head c + int m) = window c ! m"
    using window_nth [OF ok] IH m by (simp add: nth_append)
  have "window (entry_close ?c (head c + int m)) = replicate (Suc m) empty_entry @ drop (Suc m) (window c)"
    using window_entry_close [OF ok] IH m
    by (simp add: list_update_append Cons_nth_drop_Suc [symmetric] replicate_append_same flip: replicate_Suc)
  moreover have "closed (entry_close ?c (head c + int m))
      = closed c @ filter (\<lambda>f. 0 \<le> f) (map entry_fd (take (Suc m) (window c)))"
    using IH m by (simp add: nth take_Suc_conv_app_nth)
  ultimately show ?case using IH by (simp add: Let_def)
qed


lemma upto_as_offsets: "a \<le> b \<Longrightarrow> [a..b - 1] = map (\<lambda>k. a + int k) [0..<nat (b - a)]"
  by (rule nth_equalityI) simp_all

lemma photo_fds_nonneg:
  assumes "\<forall>e \<in> set es. 0 \<le> entry_fd e"
  shows "filter (\<lambda>f. 0 \<le> f) (map entry_fd es) = map entry_fd es"
  using assms by (intro filter_True) simp

lemma flush_effect:
  assumes "cache_inv c"
  shows "cache_inv (flush_locked c)" and "photos (flush_locked c) = []"
    and "cursor (flush_locked c) = -1"
    and "closed (flush_locked c) = closed c @ map entry_fd (photos c)"
    and "generation (flush_locked c) = generation c" and "shutdown (flush_locked c) = shutdown c"
    and "buf_cap (flush_locked c) = buf_cap c" and "prefetch_depth (flush_locked c) = prefetch_depth c"
proof -
  let ?c = "foldl entry_close c (map (\<lambda>k. head c + int k) [0..<held c])"
  have flush: "flush_locked c = ?c\<lparr>head := 0, tail := 0, cursor := -1\<rparr>"
    using assms by (simp add: flush_locked_def held_def cache_inv_def upto_as_offsets)
  have ok: "length (ring_buf c) = unat (buf_cap c)" "0 \<le> head c" "held c \<le> unat (buf_cap c)"
    using assms held_le by (simp_all add: cache_inv_def)
  from close_entries [OF ok]
  have e: "window ?c = replicate (held c) empty_entry @ drop (held c) (window c)"
    "closed ?c = closed c @ filter (\<lambda>f. 0 \<le> f) (map entry_fd (take (held c) (window c)))"
    "buf_cap ?c = buf_cap c" "prefetch_depth ?c = prefetch_depth c" "generation ?c = generation c"
    "shutdown ?c = shutdown c" "length (ring_buf ?c) = length (ring_buf c)"
    by (simp_all add: Let_def)
  have "window ?c = replicate (unat (buf_cap c)) empty_entry"
    using e(1) assms ok(3) by (simp add: cache_inv_def flip: replicate_add)
  then have buf: "ring_buf ?c = replicate (unat (buf_cap c)) empty_entry"
    unfolding window_def
    by (intro replicate_eqI) (metis length_replicate length_rotate, metis in_set_replicate set_rotate)
  have p: "photos (flush_locked c) = []" by (simp add: flush photos_def held_def)
  show "photos (flush_locked c) = []" "cursor (flush_locked c) = -1"
    "generation (flush_locked c) = generation c" "shutdown (flush_locked c) = shutdown c"
    "buf_cap (flush_locked c) = buf_cap c" "prefetch_depth (flush_locked c) = prefetch_depth c"
    using p e by (simp_all add: flush)
  show "closed (flush_locked c) = closed c @ map entry_fd (photos c)"
    using e(2) assms photo_fds_nonneg [of "photos c"] by (simp add: flush photos_def cache_inv_def)
  show "cache_inv (flush_locked c)"
    using assms buf e p unfolding cache_inv_def
    by (simp add: flush held_def window_def)
qed

definition full :: "pp_cache \<Rightarrow> bool" where
  "full c \<longleftrightarrow> held c = unat (buf_cap c)"

lemma int_held: "cache_inv c \<Longrightarrow> int (held c) = tail c - head c"
  by (auto simp: cache_inv_def held_def)

lemma full_iff: "cache_inv c \<Longrightarrow> tail c - head c \<ge> uint (buf_cap c) \<longleftrightarrow> full c"
proof -
  assume inv: "cache_inv c"
  have "int (unat (buf_cap c)) = uint (buf_cap c)" by simp
  with int_held [OF inv] held_le [OF inv] show ?thesis unfolding full_def by linarith
qed

lemma drop_head_effect:
  fixes c :: pp_cache
  defines "c1 \<equiv> (entry_close c (head c))\<lparr>head := head c + 1\<rparr>"
  assumes inv: "cache_inv c" and "head c < cursor c"
  shows "cache_inv c1" and "photos c1 = tl (photos c)" and "photos c \<noteq> []"
    and "closed c1 = closed c @ [entry_fd (hd (photos c))]"
    and "cursor c1 = cursor c" and "head c1 = head c + 1" and "held c1 = held c - 1"
    and "generation c1 = generation c" and "shutdown c1 = shutdown c"
    and "buf_cap c1 = buf_cap c" and "prefetch_depth c1 = prefetch_depth c" and "tail c1 = tail c"
proof -
  have ok: "length (ring_buf c) = unat (buf_cap c)" "0 \<le> head c" "0 < unat (buf_cap c)"
    "head c < tail c" "0 < held c"
    using assms(2,3) by (auto simp: cache_inv_def held_def)
  then have ne: "window c \<noteq> []" by (metis length_0_conv length_window less_numeral_extra(3))
  have head_add: "entry_close c (head c) = entry_close c (head c + int 0)" by simp
  have "window c1 = rotate1 (window (entry_close c (head c)))"
    using ok(2) by (simp add: c1_def window_def nat_add_distrib rotate_def)
  also have "\<dots> = rotate1 ((window c)[0 := empty_entry])"
    unfolding head_add using window_entry_close [OF ok(1-3)] by simp
  also have "\<dots> = tl (window c) @ [empty_entry]"
    using ne by (cases "window c") simp_all
  finally have w: "window c1 = tl (window c) @ [empty_entry]" .
  show h: "held c1 = held c - 1" using ok by (simp add: c1_def held_def nat_diff_distrib')
  have le: "held c \<le> length (window c)" using held_le [OF assms(2)] ok(1) by (simp add: length_window)
  show p: "photos c1 = tl (photos c)"
    using w h ok(5) le by (simp add: photos_def take_tl)
  show pne: "photos c \<noteq> []" using ok(5) ne by (simp add: photos_def)
  have "hd (photos c) \<in> set (photos c)" using pne by simp
  with assms(2) have "0 \<le> entry_fd (hd (photos c))" by (simp add: cache_inv_def)
  moreover have "ring_buf c ! slot c (head c) = hd (photos c)"
    using window_nth [OF ok(1-3)] ne ok(5) by (simp add: photos_def hd_conv_nth)
  ultimately show "closed c1 = closed c @ [entry_fd (hd (photos c))]" by (simp add: c1_def)
  show simps: "cursor c1 = cursor c" "head c1 = head c + 1" "generation c1 = generation c"
    "shutdown c1 = shutdown c" "buf_cap c1 = buf_cap c" "prefetch_depth c1 = prefetch_depth c"
    "tail c1 = tail c"
    by (simp_all add: c1_def)
  have "drop (held c1) (window c1) = drop (held c) (window c) @ [empty_entry]"
    using w h ok(5) le by (cases "held c") (simp_all add: drop_Suc)
  also have "\<dots> = replicate (unat (buf_cap c1) - held c1) empty_entry"
    using assms(2) h ok(5) held_le [OF assms(2)] simps
    by (simp add: cache_inv_def replicate_append_same Suc_diff_le)
  finally have "drop (held c1) (window c1) = replicate (unat (buf_cap c1) - held c1) empty_entry" .
  moreover have "\<forall>e \<in> set (photos c1). 0 \<le> entry_fd e"
    using assms(2) p pne by (auto simp: cache_inv_def dest: list.set_sel(2))
  moreover have "length (ring_buf c1) = unat (buf_cap c1)" using ok(1) by (simp add: c1_def)
  ultimately show "cache_inv c1"
    using assms(2,3) simps unfolding cache_inv_def by auto
qed


section \<open>The ring as history, current photo and prefetched photos\<close>

record deck =
  past :: "entry list"
  current :: "entry option"
  ahead :: "entry list"

definition deck_of :: "pp_cache \<Rightarrow> deck" where
  "deck_of c =
     (if cursor c < 0 then \<lparr>past = [], current = None, ahead = photos c\<rparr>
      else let k = nat (cursor c - head c) in
        \<lparr>past = take k (photos c), current = Some (photos c ! k), ahead = drop (Suc k) (photos c)\<rparr>)"

definition deck_size :: "deck \<Rightarrow> nat" where
  "deck_size d = length (past d) + (if current d = None then 0 else 1) + length (ahead d)"

definition empty_deck :: deck where
  "empty_deck = \<lparr>past = [], current = None, ahead = []\<rparr>"

fun deck_next :: "deck \<Rightarrow> (entry \<times> deck) option" where
  "deck_next d =
     (case ahead d of
        [] \<Rightarrow> None
      | x # xs \<Rightarrow>
          Some (x, \<lparr>past = past d @ (case current d of None \<Rightarrow> [] | Some y \<Rightarrow> [y]),
                    current = Some x, ahead = xs\<rparr>))"

fun deck_prev :: "deck \<Rightarrow> (entry \<times> deck) option" where
  "deck_prev d =
     (if past d = [] then None
      else Some (last (past d),
             \<lparr>past = butlast (past d), current = Some (last (past d)),
              ahead = (case current d of None \<Rightarrow> [] | Some y \<Rightarrow> [y]) @ ahead d\<rparr>))"

text \<open>Adding a photo drops the oldest of the history when the deck is full, and is refused when
  there is no history to drop.\<close>

fun deck_push :: "nat \<Rightarrow> deck \<Rightarrow> entry \<Rightarrow> deck" where
  "deck_push cap d x =
     (if deck_size d < cap then d\<lparr>ahead := ahead d @ [x]\<rparr>
      else if past d \<noteq> [] then d\<lparr>past := tl (past d), ahead := ahead d @ [x]\<rparr>
      else d)"

declare deck_next.simps [simp del] deck_prev.simps [simp del]

lemma cursor_cases:
  assumes "cache_inv c"
  obtains (none) "cursor c = -1" "head c = 0" "held c = nat (tail c)" "length (photos c) = held c"
  | (some) k where "cursor c = head c + int k" "0 \<le> head c" "k < held c" "length (photos c) = held c"
      "tail c = head c + int (held c)"
proof (cases "cursor c < 0")
  case True
  with assms have "cursor c = -1" "head c = 0" by (auto simp: cache_inv_def)
  with assms length_photos show ?thesis by (intro none) (simp_all add: held_def)
next
  case False
  with assms have "head c \<le> cursor c" "cursor c < tail c" "0 \<le> head c" by (auto simp: cache_inv_def)
  with assms length_photos show ?thesis
    by (intro some [of "nat (cursor c - head c)"]) (simp_all add: held_def)
qed

lemma photos_nth:
  assumes "cache_inv c" and "k < held c"
  shows "ring_buf c ! slot c (head c + int k) = photos c ! k"
  using assms held_le [of c] window_nth [of c k] by (simp add: photos_def cache_inv_def)

lemma deck_of_cursor:
  assumes "cursor c = head c + int k" and "0 \<le> head c"
  shows "deck_of c =
    \<lparr>past = take k (photos c), current = Some (photos c ! k), ahead = drop (Suc k) (photos c)\<rparr>"
  using assms by (simp add: deck_of_def)

lemma move_cursor:
  assumes "cache_inv c" and "k < held c"
  shows "cache_inv (c\<lparr>cursor := head c + int k\<rparr>)" and "photos (c\<lparr>cursor := head c + int k\<rparr>) = photos c"
    and "deck_of (c\<lparr>cursor := head c + int k\<rparr>) =
      \<lparr>past = take k (photos c), current = Some (photos c ! k), ahead = drop (Suc k) (photos c)\<rparr>"
proof -
  have t: "head c + int k < tail c" using int_held [OF assms(1)] assms(2) by simp
  have h: "0 \<le> head c" using assms(1) by (simp add: cache_inv_def)
  show p: "photos (c\<lparr>cursor := head c + int k\<rparr>) = photos c"
    by (simp add: photos_def held_def window_def)
  show "cache_inv (c\<lparr>cursor := head c + int k\<rparr>)"
    using assms(1) t p unfolding cache_inv_def by (simp add: held_def window_def)
  show "deck_of (c\<lparr>cursor := head c + int k\<rparr>) =
      \<lparr>past = take k (photos c), current = Some (photos c ! k), ahead = drop (Suc k) (photos c)\<rparr>"
    using p deck_of_cursor [of "c\<lparr>cursor := head c + int k\<rparr>" k] h by simp
qed

lemma cache_next_deck:
  assumes "cache_inv c"
  shows "case cache_next c of
      None \<Rightarrow> deck_next (deck_of c) = None
    | Some (e, c1) \<Rightarrow> cache_inv c1 \<and> deck_next (deck_of c) = Some (e, deck_of c1) \<and> photos c1 = photos c
        \<and> closed c1 = closed c \<and> generation c1 = generation c \<and> shutdown c1 = shutdown c
        \<and> buf_cap c1 = buf_cap c"
  using assms
proof (cases rule: cursor_cases)
  case none
  show ?thesis
  proof (cases "held c = 0")
    case True
    with none assms show ?thesis by (simp add: cache_next_def deck_of_def cache_inv_def deck_next.simps)
  next
    case False
    then have 0: "0 < held c" by simp
    with none have t: "0 < tail c" by (simp add: zero_less_nat_eq)
    have n: "cache_next c = Some (photos c ! 0, c\<lparr>cursor := head c + int 0\<rparr>)"
      using none t photos_nth [OF assms 0] by (simp add: cache_next_def slot_def)
    from 0 none(4) obtain x xs where p: "photos c = x # xs" by (cases "photos c") simp_all
    have "deck_of c = \<lparr>past = [], current = None, ahead = photos c\<rparr>"
      using none(1) by (simp add: deck_of_def)
    then show ?thesis
      using n move_cursor [OF assms 0] by (simp add: p deck_next.simps)
  qed
next
  case (some k)
  note deck = deck_of_cursor [OF some(1,2)]
  show ?thesis
  proof (cases "Suc k < held c")
    case False
    with some deck show ?thesis by (simp add: cache_next_def deck_next.simps)
  next
    case True
    have n: "cache_next c = Some (photos c ! Suc k, c\<lparr>cursor := head c + int (Suc k)\<rparr>)"
      using some True photos_nth [OF assms True] by (simp add: cache_next_def slot_def algebra_simps)
    have "drop (Suc k) (photos c) = photos c ! Suc k # drop (Suc (Suc k)) (photos c)"
      using True some(4) by (simp add: Cons_nth_drop_Suc)
    then show ?thesis
      using n deck move_cursor [OF assms True] some(3,4)
      by (simp add: take_Suc_conv_app_nth deck_next.simps)
  qed
qed


lemma cache_prev_deck:
  assumes "cache_inv c"
  shows "case cache_prev c of
      None \<Rightarrow> deck_prev (deck_of c) = None
    | Some (e, c1) \<Rightarrow> cache_inv c1 \<and> deck_prev (deck_of c) = Some (e, deck_of c1) \<and> photos c1 = photos c
        \<and> closed c1 = closed c \<and> generation c1 = generation c \<and> shutdown c1 = shutdown c
        \<and> buf_cap c1 = buf_cap c"
  using assms
proof (cases rule: cursor_cases)
  case none
  then show ?thesis by (simp add: cache_prev_def deck_of_def deck_prev.simps)
next
  case (some k)
  note deck = deck_of_cursor [OF some(1,2)]
  show ?thesis
  proof (cases k)
    case 0
    with some deck show ?thesis by (simp add: cache_prev_def deck_prev.simps)
  next
    case (Suc j)
    then have j: "j < held c" using some(3) by simp
    have n: "cache_prev c = Some (photos c ! j, c\<lparr>cursor := head c + int j\<rparr>)"
      using some Suc photos_nth [OF assms j] by (simp add: cache_prev_def slot_def)
    have t: "take k (photos c) = take j (photos c) @ [photos c ! j]"
      using Suc some(3,4) by (simp add: take_Suc_conv_app_nth)
    have d: "drop (Suc j) (photos c) = photos c ! k # drop (Suc k) (photos c)"
      using Suc some(3,4) by (simp add: Cons_nth_drop_Suc)
    show ?thesis
      using n deck move_cursor [OF assms j] unfolding t by (simp add: d deck_prev.simps)
  qed
qed

lemma flush_deck: "cache_inv c \<Longrightarrow> deck_of (flush_locked c) = empty_deck"
  by (simp add: deck_of_def flush_effect empty_deck_def)

lemma evict_effect:
  assumes "cache_inv c"
  shows "evict c =
    (if full c \<and> head c < cursor c then (entry_close c (head c))\<lparr>head := head c + 1\<rparr> else c)"
proof (cases "full c \<and> head c < cursor c")
  case False
  then show ?thesis using full_iff [OF assms] by (subst evict.simps) auto
next
  case True
  let ?c = "(entry_close c (head c))\<lparr>head := head c + 1\<rparr>"
  have d: "cache_inv ?c" "held ?c = held c - 1" "buf_cap ?c = buf_cap c"
    using drop_head_effect [OF assms] True by simp_all
  have "0 < held c" using True assms by (simp add: cache_inv_def full_def)
  with True d have "\<not> full ?c" by (simp add: full_def)
  then have "evict ?c = ?c" using full_iff [OF d(1)] by (subst evict.simps) auto
  then show ?thesis using True full_iff [OF assms] by (subst evict.simps) simp
qed

lemma drop_head_deck:
  assumes inv: "cache_inv c" and "head c < cursor c"
  shows "deck_of ((entry_close c (head c))\<lparr>head := head c + 1\<rparr>) = (deck_of c)\<lparr>past := tl (past (deck_of c))\<rparr>"
    and "past (deck_of c) \<noteq> []" and "hd (past (deck_of c)) = hd (photos c)"
proof -
  let ?c = "(entry_close c (head c))\<lparr>head := head c + 1\<rparr>"
  note d = drop_head_effect [OF assms]
  from inv obtain k where k: "cursor c = head c + int k" "0 \<le> head c" "k < held c" "length (photos c) = held c"
  proof (cases rule: cursor_cases)
    case none
    with assms(2) show ?thesis by simp
  qed (use that in blast)
  with assms(2) obtain j where j: "k = Suc j" by (cases k) simp_all
  have "cursor ?c = head ?c + int j" "0 \<le> head ?c" using d(5,6) k(1,2) j by simp_all
  from deck_of_cursor [OF this] have "deck_of ?c = \<lparr>past = take j (tl (photos c)),
      current = Some (tl (photos c) ! j), ahead = drop (Suc j) (tl (photos c))\<rparr>"
    by (simp only: d(2))
  moreover have "photos c = hd (photos c) # tl (photos c)" using d(3) by simp
  ultimately show "deck_of ?c = (deck_of c)\<lparr>past := tl (past (deck_of c))\<rparr>"
    unfolding deck_of_cursor [OF k(1,2)] j
    by (metis deck.update_convs(1) deck.select_convs(1) drop_Suc_Cons list.sel(3) nth_Cons_Suc take_Suc_Cons)
  show "past (deck_of c) \<noteq> []" "hd (past (deck_of c)) = hd (photos c)"
    unfolding deck_of_cursor [OF k(1,2)] j using d(3) by (cases "photos c"; simp)+
qed

definition append_photo :: "pp_cache \<Rightarrow> entry \<Rightarrow> pp_cache" where
  "append_photo c e =
     (let c2 = dump_to_disk c
      in c2\<lparr>ring_buf := (ring_buf c2)[slot c2 (tail c2) := e], tail := tail c2 + 1\<rparr>)"

lemma append_photo_effect:
  assumes inv: "cache_inv c" and "\<not> full c" and "0 \<le> entry_fd e"
  shows "cache_inv (append_photo c e)" and "photos (append_photo c e) = photos c @ [e]"
    and "closed (append_photo c e) = closed c" and "cursor (append_photo c e) = cursor c"
    and "head (append_photo c e) = head c" and "generation (append_photo c e) = generation c"
    and "shutdown (append_photo c e) = shutdown c" and "buf_cap (append_photo c e) = buf_cap c"
    and "deck_of (append_photo c e) = (deck_of c)\<lparr>ahead := ahead (deck_of c) @ [e]\<rparr>"
proof -
  let ?c = "append_photo c e"
  have lt: "held c < unat (buf_cap c)" using assms(2) held_le [OF inv] by (simp add: full_def)
  have ok: "length (ring_buf c) = unat (buf_cap c)" "0 \<le> head c" "head c \<le> tail c"
    using inv by (simp_all add: cache_inv_def)
  have t: "tail c = head c + int (held c)" using int_held [OF inv] by simp
  show fields: "closed ?c = closed c" "cursor ?c = cursor c" "head ?c = head c"
    "generation ?c = generation c" "shutdown ?c = shutdown c" "buf_cap ?c = buf_cap c"
    by (simp_all add: append_photo_def dump_to_disk_def Let_def)
  have fields2: "prefetch_depth ?c = prefetch_depth c" "tail ?c = tail c + 1"
    "ring_buf ?c = (ring_buf c)[slot c (tail c) := e]"
    by (simp_all add: append_photo_def dump_to_disk_def Let_def slot_def)
  have h: "held ?c = Suc (held c)" using fields fields2 ok(3) by (simp add: held_def)
  have w: "window ?c = (window c)[held c := e]"
    using window_update [OF ok(1,2) lt] t fields fields2 by (simp add: window_def)
  have lw: "held c < length (window c)" using lt ok(1) by (simp add: length_window)
  show p: "photos ?c = photos c @ [e]"
    using h w lw by (simp add: photos_def take_Suc_conv_app_nth)
  have "drop (held ?c) (window ?c) = replicate (unat (buf_cap ?c) - held ?c) empty_entry"
  proof -
    have "drop (Suc (held c)) (window c) = tl (drop (held c) (window c))" by (simp add: drop_Suc drop_tl)
    also have "\<dots> = replicate (unat (buf_cap c) - Suc (held c)) empty_entry"
      using inv lt by (simp add: cache_inv_def Suc_diff_Suc [symmetric])
    finally show ?thesis using h w fields by simp
  qed
  moreover have "\<forall>x \<in> set (photos ?c). 0 \<le> entry_fd x"
    using p inv assms(3) by (auto simp: cache_inv_def)
  moreover have "tail ?c - head ?c \<le> int (unat (buf_cap ?c))"
    using t lt unfolding fields fields2 by linarith
  moreover have "head ?c \<le> tail ?c" "length (ring_buf ?c) = unat (buf_cap ?c)"
    using fields fields2 ok by simp_all
  ultimately show "cache_inv ?c"
    using inv fields fields2 unfolding cache_inv_def by auto
  from inv show "deck_of ?c = (deck_of c)\<lparr>ahead := ahead (deck_of c) @ [e]\<rparr>"
  proof (cases rule: cursor_cases)
    case none
    with p fields show ?thesis by (simp add: deck_of_def)
  next
    case (some k)
    have "cursor ?c = head ?c + int k" "0 \<le> head ?c" using some fields by simp_all
    from deck_of_cursor [OF this] deck_of_cursor [OF some(1,2)] show ?thesis
      using p some(3,4) by (simp add: nth_append)
  qed
qed


section \<open>The operations on the deck\<close>

lemma deck_size_photos: "cache_inv c \<Longrightarrow> deck_size (deck_of c) = held c"
proof (induction rule: cursor_cases)
  case none
  then show ?case by (simp add: deck_of_def deck_size_def)
next
  case (some k)
  then show ?case using deck_of_cursor [OF some(1,2)] by (simp add: deck_size_def)
qed

lemma past_iff: "cache_inv c \<Longrightarrow> past (deck_of c) \<noteq> [] \<longleftrightarrow> head c < cursor c"
proof (induction rule: cursor_cases)
  case none
  then show ?case by (simp add: deck_of_def)
next
  case (some k)
  then show ?case using deck_of_cursor [OF some(1,2)] by auto
qed

text \<open>The photos the store loses: the evicted one, or the new one.\<close>

definition store_drops :: "pp_cache \<Rightarrow> u32 \<Rightarrow> entry option \<Rightarrow> entry list" where
  "store_drops c gen result =
     (case result of
        None \<Rightarrow> []
      | Some e \<Rightarrow>
          if gen \<noteq> generation c \<or> shutdown c then [e]
          else if deck_size (deck_of c) < unat (buf_cap c) then []
          else if past (deck_of c) \<noteq> [] then [hd (past (deck_of c))]
          else [e])"

lemma worker_store_effect:
  assumes inv: "cache_inv c" and fds: "\<And>e. result = Some e \<Longrightarrow> 0 \<le> entry_fd e"
  shows "cache_inv (worker_store c gen result)"
    and "deck_of (worker_store c gen result) =
      (case result of
         None \<Rightarrow> deck_of c
       | Some e \<Rightarrow> if gen \<noteq> generation c \<or> shutdown c then deck_of c
                   else deck_push (unat (buf_cap c)) (deck_of c) e)"
    and "closed (worker_store c gen result) = closed c @ map entry_fd (store_drops c gen result)"
    and "generation (worker_store c gen result) = generation c"
    and "shutdown (worker_store c gen result) = shutdown c"
    and "buf_cap (worker_store c gen result) = buf_cap c"
    and "mset (photos (worker_store c gen result)) + mset (store_drops c gen result)
      = mset (photos c) + (case result of None \<Rightarrow> {#} | Some e \<Rightarrow> {#e#})"
proof -
  let ?w = "worker_store c gen result"
  have "cache_inv ?w \<and> deck_of ?w =
      (case result of
         None \<Rightarrow> deck_of c
       | Some e \<Rightarrow> if gen \<noteq> generation c \<or> shutdown c then deck_of c
                   else deck_push (unat (buf_cap c)) (deck_of c) e)
    \<and> closed ?w = closed c @ map entry_fd (store_drops c gen result)
    \<and> generation ?w = generation c \<and> shutdown ?w = shutdown c \<and> buf_cap ?w = buf_cap c
    \<and> mset (photos ?w) + mset (store_drops c gen result)
      = mset (photos c) + (case result of None \<Rightarrow> {#} | Some e \<Rightarrow> {#e#})"
  proof (cases result)
    case None
    with inv show ?thesis by (simp add: worker_store_def store_drops_def)
  next
    case (Some e)
    then have e: "0 \<le> entry_fd e" by (rule fds)
    have close: "cache_inv (close_fd c x)" "photos (close_fd c x) = photos c" "deck_of (close_fd c x) = deck_of c"
      for x
      using inv by (simp_all add: close_fd_def cache_inv_def photos_def held_def window_def deck_of_def)
    show ?thesis
    proof (cases "gen \<noteq> generation c \<or> shutdown c")
      case True
      with Some close show ?thesis
        by (simp add: worker_store_def store_drops_def) (simp add: close_fd_def)
    next
      case fresh: False
      have store: "?w = (let c1 = evict c in if full c1 then close_fd c1 (entry_fd e) else append_photo c1 e)"
        if "cache_inv (evict c)"
        using Some fresh full_iff [OF that] by (simp add: worker_store_def append_photo_def Let_def)
      have size: "deck_size (deck_of c) < unat (buf_cap c) \<longleftrightarrow> \<not> full c"
        using deck_size_photos [OF inv] held_le [OF inv] by (auto simp: full_def)
      consider (room) "\<not> full c" | (make_room) "full c" "head c < cursor c" | (stuck) "full c" "\<not> head c < cursor c"
        by blast
      then show ?thesis
      proof cases
        case room
        then have "evict c = c" using evict_effect [OF inv] by simp
        with store inv room have "?w = append_photo c e" by simp
        with append_photo_effect [OF inv room e] size room Some fresh show ?thesis
          by (simp add: store_drops_def)
      next
        case stuck
        then have "evict c = c" using evict_effect [OF inv] by simp
        with store inv stuck have "?w = close_fd c (entry_fd e)" by simp
        with close size stuck past_iff [OF inv] Some fresh show ?thesis
          by (simp add: store_drops_def) (simp add: close_fd_def)
      next
        case make_room
        let ?c = "(entry_close c (head c))\<lparr>head := head c + 1\<rparr>"
        note d = drop_head_effect [OF inv make_room(2)] and dd = drop_head_deck [OF inv make_room(2)]
        have "evict c = ?c" using evict_effect [OF inv] make_room by simp
        have "0 < unat (buf_cap c)" using inv by (simp add: cache_inv_def)
        then have nf: "\<not> full ?c"
          using make_room(1) d(7,10) by (simp add: full_def)
        with store d(1) \<open>evict c = ?c\<close> have w: "?w = append_photo ?c e" by simp
        note a = append_photo_effect [OF d(1) nf e]
        have "mset (photos c) = add_mset (hd (photos c)) (mset (tl (photos c)))"
          using d(3) by (metis list.collapse mset.simps(2))
        with w a d(2,4,8,9,10) dd size make_room(1) Some fresh show ?thesis
          by (simp add: store_drops_def)
      qed
    qed
  qed
  then show "cache_inv ?w" "deck_of ?w =
      (case result of
         None \<Rightarrow> deck_of c
       | Some e \<Rightarrow> if gen \<noteq> generation c \<or> shutdown c then deck_of c
                   else deck_push (unat (buf_cap c)) (deck_of c) e)"
    "closed ?w = closed c @ map entry_fd (store_drops c gen result)"
    "generation ?w = generation c" "shutdown ?w = shutdown c" "buf_cap ?w = buf_cap c"
    "mset (photos ?w) + mset (store_drops c gen result)
      = mset (photos c) + (case result of None \<Rightarrow> {#} | Some e \<Rightarrow> {#e#})"
    by blast+
qed


section \<open>The interface to the consumers\<close>

text \<open>
  A place that holds a deck and moves through it: the laws the D-Bus methods \<^verbatim>\<open>GetPhoto\<close> and
  \<^verbatim>\<open>GetPrevPhoto\<close> rely on.
\<close>

locale photo_deck =
  fixes view :: "'s \<Rightarrow> deck" and inv :: "'s \<Rightarrow> bool"
    and go_next :: "'s \<Rightarrow> (entry \<times> 's) option" and go_prev :: "'s \<Rightarrow> (entry \<times> 's) option"
  assumes next_law: "inv s \<Longrightarrow> (case go_next s of
        None \<Rightarrow> deck_next (view s) = None
      | Some (e, s1) \<Rightarrow> inv s1 \<and> deck_next (view s) = Some (e, view s1))"
    and prev_law: "inv s \<Longrightarrow> (case go_prev s of
        None \<Rightarrow> deck_prev (view s) = None
      | Some (e, s1) \<Rightarrow> inv s1 \<and> deck_prev (view s) = Some (e, view s1))"
    and past_current: "inv s \<Longrightarrow> past (view s) \<noteq> [] \<Longrightarrow> current (view s) \<noteq> None"
begin

lemma go_next_Some: "inv s \<Longrightarrow> go_next s = Some (e, s1) \<Longrightarrow> inv s1 \<and> deck_next (view s) = Some (e, view s1)"
  using next_law [of s] by simp

lemma go_prev_Some: "inv s \<Longrightarrow> go_prev s = Some (e, s1) \<Longrightarrow> inv s1 \<and> deck_prev (view s) = Some (e, view s1)"
  using prev_law [of s] by simp

lemma prev_then_next:
  assumes "inv s" and "go_prev s = Some (e, s1)"
  shows "\<exists>s2. go_next s1 = Some (the (current (view s)), s2) \<and> view s2 = view s \<and> inv s2"
proof -
  from go_prev_Some [OF assms] have i1: "inv s1" and p: "deck_prev (view s) = Some (e, view s1)" by simp_all
  from p have ne: "past (view s) \<noteq> []" by (auto simp: deck_prev.simps split: if_splits)
  with past_current [OF assms(1)] obtain y where y: "current (view s) = Some y" by blast
  from p ne y have v1: "view s1 = \<lparr>past = butlast (past (view s)), current = Some (last (past (view s))),
      ahead = y # ahead (view s)\<rparr>" by (auto simp: deck_prev.simps)
  then have n: "deck_next (view s1) = Some (y, view s)"
    using ne y by (cases "view s") (simp add: deck_next.simps)
  with next_law [OF i1] y show ?thesis by (auto split: option.splits)
qed

fun go_back :: "nat \<Rightarrow> 's \<Rightarrow> 's option" where
  "go_back 0 s = Some s"
| "go_back (Suc n) s = (case go_prev s of None \<Rightarrow> None | Some (e, s1) \<Rightarrow> go_back n s1)"

fun go_forth :: "nat \<Rightarrow> 's \<Rightarrow> 's option" where
  "go_forth 0 s = Some s"
| "go_forth (Suc n) s = (case go_forth n s of None \<Rightarrow> None | Some s1 \<Rightarrow> map_option snd (go_next s1))"

text \<open>Any number of steps back are undone by as many steps forth.\<close>

lemma back_and_forth:
  assumes "inv s" and "go_back n s = Some s1"
  shows "\<exists>s2. go_forth n s1 = Some s2 \<and> view s2 = view s \<and> inv s2"
  using assms
proof (induction n arbitrary: s)
  case 0
  then show ?case by simp
next
  case (Suc n)
  then obtain e s' where p: "go_prev s = Some (e, s')" and b: "go_back n s' = Some s1"
    by (auto split: option.splits)
  from go_prev_Some [OF Suc.prems(1) p] have "inv s'" by simp
  with Suc.IH b obtain s2 where f: "go_forth n s1 = Some s2" "view s2 = view s'" "inv s2" by blast
  from prev_then_next [OF Suc.prems(1) p] obtain s3 where
    "deck_next (view s') = Some (the (current (view s)), view s)"
    using go_next_Some [OF \<open>inv s'\<close>] by fastforce
  with next_law [OF f(3)] f(2) obtain e4 s4 where "go_next s2 = Some (e4, s4)" "view s4 = view s" "inv s4"
    by (auto split: option.splits)
  with f(1) show ?case by auto
qed

end

lemma cache_past_current:
  assumes "cache_inv c" and "past (deck_of c) \<noteq> []"
  shows "current (deck_of c) \<noteq> None"
  using assms by (auto simp: deck_of_def Let_def split: if_splits)

interpretation ring: photo_deck deck_of cache_inv cache_next cache_prev
proof unfold_locales
  fix c assume "cache_inv c"
  from cache_next_deck [OF this] show "case cache_next c of
        None \<Rightarrow> deck_next (deck_of c) = None
      | Some (e, s1) \<Rightarrow> cache_inv s1 \<and> deck_next (deck_of c) = Some (e, deck_of s1)"
    by (auto split: option.splits)
next
  fix c assume "cache_inv c"
  from cache_prev_deck [OF this] show "case cache_prev c of
        None \<Rightarrow> deck_prev (deck_of c) = None
      | Some (e, s1) \<Rightarrow> cache_inv s1 \<and> deck_prev (deck_of c) = Some (e, deck_of s1)"
    by (auto split: option.splits)
qed (rule cache_past_current)

section \<open>Runs\<close>

text \<open>The deck a sequence of operations leaves, with the generation they are in.\<close>

fun deck_step :: "nat \<Rightarrow> deck \<times> u32 \<Rightarrow> cache_op \<Rightarrow> deck \<times> u32" where
  "deck_step cap (d, g) (Store gen r) =
     (case r of None \<Rightarrow> (d, g) | Some e \<Rightarrow> (if gen = g then deck_push cap d e else d, g))"
| "deck_step cap (d, g) Invalidate = (empty_deck, g + 1)"
| "deck_step cap (d, g) Next = (case deck_next d of None \<Rightarrow> (d, g) | Some (_, d1) \<Rightarrow> (d1, g))"
| "deck_step cap (d, g) Prev = (case deck_prev d of None \<Rightarrow> (d, g) | Some (_, d1) \<Rightarrow> (d1, g))"

text \<open>
  What the consumer gets: the answers of \<^verbatim>\<open>GetPhoto\<close>, when it does not wait for the worker, and of
  \<^verbatim>\<open>GetPrevPhoto\<close> in a run, \<open>None\<close> when there is no photo to give.
\<close>

definition cache_answer :: "(fd \<Rightarrow> fd) \<Rightarrow> pp_cache \<Rightarrow> cache_op \<Rightarrow> (fd \<times> string option) option list" where
  "cache_answer dup c op =
     (case op of
        Next \<Rightarrow> (case pp_cache_pop dup c [([], True)] of Some (Popped r _) \<Rightarrow> [r] | _ \<Rightarrow> [None])
      | Prev \<Rightarrow> [fst (pp_cache_pop_prev dup c)]
      | _ \<Rightarrow> [])"

fun cache_answers :: "(fd \<Rightarrow> fd) \<Rightarrow> pp_cache \<Rightarrow> cache_op list \<Rightarrow> (fd \<times> string option) option list" where
  "cache_answers dup c [] = []"
| "cache_answers dup c (op # ops) = cache_answer dup c op @ cache_answers dup (cache_step c op) ops"

text \<open>The same of a deck: the first of the photos ahead, the last of the past.\<close>

definition deck_answer :: "(fd \<Rightarrow> fd) \<Rightarrow> deck \<Rightarrow> cache_op \<Rightarrow> (fd \<times> string option) option list" where
  "deck_answer dup d op =
     (case op of
        Next \<Rightarrow> [case ahead d of [] \<Rightarrow> None | e # _ \<Rightarrow> deliver dup e]
      | Prev \<Rightarrow> [if past d = [] then None else deliver dup (last (past d))]
      | _ \<Rightarrow> [])"

fun deck_answers :: "(fd \<Rightarrow> fd) \<Rightarrow> nat \<Rightarrow> deck \<times> u32 \<Rightarrow> cache_op list \<Rightarrow> (fd \<times> string option) option list" where
  "deck_answers dup cap dg [] = []"
| "deck_answers dup cap dg (op # ops) = deck_answer dup (fst dg) op @ deck_answers dup cap (deck_step cap dg op) ops"

lemma cache_answer_deck:
  assumes "cache_inv c"
  shows "cache_answer dup c op = deck_answer dup (deck_of c) op"
proof (cases op)
  case Next
  have "pp_cache_pop dup c [([], True)] = (case cache_next c of
      Some (e, c1) \<Rightarrow> Some (Popped (deliver dup e) c1) | None \<Rightarrow> Some (Pop_Timeout c))"
    by (subst pp_cache_pop.simps) (simp add: cache_run_def split: option.splits)
  then show ?thesis using Next cache_next_deck [OF assms]
    by (auto simp: cache_answer_def deck_answer_def deck_next.simps split: option.splits list.splits)
next
  case Prev
  then show ?thesis using cache_prev_deck [OF assms]
    by (auto simp: cache_answer_def deck_answer_def pp_cache_pop_prev_def deck_prev.simps split: option.splits if_splits)
qed (simp_all add: cache_answer_def deck_answer_def)

definition op_ok :: "cache_op \<Rightarrow> bool" where
  "op_ok op = (case op of Store _ (Some e) \<Rightarrow> 0 \<le> entry_fd e | _ \<Rightarrow> True)"

definition fetched :: "cache_op \<Rightarrow> fd list" where
  "fetched op = (case op of Store _ (Some e) \<Rightarrow> [entry_fd e] | _ \<Rightarrow> [])"

lemma generation_irrelevant [simp]:
  "photos (c\<lparr>generation := g\<rparr>) = photos c" "cache_inv (c\<lparr>generation := g\<rparr>) = cache_inv c"
  "deck_of (c\<lparr>generation := g\<rparr>) = deck_of c"
proof -
  show p: "photos (c\<lparr>generation := g\<rparr>) = photos c" by (simp add: photos_def held_def window_def)
  show "cache_inv (c\<lparr>generation := g\<rparr>) = cache_inv c"
    unfolding cache_inv_def p by (simp add: held_def window_def)
  show "deck_of (c\<lparr>generation := g\<rparr>) = deck_of c"
    unfolding deck_of_def p by simp
qed

lemma shutdown_irrelevant [simp]:
  "photos (c\<lparr>shutdown := b\<rparr>) = photos c" "cache_inv (c\<lparr>shutdown := b\<rparr>) = cache_inv c"
proof -
  show p: "photos (c\<lparr>shutdown := b\<rparr>) = photos c" by (simp add: photos_def held_def window_def)
  show "cache_inv (c\<lparr>shutdown := b\<rparr>) = cache_inv c"
    unfolding cache_inv_def p by (simp add: held_def window_def)
qed

lemma invalidate_effect:
  assumes "cache_inv c"
  shows "cache_inv (pp_cache_invalidate c)" and "deck_of (pp_cache_invalidate c) = empty_deck"
    and "photos (pp_cache_invalidate c) = []"
    and "closed (pp_cache_invalidate c) = closed c @ map entry_fd (photos c)"
    and "generation (pp_cache_invalidate c) = generation c + 1"
    and "shutdown (pp_cache_invalidate c) = shutdown c" and "buf_cap (pp_cache_invalidate c) = buf_cap c"
  using flush_effect [OF assms] flush_deck [OF assms]
  by (simp_all add: pp_cache_invalidate_def Let_def)

lemma cache_step_effect:
  assumes "cache_inv c" and "op_ok op" and "\<not> shutdown c"
  shows "cache_inv (cache_step c op) \<and> \<not> shutdown (cache_step c op)
    \<and> buf_cap (cache_step c op) = buf_cap c
    \<and> (deck_of (cache_step c op), generation (cache_step c op))
        = deck_step (unat (buf_cap c)) (deck_of c, generation c) op
    \<and> mset (closed (cache_step c op)) + image_mset entry_fd (mset (photos (cache_step c op)))
        = mset (closed c) + image_mset entry_fd (mset (photos c)) + mset (fetched op)"
proof (cases op)
  case (Store gen r)
  then have fds: "\<And>e. r = Some e \<Longrightarrow> 0 \<le> entry_fd e" using assms(2) by (simp add: op_ok_def)
  note w = worker_store_effect [OF assms(1) fds, of r gen]
  have "image_mset entry_fd (mset (photos (worker_store c gen r)) + mset (store_drops c gen r))
      = image_mset entry_fd (mset (photos c) + (case r of None \<Rightarrow> {#} | Some e \<Rightarrow> {#e#}))"
    using w(7) by simp
  with w(1-6) Store assms(3) show ?thesis
    by (cases r) (simp_all add: fetched_def add.commute)
next
  case Invalidate
  with invalidate_effect [OF assms(1)] assms(3) show ?thesis by (simp add: fetched_def)
next
  case Next
  with cache_next_deck [OF assms(1)] assms show ?thesis
    by (cases "cache_next c") (auto simp: fetched_def)
next
  case Prev
  with cache_prev_deck [OF assms(1)] assms show ?thesis
    by (cases "cache_prev c") (auto simp: fetched_def)
qed


lemma cache_run_effect:
  assumes "cache_inv c" and "\<forall>op \<in> set ops. op_ok op" and "\<not> shutdown c"
  shows "cache_inv (cache_run c ops) \<and> \<not> shutdown (cache_run c ops)
    \<and> buf_cap (cache_run c ops) = buf_cap c
    \<and> (deck_of (cache_run c ops), generation (cache_run c ops))
        = foldl (deck_step (unat (buf_cap c))) (deck_of c, generation c) ops
    \<and> mset (closed (cache_run c ops)) + image_mset entry_fd (mset (photos (cache_run c ops)))
        = mset (closed c) + image_mset entry_fd (mset (photos c)) + mset (concat (map fetched ops))"
  using assms
proof (induction ops arbitrary: c)
  case Nil
  then show ?case by (simp add: cache_run_def)
next
  case (Cons op ops)
  then have "op_ok op" by simp
  from cache_step_effect [OF Cons.prems(1) this Cons.prems(3)] Cons.IH [of "cache_step c op"] Cons.prems
  show ?case by (simp add: cache_run_def ac_simps)
qed

lemma cache_answers_deck:
  assumes "cache_inv c" "\<forall>op \<in> set ops. op_ok op" "\<not> shutdown c"
  shows "cache_answers dup c ops = deck_answers dup (unat (buf_cap c)) (deck_of c, generation c) ops"
  using assms
proof (induction ops arbitrary: c)
  case (Cons op ops)
  then have ok: "op_ok op" by simp
  note step = cache_step_effect [OF Cons.prems(1) ok Cons.prems(3)]
  then have "cache_answers dup (cache_step c op) ops
      = deck_answers dup (unat (buf_cap c)) (deck_step (unat (buf_cap c)) (deck_of c, generation c) op) ops"
    using Cons.IH [of "cache_step c op"] Cons.prems(2) by simp
  then show ?case using cache_answer_deck [OF Cons.prems(1), of dup op] by simp
qed simp

text \<open>The sizes \<^verbatim>\<open>pp_config_load\<close> can produce do not wrap the capacity.\<close>

definition params_fit :: "pp_cache_params \<Rightarrow> bool" where
  "params_fit p \<longleftrightarrow> unat (par_history_depth p) + 1 + max 1 (unat (par_cache_depth p)) < 2 ^ 32"

definition ring_size :: "pp_cache_params \<Rightarrow> nat" where
  "ring_size p = unat (par_history_depth p) + 1 + max 1 (unat (par_cache_depth p))"

lemma init_effect:
  assumes "params_fit p" and "pp_cache_init p True True = Some c"
  shows "cache_inv c" and "deck_of c = empty_deck" and "photos c = []" and "closed c = []"
    and "generation c = 0" and "\<not> shutdown c" and "unat (buf_cap c) = ring_size p"
proof -
  let ?d = "if par_cache_depth p \<noteq> 0 then par_cache_depth p else 1"
  have d: "unat ?d = max 1 (unat (par_cache_depth p))" "0 < unat ?d"
    by (auto simp: max_def unat_gt_0 Suc_le_eq unat_eq_0)
  have "unat (par_history_depth p + 1 + ?d) = ring_size p"
  proof -
    have "unat (par_history_depth p + 1) = unat (par_history_depth p) + 1"
      using assms(1) by (simp add: params_fit_def unat_word_ariths)
    then show ?thesis
      using assms(1) d by (simp add: params_fit_def ring_size_def unat_word_ariths)
  qed
  with assms(2) show cap: "unat (buf_cap c) = ring_size p"
    by (auto simp: pp_cache_init_def Let_def)
  have c: "ring_buf c = replicate (unat (buf_cap c)) empty_entry" "prefetch_depth c = ?d"
    "head c = 0" "tail c = 0" "cursor c = -1" "closed c = []" "generation c = 0" "\<not> shutdown c"
    using assms(2) by (auto simp: pp_cache_init_def Let_def)
  then show "closed c = []" "generation c = 0" "\<not> shutdown c" by simp_all
  show p: "photos c = []" using c by (simp add: photos_def held_def)
  show "deck_of c = empty_deck" using c p by (simp add: deck_of_def empty_deck_def)
  have pd: "0 < unat (prefetch_depth c)" "unat (prefetch_depth c) < unat (buf_cap c)"
    using d cap unfolding c(2) ring_size_def by linarith+
  have h: "held c = 0" "window c = ring_buf c" using c by (simp_all add: held_def window_def)
  show "cache_inv c"
    unfolding cache_inv_def h p using c(1,3-5) pd by simp
qed

text \<open>
  C13. The ring implements a deck of photos. For sizes whose sum fits 32 bits, and fetches that
  brought a descriptor: after any sequence of stored fetches, invalidations and steps of the
  consumer the ring holds exactly the history, current photo and prefetched photos that the
  same operations on three lists give, its generation is theirs, and what \<^verbatim>\<open>GetPhoto\<close> and
  \<^verbatim>\<open>GetPrevPhoto\<close> answered on the way is, one by one, what the lists give: the oldest of the photos
  stored and not yet shown, or the latest of the history, descriptor and meta data, or nothing when
  there is none or \<^verbatim>\<open>dup\<close> fails. In the lists a store comes last, drops the oldest of the history when
  the ring is full, never the current photo, and is ignored when its generation is over.
\<close>

theorem cache_refines_deck:
  assumes "params_fit p" and "pp_cache_init p True True = Some c" and "\<forall>op \<in> set ops. op_ok op"
  shows "(deck_of (cache_run c ops), generation (cache_run c ops))
           = foldl (deck_step (ring_size p)) (empty_deck, 0) ops
    \<and> cache_answers dup c ops = deck_answers dup (ring_size p) (empty_deck, 0) ops
    \<and> cache_inv (cache_run c ops)"
  using cache_run_effect [OF init_effect(1) [OF assms(1,2)] assms(3)] init_effect [OF assms(1,2)]
    cache_answers_deck [OF init_effect(1) [OF assms(1,2)] assms(3)] by simp

lemma shutdown_closes:
  assumes "cache_inv c" and "\<forall>op \<in> set ops. op_ok op" and "\<not> shutdown c"
  shows "mset (closed (cache_shutdown (cache_run c ops)))
    = mset (closed c) + image_mset entry_fd (mset (photos c)) + mset (concat (map fetched ops))"
proof -
  note run = cache_run_effect [OF assms]
  have "cache_inv ((cache_run c ops)\<lparr>shutdown := True\<rparr>)" using run by simp
  from flush_effect(4) [OF this] run show ?thesis
    by (simp add: cache_shutdown_def image_mset_union flip: mset_map)
qed

text \<open>
  C14. No descriptor is leaked and none is closed twice: when the cache has been shut down after
  any sequence of operations, the descriptors it has closed are, with multiplicity, those that
  the fetches handed to it.
\<close>

theorem cache_closes_every_fd_once:
  assumes "params_fit p" and "pp_cache_init p True True = Some c" and "\<forall>op \<in> set ops. op_ok op"
  shows "mset (closed (cache_shutdown (cache_run c ops))) = mset (concat (map fetched ops))"
  using shutdown_closes [OF init_effect(1) [OF assms(1,2)] assms(3) init_effect(6) [OF assms(1,2)]]
    init_effect(3,4) [OF assms(1,2)] by simp


text \<open>\<open>n\<close> calls of \<^verbatim>\<open>GetPrevPhoto\<close>, or of \<^verbatim>\<open>GetPhoto\<close> that do not wait, all of which deliver a photo.\<close>

fun pops_prev :: "(fd \<Rightarrow> fd) \<Rightarrow> nat \<Rightarrow> pp_cache \<Rightarrow> ((fd \<times> string option) list \<times> pp_cache) option" where
  "pops_prev dup 0 c = Some ([], c)"
| "pops_prev dup (Suc n) c =
     (case pp_cache_pop_prev dup c of
        (None, _) \<Rightarrow> None
      | (Some r, c1) \<Rightarrow> map_option (\<lambda>(rs, c2). (r # rs, c2)) (pops_prev dup n c1))"

fun pops_next :: "(fd \<Rightarrow> fd) \<Rightarrow> nat \<Rightarrow> pp_cache \<Rightarrow> ((fd \<times> string option) list \<times> pp_cache) option" where
  "pops_next dup 0 c = Some ([], c)"
| "pops_next dup (Suc n) c =
     (case pops_next dup n c of
        None \<Rightarrow> None
      | Some (rs, c1) \<Rightarrow>
          (case pp_cache_pop dup c1 [] of Some (Popped (Some r) c2) \<Rightarrow> Some (rs @ [r], c2) | _ \<Rightarrow> None))"

definition handed_out :: "(fd \<Rightarrow> fd) \<Rightarrow> entry \<Rightarrow> fd \<times> string option" where
  "handed_out dup e = (dup (entry_fd e), entry_meta e)"

lemma deliver_handed: "0 \<le> dup (entry_fd e) \<Longrightarrow> deliver dup e = Some (handed_out dup e)"
  by (simp add: deliver_def handed_out_def)

lemma prev_deck:
  assumes "cache_inv c" "pp_cache_pop_prev dup c = (Some r, c1)" "current (deck_of c) = Some y"
  shows "cache_inv c1" "past (deck_of c) \<noteq> []" "r = handed_out dup (last (past (deck_of c)))"
    and "deck_of c1 = \<lparr>past = butlast (past (deck_of c)), current = Some (last (past (deck_of c))), ahead = y # ahead (deck_of c)\<rparr>"
proof -
  obtain e where p: "cache_prev c = Some (e, c1)" "deliver dup e = Some r"
    using assms(2) by (auto simp: pp_cache_pop_prev_def split: option.splits)
  note d = ring.go_prev_Some [OF assms(1) p(1)]
  show "cache_inv c1" using d by simp
  show "past (deck_of c) \<noteq> []" using d by (auto simp: deck_prev.simps split: if_splits)
  show "r = handed_out dup (last (past (deck_of c)))" "deck_of c1 = \<lparr>past = butlast (past (deck_of c)),
      current = Some (last (past (deck_of c))), ahead = y # ahead (deck_of c)\<rparr>"
    using d p(2) assms(3) by (auto simp: deck_prev.simps deliver_def handed_out_def split: if_splits)
qed

lemma pops_back_and_forth:
  assumes "cache_inv c" "current (deck_of c) = Some y" "pops_prev dup k c = Some (rs, c1)" "\<forall>f. 0 \<le> dup' f"
  shows "k \<le> length (past (deck_of c)) \<and> rs = map (handed_out dup) (take k (rev (past (deck_of c)))) \<and>
     (\<exists>c2. pops_next dup' k c1 = Some (map (handed_out dup') (tl (rev (take k (rev (past (deck_of c)))) @ [y])), c2)
        \<and> deck_of c2 = deck_of c \<and> cache_inv c2)"
  using assms(1-3)
proof (induction k arbitrary: c y rs)
  case 0
  then show ?case by simp
next
  case (Suc k)
  from Suc.prems(3) obtain r s rs' where s: "pp_cache_pop_prev dup c = (Some r, s)" "pops_prev dup k s = Some (rs', c1)"
    and rs: "rs = r # rs'" by (auto split: prod.splits option.splits)
  note p = prev_deck [OF Suc.prems(1) s(1) Suc.prems(2)]
  let ?e = "last (past (deck_of c))"
  have "current (deck_of s) = Some ?e" using p(4) by simp
  from Suc.IH [OF p(1) this s(2)] obtain c2 where IH: "k \<le> length (past (deck_of s))"
    "rs' = map (handed_out dup) (take k (rev (past (deck_of s))))"
    "pops_next dup' k c1 = Some (map (handed_out dup') (tl (rev (take k (rev (past (deck_of s)))) @ [?e])), c2)"
    "deck_of c2 = deck_of s" "cache_inv c2" by blast
  have b: "rev (past (deck_of c)) = ?e # rev (past (deck_of s))"
    using p(2,4) by (simp add: rev_eq_Cons_iff)
  have "deck_next (deck_of c2) = Some (y, deck_of c)"
    using p(2,4) IH(4) Suc.prems(2) by (cases "deck_of c") (simp add: deck_next.simps)
  with ring.next_law [OF IH(5)] obtain c3 where n: "cache_next c2 = Some (y, c3)" "deck_of c3 = deck_of c" "cache_inv c3"
    by (auto split: option.splits)
  then have pop: "pp_cache_pop dup' c2 [] = Some (Popped (Some (handed_out dup' y)) c3)"
    using assms(4) by (subst pp_cache_pop.simps) (simp add: deliver_handed)
  have "pops_next dup' (Suc k) c1 = Some (map (handed_out dup') (tl (rev (take k (rev (past (deck_of s)))) @ [?e])
      @ [y]), c3)"
    using IH(3) pop by simp
  moreover have "tl (rev (take k (rev (past (deck_of s)))) @ [?e]) @ [y]
      = tl (rev (take (Suc k) (rev (past (deck_of c)))) @ [y])"
    unfolding b by (simp add: tl_append split: list.split)
  moreover have "rs = map (handed_out dup) (take (Suc k) (rev (past (deck_of c))))"
    unfolding b using rs IH(2) p(3) by simp
  moreover have "Suc k \<le> length (past (deck_of c))"
    using IH(1) arg_cong [OF b, of length] by simp
  ultimately show ?case using n by auto
qed

text \<open>
  C15. Going back \<open>k\<close> photos and forward again. Let a photo be shown, let \<open>k\<close> calls of \<^verbatim>\<open>GetPrevPhoto\<close>
  deliver a photo each and let \<^verbatim>\<open>dup\<close> succeed on the way back: then the history was at least \<open>k\<close> long,
  the calls delivered its last \<open>k\<close> photos, latest first, and \<open>k\<close> calls of \<^verbatim>\<open>GetPhoto\<close> with nothing stored or
  invalidated in between return at once, without waiting for the worker, deliver the photos
  after these in the order of the history, ending with the one shown at first, and leave history,
  current photo and prefetched photos as they were.
\<close>

theorem cache_prev_then_next:
  assumes "cache_inv c" and "current (deck_of c) = Some y" and "pops_prev dup k c = Some (rs, c1)"
    and "\<forall>f. 0 \<le> dup' f"
  shows "k \<le> length (past (deck_of c)) \<and> rs = map (handed_out dup) (take k (rev (past (deck_of c)))) \<and>
     (\<exists>c2. pops_next dup' k c1 = Some (map (handed_out dup') (tl (rev (take k (rev (past (deck_of c)))) @ [y])), c2)
        \<and> deck_of c2 = deck_of c)"
  using pops_back_and_forth [OF assms] by blast

text \<open>
  C29. The worker never starves a waiting consumer: whenever \<^verbatim>\<open>GetPhoto\<close> has to wait and the cache is
  not shutting down, the worker wants a photo, and the next one it fetches in the current
  generation is stored, the history making room if the ring is full, and is the one that
  \<^verbatim>\<open>GetPhoto\<close> hands out as soon as it is woken (if \<^verbatim>\<open>dup\<close> succeeds).
\<close>

theorem cache_feeds_waiting_consumer:
  assumes "cache_inv c" and "cache_next c = None" and "\<not> shutdown c" and "0 \<le> entry_fd e"
  shows "should_fetch_locked c
    \<and> (\<exists>c2. pp_cache_pop dup c [([Store (generation c) (Some e)], False)] = Some (Popped (deliver dup e) c2))"
proof
  have pd: "0 < uint (prefetch_depth c)" "uint (prefetch_depth c) < uint (buf_cap c)"
  proof -
    have "int (unat w) = uint w" for w :: u32 by simp
    from this [of "prefetch_depth c"] this [of "buf_cap c"] assms(1)
    show "0 < uint (prefetch_depth c)" "uint (prefetch_depth c) < uint (buf_cap c)"
      unfolding cache_inv_def by linarith+
  qed
  from assms(1) show "should_fetch_locked c"
  proof (cases rule: cursor_cases)
    case none
    with assms(1,2) have "tail c = 0" by (auto simp: cache_next_def cache_inv_def Let_def split: if_splits)
    with none pd show ?thesis by (simp add: should_fetch_locked_def)
  next
    case (some k)
    with assms(2) have "tail c = cursor c + 1" by (auto simp: cache_next_def Let_def split: if_splits)
    with some pd show ?thesis by (auto simp: should_fetch_locked_def Let_def)
  qed
  let ?c = "worker_store c (generation c) (Some e)"
  have fds: "\<And>x. Some e = Some x \<Longrightarrow> 0 \<le> entry_fd x" using assms(4) by simp
  note w = worker_store_effect [OF assms(1), where gen = "generation c" and result = "Some e", OF fds]
  have a: "ahead (deck_of c) = []"
    using cache_next_deck [OF assms(1)] assms(2) by (simp add: deck_next.simps split: list.splits)
  have "2 \<le> unat (buf_cap c)" using assms(1) by (simp add: cache_inv_def)
  with a have "deck_size (deck_of c) < unat (buf_cap c) \<or> past (deck_of c) \<noteq> []"
    by (auto simp: deck_size_def)
  with w(2) a assms(3) have "ahead (deck_of ?c) = [e]" by auto
  with cache_next_deck [OF w(1)] obtain c2 where n: "cache_next ?c = Some (e, c2)"
    by (auto simp: deck_next.simps split: option.splits)
  have "pp_cache_pop dup c [([Store (generation c) (Some e)], False)] = pp_cache_pop dup ?c []"
    using assms(2) by (subst pp_cache_pop.simps) (simp add: cache_run_def)
  also have "\<dots> = Some (Popped (deliver dup e) c2)"
    using n by (subst pp_cache_pop.simps) simp
  finally show "\<exists>c2. pp_cache_pop dup c [([Store (generation c) (Some e)], False)]
      = Some (Popped (deliver dup e) c2)" by blast
qed

text \<open>
  When \<^verbatim>\<open>dup\<close> fails, \<^verbatim>\<open>GetPhoto\<close> reports that no photo is available although the cursor
  has moved: the photo counts as shown, and the next call delivers the one after it.
\<close>

theorem cache_dup_failure_skips:
  assumes "cache_inv c" and "ahead (deck_of c) = x # y # rest" and "dup (entry_fd x) < 0"
  shows "\<exists>c1 c2. pp_cache_pop dup c [] = Some (Popped None c1) \<and> current (deck_of c1) = Some x
    \<and> pp_cache_pop dup' c1 [] = Some (Popped (deliver dup' y) c2)"
proof -
  obtain c1 where c1: "cache_next c = Some (x, c1)" "cache_inv c1" "deck_next (deck_of c) = Some (x, deck_of c1)"
    using cache_next_deck [OF assms(1)] assms(2) by (auto simp: deck_next.simps split: option.splits)
  then have "deck_of c1 = \<lparr>past = past (deck_of c) @ (case current (deck_of c) of None \<Rightarrow> [] | Some y \<Rightarrow> [y]),
      current = Some x, ahead = y # rest\<rparr>"
    using assms(2) by (simp add: deck_next.simps)
  then have d1: "current (deck_of c1) = Some x" "ahead (deck_of c1) = y # rest" by simp_all
  obtain c2 where "cache_next c1 = Some (y, c2)"
    using cache_next_deck [OF c1(2)] d1(2) by (auto simp: deck_next.simps split: option.splits)
  then have "pp_cache_pop dup' c1 [] = Some (Popped (deliver dup' y) c2)"
    by (subst pp_cache_pop.simps) simp
  moreover have "pp_cache_pop dup c [] = Some (Popped None c1)"
    using c1(1) assms(3) by (subst pp_cache_pop.simps) (simp add: deliver_def)
  ultimately show ?thesis using d1(1) by blast
qed

section \<open>Instances\<close>

definition photo_of :: "fd \<Rightarrow> entry" where
  "photo_of f = \<lparr>entry_fd = f, entry_meta = None\<rparr>"

definition cache_example :: pp_cache where
  "cache_example = the (pp_cache_init \<lparr>par_cache_depth = 2, par_history_depth = 1, par_dump_to_disk = False\<rparr> True True)"

definition ops_example :: "cache_op list" where
  "ops_example = [Store 0 (Some (photo_of 5)), Next, Store 0 (Some (photo_of 6)), Store 0 None,
     Store 0 (Some (photo_of 7)), Next, Store 0 (Some (photo_of 8)), Next, Store 0 (Some (photo_of 9)),
     Store 3 (Some (photo_of 10))]"

lemma ops_example_ok: "\<forall>op \<in> set ops_example. op_ok op"
  by code_simp

lemma cache_example_init:
  "params_fit \<lparr>par_cache_depth = 2, par_history_depth = 1, par_dump_to_disk = False\<rparr>"
  "pp_cache_init \<lparr>par_cache_depth = 2, par_history_depth = 1, par_dump_to_disk = False\<rparr> True True = Some cache_example"
  by (simp add: params_fit_def) (simp add: cache_example_def pp_cache_init_def Let_def)

theorem cache_refines_deck_witness:
  "deck_of (cache_run cache_example ops_example)
     = \<lparr>past = [photo_of 6], current = Some (photo_of 7), ahead = [photo_of 8, photo_of 9]\<rparr>
   \<and> cache_answers (\<lambda>f. f + 100) cache_example (ops_example @ [Prev, Prev, Next])
     = [Some (105, None), Some (106, None), Some (107, None), Some (106, None), None, Some (107, None)]"
proof -
  let ?p = "\<lparr>par_cache_depth = 2, par_history_depth = 1, par_dump_to_disk = False\<rparr>"
  have ok: "\<forall>op \<in> set (ops_example @ [Prev, Prev, Next]). op_ok op" using ops_example_ok by (auto simp: op_ok_def)
  have "foldl (deck_step (ring_size ?p)) (empty_deck, 0) ops_example
    = (\<lparr>past = [photo_of 6], current = Some (photo_of 7), ahead = [photo_of 8, photo_of 9]\<rparr>, 0)"
    by code_simp
  moreover have "deck_answers (\<lambda>f. f + 100) (ring_size ?p) (empty_deck, 0) (ops_example @ [Prev, Prev, Next])
    = [Some (105, None), Some (106, None), Some (107, None), Some (106, None), None, Some (107, None)]"
    by code_simp
  ultimately show ?thesis
    using cache_refines_deck [OF cache_example_init ops_example_ok] cache_refines_deck [OF cache_example_init ok] by simp
qed

theorem cache_closes_every_fd_once_witness:
  "mset (closed (cache_shutdown (cache_run cache_example ops_example))) = {#5, 6, 7, 8, 9, 10#}"
proof -
  have "concat (map fetched ops_example) = [5, 6, 7, 8, 9, 10]" by code_simp
  with cache_closes_every_fd_once [OF cache_example_init ops_example_ok] show ?thesis by simp
qed

definition deep_example :: pp_cache where
  "deep_example = the (pp_cache_init \<lparr>par_cache_depth = 1, par_history_depth = 2, par_dump_to_disk = False\<rparr> True True)"

definition deep_ops :: "cache_op list" where
  "deep_ops = [Store 0 (Some (photo_of 5)), Next, Store 0 (Some (photo_of 6)), Next, Store 0 (Some (photo_of 7)), Next]"

lemma deep_example_init:
  "params_fit \<lparr>par_cache_depth = 1, par_history_depth = 2, par_dump_to_disk = False\<rparr>"
  "pp_cache_init \<lparr>par_cache_depth = 1, par_history_depth = 2, par_dump_to_disk = False\<rparr> True True = Some deep_example"
  by (simp add: params_fit_def) (simp add: deep_example_def pp_cache_init_def Let_def)

lemma cache_example_run_inv: "cache_inv (cache_run cache_example ops_example)"
  using cache_run_effect [OF init_effect(1) [OF cache_example_init] ops_example_ok
      init_effect(6) [OF cache_example_init]] by simp

lemma cache_example_run_deck:
  "deck_of (cache_run cache_example ops_example)
     = \<lparr>past = [photo_of 6], current = Some (photo_of 7), ahead = [photo_of 8, photo_of 9]\<rparr>"
  by code_simp

theorem cache_prev_then_next_witness:
  "\<exists>c1 c2. pops_prev (\<lambda>f. f + 100) 2 (cache_run deep_example deep_ops) = Some ([(106, None), (105, None)], c1)
     \<and> pops_next (\<lambda>_. 42) 2 c1 = Some ([(42, None), (42, None)], c2)
     \<and> deck_of c2 = deck_of (cache_run deep_example deep_ops)"
proof -
  let ?c = "cache_run deep_example deep_ops"
  have d: "deck_of ?c = \<lparr>past = [photo_of 5, photo_of 6], current = Some (photo_of 7), ahead = []\<rparr>" by code_simp
  have inv: "cache_inv ?c"
    using cache_run_effect [OF init_effect(1) [OF deep_example_init] _ init_effect(6) [OF deep_example_init], of deep_ops]
    by (simp add: deep_ops_def op_ok_def photo_of_def)
  have "map_option fst (pops_prev (\<lambda>f. f + 100) 2 ?c) = Some [(106, None), (105, None)]" by code_simp
  then obtain c1 where 1: "pops_prev (\<lambda>f. f + 100) 2 ?c = Some ([(106, None), (105, None)], c1)" by auto
  have "current (deck_of ?c) = Some (photo_of 7)" using d by simp
  from cache_prev_then_next [OF inv this 1, of "\<lambda>_. 42"] 1 show ?thesis
    by (auto simp: d handed_out_def photo_of_def)
qed

theorem cache_feeds_waiting_consumer_witness:
  "should_fetch_locked cache_example
     \<and> (\<exists>c2. pp_cache_pop (\<lambda>f. f) cache_example [([Store 0 (Some (photo_of 3))], False)]
             = Some (Popped (Some (3, None)) c2))"
proof -
  have "cache_next cache_example = None" "\<not> shutdown cache_example" "generation cache_example = 0"
    "0 \<le> entry_fd (photo_of 3)"
    by code_simp+
  with cache_feeds_waiting_consumer [OF init_effect(1) [OF cache_example_init], of "photo_of 3" "\<lambda>f. f"]
  show ?thesis by (simp add: deliver_def photo_of_def)
qed

theorem cache_dup_failure_skips_witness:
  "\<exists>c1 c2. pp_cache_pop (\<lambda>_. -1) (cache_run cache_example ops_example) [] = Some (Popped None c1)
     \<and> current (deck_of c1) = Some (photo_of 8)
     \<and> pp_cache_pop (\<lambda>f. f) c1 [] = Some (Popped (Some (9, None)) c2)"
  using cache_dup_failure_skips [OF cache_example_run_inv, of "photo_of 8" "photo_of 9" "[]" "\<lambda>_. -1" "\<lambda>f. f"]
  by (simp add: cache_example_run_deck deliver_def photo_of_def)

end
