(* ===== verification/Www_Session.thy ===== *)
theory Www_Session
  imports Prelude "HOL-Library.Monad_Syntax"
begin

text \<open>
  \<^verbatim>\<open>photo-provider/www_session.c\<close>: the session with the photo server. It validates and keeps
  the requested size and the QR flag, registers with the server whenever one changes, and
  fetches an image and its metadata under one snapshot of the client id.

  libcurl and the server are inputs: a request either fails or gives a response body. The C
  strings are lists of characters without the terminator.
\<close>

definition IMG_MIN_SZ :: u32 where "IMG_MIN_SZ = 128"
definition IMG_MAX_SZ :: u32 where "IMG_MAX_SZ = 3840"
definition MAX_CLIENT_ID :: nat where "MAX_CLIENT_ID = 128"

record www_session =
  url_base :: string
  connect_timeout_s :: u32
  request_timeout_s :: u32
  target_w :: u32
  target_h :: u32
  embed_qr :: bool
  client_id :: string

section \<open>The response buffer\<close>

text \<open>\<open>storage\<close> is the allocated block; \<open>fill\<close> is what \<^verbatim>\<open>realloc\<close> leaves in its new part. A store
  outside the block is \<open>None\<close>, and so is a growth loop that never ends.\<close>

record mem_buf =
  storage :: "u8 list"
  mem_len :: size_t
  mem_cap :: size_t

definition mem_buf_init :: mem_buf where
  "mem_buf_init = \<lparr>storage = [], mem_len = 0, mem_cap = 0\<rparr>"

partial_function (option) grow_cap :: "size_t \<Rightarrow> size_t \<Rightarrow> size_t option" where
  "grow_cap nc need = (if nc < need then grow_cap (nc * 2) need else Some nc)"

definition write_to_mem :: "u8 \<Rightarrow> bool \<Rightarrow> mem_buf \<Rightarrow> u8 list \<Rightarrow> (nat \<times> mem_buf) option" where
  "write_to_mem fill realloc_ok b bytes = do {
     let n = (of_nat (length bytes) :: size_t);
     (ok, b1) \<leftarrow>
       (if mem_len b + n + 1 > mem_cap b
        then do {
          nc \<leftarrow> grow_cap (if mem_cap b \<noteq> 0 then mem_cap b * 2 else 4096) (mem_len b + n + 1);
          Some (if realloc_ok
                then (True, b\<lparr>storage := storage b @ replicate (unat nc - length (storage b)) fill,
                             mem_cap := nc\<rparr>)
                else (False, b))
        }
        else Some (True, b));
     if \<not> ok then Some (0, b1)
     else do {
       st \<leftarrow> write_bytes (storage b1) (unat (mem_len b1)) bytes;
       st' \<leftarrow> write_bytes st (unat (mem_len b1 + n)) [0];
       Some (length bytes, b1\<lparr>storage := st', mem_len := mem_len b1 + n\<rparr>)
     }
   }"

section \<open>Registration\<close>

definition is_space :: "char \<Rightarrow> bool" where
  "is_space ch \<longleftrightarrow> ch = CHR '' '' \<or> ch = CHR 0x0A \<or> ch = CHR 0x0D \<or> ch = CHR 0x09"

function skip_spaces :: "string \<Rightarrow> nat \<Rightarrow> nat \<Rightarrow> nat" where
  "skip_spaces d start end' =
     (if start < end' \<and> is_space (d ! start) then skip_spaces d (start + 1) end' else start)"
  by auto
termination by (relation "measure (\<lambda>(d, start, end'). end' - start)") auto

fun drop_spaces :: "string \<Rightarrow> nat \<Rightarrow> nat \<Rightarrow> nat" where
  "drop_spaces d start 0 = 0"
| "drop_spaces d start (Suc e) = (if e \<ge> start \<and> is_space (d ! e) then drop_spaces d start e else Suc e)"

declare skip_spaces.simps [simp del]

text \<open>\<^verbatim>\<open>http_register\<close> on the body of the response; \<open>out_sz\<close> is the size of the caller's array.\<close>

definition http_register :: "string option \<Rightarrow> nat \<Rightarrow> string option" where
  "http_register response out_sz =
     (case response of
        None \<Rightarrow> None
      | Some d \<Rightarrow>
          (let start = skip_spaces d 0 (length d);
               end' = drop_spaces d start (length d);
               n = end' - start
           in if n = 0 \<or> n \<ge> out_sz then None else Some (take n (drop start d))))"

section \<open>Requests\<close>

definition register_url :: "www_session \<Rightarrow> string" where
  "register_url s = url_base s @ ''/client_register''"

definition embed_qr_url :: "www_session \<Rightarrow> string \<Rightarrow> bool \<Rightarrow> string" where
  "embed_qr_url s id' v =
     url_base s @ ''/client_cfg/'' @ id' @ ''/embed_info_qr_code/'' @ (if v then ''true'' else ''false'')"

definition target_size_url :: "www_session \<Rightarrow> string \<Rightarrow> u32 \<Rightarrow> u32 \<Rightarrow> string" where
  "target_size_url s id' w h =
     url_base s @ ''/client_cfg/'' @ id' @ ''/target_size/'' @ decimal (unat w) @ ''x'' @ decimal (unat h)"

text \<open>
  What a setter does: its return code, the session it leaves, whether \<^verbatim>\<open>on_invalidate\<close> is called
  at the end, and the requests made. The results of the two pushes are ignored.
\<close>

record setter_result =
  rc :: int
  new_session :: www_session
  invalidates :: bool
  requests :: "string list"

definition reregister :: "www_session \<Rightarrow> string option \<Rightarrow> setter_result" where
  "reregister s response =
     (case http_register response MAX_CLIENT_ID of
        None \<Rightarrow> \<lparr>rc = -1, new_session = s, invalidates = False, requests = [register_url s]\<rparr>
      | Some raw \<Rightarrow>
          let new_id = c_string raw in
          \<lparr>rc = 0, new_session = s\<lparr>client_id := take (MAX_CLIENT_ID - 1) new_id\<rparr>, invalidates = True,
           requests = [register_url s, embed_qr_url s new_id (embed_qr s),
                       target_size_url s new_id (target_w s) (target_h s)]\<rparr>)"

definition unchanged :: "int \<Rightarrow> www_session \<Rightarrow> setter_result" where
  "unchanged r s = \<lparr>rc = r, new_session = s, invalidates = False, requests = []\<rparr>"

section \<open>Lifecycle and setters\<close>

definition pp_www_session_init :: "string \<Rightarrow> u32 \<Rightarrow> u32 \<Rightarrow> bool \<Rightarrow> u32 \<Rightarrow> u32 \<Rightarrow> bool \<Rightarrow> bool
    \<Rightarrow> www_session option" where
  "pp_www_session_init server_url w h qr connect_t request_t alloc_ok curl_ok =
     (if server_url = [] then None
      else if w < IMG_MIN_SZ \<or> h < IMG_MIN_SZ then None
      else if w > IMG_MAX_SZ \<or> h > IMG_MAX_SZ then None
      else if connect_t = 0 \<or> request_t = 0 then None
      else if \<not> alloc_ok then None
      else
        let base = take 255 server_url;
            base1 = (if last base = CHR ''/'' then butlast base else base)
        in if \<not> curl_ok then None
           else Some \<lparr>url_base = base1, connect_timeout_s = connect_t, request_timeout_s = request_t,
                      target_w = w, target_h = h, embed_qr = qr, client_id = []\<rparr>)"

definition pp_www_session_start :: "www_session \<Rightarrow> string option \<Rightarrow> setter_result" where
  "pp_www_session_start s response = reregister s response"

definition pp_www_session_set_target_size :: "www_session \<Rightarrow> u32 \<Rightarrow> u32 \<Rightarrow> string option \<Rightarrow> setter_result" where
  "pp_www_session_set_target_size s w h response =
     (if w < IMG_MIN_SZ \<or> h < IMG_MIN_SZ then unchanged (-1) s
      else if w > IMG_MAX_SZ \<or> h > IMG_MAX_SZ then unchanged (-1) s
      else
        let ow = target_w s; oh = target_h s;
            s1 = s\<lparr>target_w := w, target_h := h\<rparr>
        in if ow = w \<and> oh = h then unchanged 0 s1 else reregister s1 response)"

definition pp_www_session_set_embed_qr :: "www_session \<Rightarrow> bool \<Rightarrow> string option \<Rightarrow> setter_result" where
  "pp_www_session_set_embed_qr s v response =
     (let ov = embed_qr s; s1 = s\<lparr>embed_qr := v\<rparr>
      in if ov = v then unchanged 0 s1 else reregister s1 response)"

section \<open>Fetching\<close>

text \<open>The outcomes of the calls of one image fetch: the descriptor \<^verbatim>\<open>memfd_create\<close> gives, whether
  the transfer succeeded, the HTTP status, whether \<^verbatim>\<open>lseek\<close> succeeded.\<close>

record img_env =
  memfd :: fd
  transfer_ok :: bool
  http_code :: int
  rewind_ok :: bool

text \<open>The descriptor or -1, and the descriptors closed.\<close>

definition fetch_img_into_fd :: "img_env \<Rightarrow> fd \<times> fd list" where
  "fetch_img_into_fd env =
     (if memfd env < 0 then (-1, [])
      else if \<not> transfer_ok env then (-1, [memfd env])
      else if http_code env < 200 \<or> http_code env \<ge> 300 then (-1, [memfd env])
      else if \<not> rewind_ok env then (-1, [memfd env])
      else (memfd env, []))"

text \<open>The metadata request: \<open>None\<close> when it failed, otherwise the body, or nothing when no byte
  arrived.\<close>

definition fetch_meta_str :: "string option option \<Rightarrow> string option" where
  "fetch_meta_str response =
     (case response of None \<Rightarrow> None | Some None \<Rightarrow> Some [] | Some (Some body) \<Rightarrow> Some body)"

text \<open>
  \<^verbatim>\<open>pp_www_session_fetch_next\<close> after its snapshot of the id. The two requests are given the id
  they are made with, so that the answers may depend on it.
\<close>

definition fetch_with_id :: "string \<Rightarrow> (string \<Rightarrow> img_env) \<Rightarrow> (string \<Rightarrow> string option option)
    \<Rightarrow> (fd \<times> string) option \<times> fd list" where
  "fetch_with_id id' img meta =
     (case fetch_img_into_fd (img id') of (f, closed_fds) \<Rightarrow>
        if f < 0 then (None, closed_fds)
        else (Some (f, case fetch_meta_str (meta id') of None \<Rightarrow> ''{}'' | Some m \<Rightarrow> m), closed_fds))"

definition pp_www_session_fetch_next :: "www_session \<Rightarrow> (string \<Rightarrow> img_env) \<Rightarrow> (string \<Rightarrow> string option option)
    \<Rightarrow> (fd \<times> string) option \<times> fd list" where
  "pp_www_session_fetch_next s img meta =
     (if client_id s = [] then (None, []) else fetch_with_id (client_id s) img meta)"


section \<open>The response buffer holds what arrived\<close>

lemma grow_cap_ends:
  assumes "unat need \<le> 2 ^ 31" and "0 < unat nc"
  shows "\<exists>c. grow_cap nc need = Some c \<and> unat need \<le> unat c"
  using assms
proof (induction "2 ^ 31 - unat nc" arbitrary: nc rule: less_induct)
  case less
  show ?case
  proof (cases "nc < need")
    case False
    then show ?thesis by (subst grow_cap.simps) (simp add: word_less_nat_alt)
  next
    case True
    then have lt: "unat nc < 2 ^ 31" using less.prems(1) by (simp add: word_less_nat_alt)
    then have d: "unat (nc * 2) = unat nc * 2" by (simp add: unat_word_ariths)
    have "2 ^ 31 - unat (nc * 2) < 2 ^ 31 - unat nc" "0 < unat (nc * 2)"
      using lt less.prems(2) unfolding d by linarith+
    from less.hyps [OF this(1) less.prems(1) this(2)] True show ?thesis
      by (subst grow_cap.simps) simp
  qed
qed

text \<open>The block has the recorded capacity, and the bytes so far are followed by a NUL.\<close>

definition mem_terminated :: "mem_buf \<Rightarrow> u8 list \<Rightarrow> bool" where
  "mem_terminated b content \<longleftrightarrow>
     length (storage b) = unat (mem_cap b) \<and> unat (mem_len b) = length content
     \<and> take (length content) (storage b) = content
     \<and> length content < length (storage b) \<and> storage b ! length content = 0"

definition mem_ok :: "mem_buf \<Rightarrow> u8 list \<Rightarrow> bool" where
  "mem_ok b content \<longleftrightarrow> b = mem_buf_init \<and> content = [] \<or> mem_terminated b content"

lemma mem_ok_init: "mem_ok mem_buf_init []"
  by (simp add: mem_ok_def)


lemma append_terminated:
  assumes "length content + length bytes < length st" and "take (length content) st = content"
  shows "\<exists>st1 st2. write_bytes st (length content) bytes = Some st1
    \<and> write_bytes st1 (length content + length bytes) [0] = Some st2 \<and> length st2 = length st
    \<and> take (length content + length bytes) st2 = content @ bytes
    \<and> st2 ! (length content + length bytes) = 0"
proof -
  let ?n = "length content + length bytes"
  have 1: "write_bytes st (length content) bytes = Some (content @ bytes @ drop ?n st)"
    using assms by (simp add: write_bytes_fits)
  have "write_bytes (content @ bytes @ drop ?n st) ?n [0] = Some (content @ bytes @ 0 # drop (Suc ?n) st)"
    using assms(1) by (subst write_bytes_fits) (simp_all flip: append_assoc)
  moreover have "length (content @ bytes @ 0 # drop (Suc ?n) st) = length st"
    using assms(1) by simp
  moreover have "(content @ bytes @ 0 # drop (Suc ?n) st) ! ?n = 0"
    by (metis append.assoc length_append nth_append_length)
  ultimately show ?thesis using 1
    by (intro exI [of _ "content @ bytes @ drop ?n st"] exI [of _ "content @ bytes @ 0 # drop (Suc ?n) st"])
      (simp add: append_take_drop_id)
qed

lemma write_to_mem_appends:
  assumes "mem_ok b content" and "length content + length bytes + 1 \<le> 2 ^ 31"
  shows "\<exists>b'. write_to_mem fill True b bytes = Some (length bytes, b') \<and> mem_terminated b' (content @ bytes)"
proof -
  let ?n = "of_nat (length bytes) :: size_t"
  let ?need = "mem_len b + ?n + 1"
  have b: "length (storage b) = unat (mem_cap b)" "unat (mem_len b) = length content"
    "take (length content) (storage b) = content"
    using assms(1) by (auto simp: mem_ok_def mem_terminated_def mem_buf_init_def)
  have n: "unat ?n = length bytes" using assms(2) by (intro unat_of_nat_small) simp
  have sum: "unat (mem_len b + ?n) = length content + length bytes"
    using b(2) n assms(2) by (simp add: unat_word_ariths)
  then have need: "unat ?need = length content + length bytes + 1"
    using assms(2) by (simp add: unat_word_ariths)
  have finish: "\<exists>b'. write_to_mem fill True b bytes = Some (length bytes, b') \<and> mem_terminated b' (content @ bytes)"
    if g: "(if ?need > mem_cap b
            then do {
              nc \<leftarrow> grow_cap (if mem_cap b \<noteq> 0 then mem_cap b * 2 else 4096) ?need;
              Some (True, b\<lparr>storage := storage b @ replicate (unat nc - length (storage b)) fill, mem_cap := nc\<rparr>)
            }
            else Some (True, b)) = Some (True, b1)"
      and b1: "length (storage b1) = unat (mem_cap b1)" "mem_len b1 = mem_len b"
        "length content + length bytes < length (storage b1)" "take (length content) (storage b1) = content"
    for b1
  proof -
    obtain st1 st2 where st: "write_bytes (storage b1) (length content) bytes = Some st1"
      "write_bytes st1 (length content + length bytes) [0] = Some st2" "length st2 = length (storage b1)"
      "take (length content + length bytes) st2 = content @ bytes"
      "st2 ! (length content + length bytes) = 0"
      using append_terminated [OF b1(3,4)] by blast
    have "write_to_mem fill True b bytes
        = Some (length bytes, b1\<lparr>storage := st2, mem_len := mem_len b + ?n\<rparr>)"
      unfolding write_to_mem_def Let_def if_True g using st(1,2) b(2) b1(2) sum by simp
    moreover have "mem_terminated (b1\<lparr>storage := st2, mem_len := mem_len b + ?n\<rparr>) (content @ bytes)"
      using st b1 sum by (simp add: mem_terminated_def)
    ultimately show ?thesis by blast
  qed
  show ?thesis
  proof (cases "?need > mem_cap b")
    case False
    then have "length content + length bytes < length (storage b)"
      using need b(1) by (simp add: word_less_nat_alt)
    with finish [of b] False b show ?thesis by simp
  next
    case True
    let ?nc = "if mem_cap b \<noteq> 0 then mem_cap b * 2 else 4096"
    have "unat (mem_cap b) < 2 ^ 31" using True need assms(2) by (simp add: word_less_nat_alt)
    then have d: "unat (mem_cap b * 2) = unat (mem_cap b) * 2" by (simp add: unat_word_ariths)
    have "0 < unat ?nc"
    proof (cases "mem_cap b = 0")
      case False
      then have "0 < unat (mem_cap b)" by (simp add: unat_gt_0)
      with d have "0 < unat (mem_cap b * 2)" by linarith
      with False show ?thesis by (simp only: if_True simp_thms)
    qed simp
    moreover have "unat ?need \<le> 2 ^ 31" using need assms(2) by simp
    ultimately obtain c where c: "grow_cap ?nc ?need = Some c" "unat ?need \<le> unat c"
      using grow_cap_ends by blast
    let ?b = "b\<lparr>storage := storage b @ replicate (unat c - length (storage b)) fill, mem_cap := c\<rparr>"
    have "length (storage b) < unat c" using True c(2) b(1) by (simp add: word_less_nat_alt)
    moreover have "length content \<le> length (storage b)" using b(3) by (metis length_take min.cobounded1 nle_le)
    ultimately show ?thesis
      using finish [of ?b] True c b need by simp
  qed
qed

fun receive_body :: "u8 \<Rightarrow> mem_buf \<Rightarrow> u8 list list \<Rightarrow> mem_buf option" where
  "receive_body fill b [] = Some b"
| "receive_body fill b (chunk # chunks) = do {
     (n, b1) \<leftarrow> write_to_mem fill True b chunk;
     if n = length chunk then receive_body fill b1 chunks else None
   }"

lemma receive_body_terminated:
  assumes "mem_terminated b content" and "length content + length (concat chunks) + 1 \<le> 2 ^ 31"
  shows "\<exists>b'. receive_body fill b chunks = Some b' \<and> mem_terminated b' (content @ concat chunks)"
  using assms
proof (induction chunks arbitrary: b content)
  case Nil
  then show ?case by simp
next
  case (Cons chunk chunks)
  from Cons.prems(2) have "length content + length chunk + 1 \<le> 2 ^ 31" by simp
  with write_to_mem_appends [of b content chunk fill] Cons.prems(1) obtain b1 where
    b1: "write_to_mem fill True b chunk = Some (length chunk, b1)" "mem_terminated b1 (content @ chunk)"
    by (auto simp: mem_ok_def)
  from Cons.IH [OF b1(2)] Cons.prems(2) b1(1) show ?case by simp
qed

text \<open>
  A response body of less than two gigabytes is collected whole and in order, however libcurl
  cuts it into pieces: every store lies inside the allocated block, the growth loop ends, and
  the bytes are followed by a NUL.
\<close>

theorem www_body_collected:
  assumes "length (concat chunks) + 1 \<le> 2 ^ 31" and "chunks \<noteq> []"
  shows "\<exists>b. receive_body fill mem_buf_init chunks = Some b
    \<and> take (unat (mem_len b)) (storage b) = concat chunks
    \<and> unat (mem_len b) < length (storage b) \<and> storage b ! unat (mem_len b) = 0"
proof -
  obtain c cs where chunks: "chunks = c # cs" using assms(2) by (cases chunks) auto
  obtain b1 where b1: "write_to_mem fill True mem_buf_init c = Some (length c, b1)" "mem_terminated b1 c"
    using write_to_mem_appends [OF mem_ok_init, of c fill] assms(1) chunks by auto
  from receive_body_terminated [OF b1(2), of cs fill] obtain b where
    "receive_body fill b1 cs = Some b" "mem_terminated b (c @ concat cs)"
    using assms(1) chunks by auto
  with b1(1) chunks show ?thesis by (intro exI [of _ b]) (auto simp: mem_terminated_def)
qed


section \<open>Trimming\<close>

lemma skip_spaces_props:
  assumes "s \<le> e"
  shows "s \<le> skip_spaces d s e \<and> skip_spaces d s e \<le> e
    \<and> (\<forall>i. s \<le> i \<and> i < skip_spaces d s e \<longrightarrow> is_space (d ! i))
    \<and> (skip_spaces d s e < e \<longrightarrow> \<not> is_space (d ! skip_spaces d s e))"
  using assms
proof (induction d s e rule: skip_spaces.induct)
  case (1 d s e)
  show ?case
  proof (cases "s < e \<and> is_space (d ! s)")
    case False
    with "1.prems" show ?thesis by (subst (1 2 3 4 5) skip_spaces.simps) auto
  next
    case True
    then have "skip_spaces d s e = skip_spaces d (s + 1) e" by (subst skip_spaces.simps) simp
    moreover have "i = s \<or> s + 1 \<le> i" if "s \<le> i" for i using that by linarith
    ultimately show ?thesis using "1.IH" [OF True] True by (metis Suc_eq_plus1 Suc_leI Suc_leD)
  qed
qed

lemma drop_spaces_props:
  assumes "s \<le> e"
  shows "s \<le> drop_spaces d s e \<and> drop_spaces d s e \<le> e
    \<and> (\<forall>i. drop_spaces d s e \<le> i \<and> i < e \<longrightarrow> is_space (d ! i))
    \<and> (s < drop_spaces d s e \<longrightarrow> \<not> is_space (d ! (drop_spaces d s e - 1)))"
  using assms
proof (induction e)
  case (Suc e)
  show ?case
  proof (cases "e \<ge> s \<and> is_space (d ! e)")
    case True
    with Suc.IH show ?thesis by (auto simp: less_Suc_eq)
  next
    case False
    with Suc.prems show ?thesis by auto
  qed
qed simp

text \<open>The id is the body without the white space around it.\<close>

lemma http_register_trims:
  assumes "http_register (Some d) out_sz = Some id'"
  shows "\<exists>xs ys. d = xs @ id' @ ys \<and> list_all is_space xs \<and> list_all is_space ys
    \<and> id' \<noteq> [] \<and> length id' < out_sz \<and> \<not> is_space (hd id') \<and> \<not> is_space (last id')"
proof -
  define a where "a = skip_spaces d 0 (length d)"
  define z where "z = drop_spaces d a (length d)"
  have a: "a \<le> length d" "\<forall>i < a. is_space (d ! i)" "a < length d \<Longrightarrow> \<not> is_space (d ! a)"
    using skip_spaces_props [of 0 "length d" d] by (simp_all add: a_def)
  have z: "a \<le> z" "z \<le> length d" "\<forall>i. z \<le> i \<and> i < length d \<longrightarrow> is_space (d ! i)"
    "a < z \<Longrightarrow> \<not> is_space (d ! (z - 1))"
    using drop_spaces_props [OF a(1), of d] by (simp_all add: z_def)
  from assms have n: "z - a \<noteq> 0" "z - a < out_sz" and id': "id' = take (z - a) (drop a d)"
    by (auto simp: http_register_def Let_def a_def z_def split: if_splits)
  then have len: "length id' = z - a" using z(2) by simp
  have "d = take a d @ id' @ drop z d"
    using z(1) unfolding id' by (metis append_take_drop_id drop_drop le_add_diff_inverse2)
  moreover have "list_all is_space (take a d)" using a by (simp add: list_all_length)
  moreover have "list_all is_space (drop z d)" using z(2,3) by (simp add: list_all_length)
  moreover have "hd id' = d ! a" using n(1) z(2) unfolding id' by (simp add: hd_drop_conv_nth)
  moreover have "last id' = d ! (z - 1)"
  proof -
    have "id' \<noteq> []" using len n(1) by auto
    then have "last id' = id' ! (z - a - 1)" using len by (simp add: last_conv_nth)
    then show ?thesis using n(1) z(2) unfolding id' by simp
  qed
  ultimately show ?thesis
    using n len a(3) z by (intro exI [of _ "take a d"] exI [of _ "drop z d"]) auto
qed

section \<open>The setters\<close>

definition www_ok :: "www_session \<Rightarrow> bool" where
  "www_ok s \<longleftrightarrow>
     IMG_MIN_SZ \<le> target_w s \<and> target_w s \<le> IMG_MAX_SZ \<and> IMG_MIN_SZ \<le> target_h s \<and> target_h s \<le> IMG_MAX_SZ
     \<and> connect_timeout_s s \<noteq> 0 \<and> request_timeout_s s \<noteq> 0
     \<and> length (client_id s) < MAX_CLIENT_ID \<and> length (url_base s) \<le> 255"

lemma www_init_ok:
  "pp_www_session_init url w h qr ct rt a c = Some s \<Longrightarrow> www_ok s \<and> client_id s = []"
  by (auto simp: pp_www_session_init_def Let_def www_ok_def MAX_CLIENT_ID_def not_less split: if_splits)

lemma length_decimal_size: "w \<le> IMG_MAX_SZ \<Longrightarrow> length (decimal (unat w)) \<le> 4"
  using length_decimal_le [of "unat w" 3] by (simp add: IMG_MAX_SZ_def word_le_nat_alt)

lemma reregister_contract:
  assumes "www_ok s"
  shows "www_ok (new_session (reregister s response))
    \<and> (\<forall>u \<in> set (requests (reregister s response)). length u < 512)
    \<and> target_w (new_session (reregister s response)) = target_w s
    \<and> target_h (new_session (reregister s response)) = target_h s
    \<and> embed_qr (new_session (reregister s response)) = embed_qr s
    \<and> (if http_register response MAX_CLIENT_ID = None
       then rc (reregister s response) = -1 \<and> new_session (reregister s response) = s
         \<and> \<not> invalidates (reregister s response)
       else rc (reregister s response) = 0 \<and> invalidates (reregister s response)
         \<and> map_option c_string (http_register response MAX_CLIENT_ID)
             = Some (client_id (new_session (reregister s response)))
         \<and> requests (reregister s response) =
             (let t = new_session (reregister s response) in
              [register_url t, embed_qr_url t (client_id t) (embed_qr t),
               target_size_url t (client_id t) (target_w t) (target_h t)]))"
proof (cases "http_register response MAX_CLIENT_ID")
  case None
  with assms show ?thesis by (simp add: reregister_def register_url_def www_ok_def)
next
  case (Some id')
  then obtain d where "response = Some d" by (auto simp: http_register_def split: option.splits)
  with Some http_register_trims have "length id' < MAX_CLIENT_ID" by blast
  then have len: "length (c_string id') < MAX_CLIENT_ID" using length_c_string [of id'] by linarith
  have dec: "length (decimal (unat (target_w s))) \<le> 4" "length (decimal (unat (target_h s))) \<le> 4"
    using assms length_decimal_size by (simp_all add: www_ok_def)
  from assms len have url: "length (url_base s) \<le> 255" "length (c_string id') < 128"
    by (simp_all add: www_ok_def MAX_CLIENT_ID_def)
  from len have "take (MAX_CLIENT_ID - 1) (c_string id') = c_string id'" by (simp add: MAX_CLIENT_ID_def)
  with Some assms len dec url show ?thesis
    by (simp add: reregister_def www_ok_def register_url_def embed_qr_url_def target_size_url_def Let_def)
qed


text \<open>
  A change of size that the server accepts takes effect as a whole: the new session has
  exactly the requested size, an id that is the server's answer without surrounding white
  space (up to a NUL byte), and the requests made are the registration and then, under that very id, the current
  QR flag and the requested size, none of them cut by the URL buffers. Sizes out of range
  change nothing, the current size makes no request, and a failed registration keeps the old
  id and invalidates nothing.
\<close>

theorem www_set_target_size_contract:
  assumes "www_ok s" and r_def: "r = pp_www_session_set_target_size s w h response"
  shows "www_ok (new_session r) \<and> (\<forall>u \<in> set (requests r). length u < 512)
    \<and> (if w < IMG_MIN_SZ \<or> h < IMG_MIN_SZ \<or> w > IMG_MAX_SZ \<or> h > IMG_MAX_SZ
       then r = unchanged (-1) s
       else target_w (new_session r) = w \<and> target_h (new_session r) = h
         \<and> (if w = target_w s \<and> h = target_h s then r = unchanged 0 s
            else if http_register response MAX_CLIENT_ID = None
            then rc r = -1 \<and> client_id (new_session r) = client_id s \<and> \<not> invalidates r
            else rc r = 0 \<and> invalidates r
              \<and> map_option c_string (http_register response MAX_CLIENT_ID) = Some (client_id (new_session r))
              \<and> requests r =
                  (let t = new_session r; i = client_id t in
                   [register_url t, embed_qr_url t i (embed_qr s), target_size_url t i w h])))"
proof (cases "w < IMG_MIN_SZ \<or> h < IMG_MIN_SZ \<or> w > IMG_MAX_SZ \<or> h > IMG_MAX_SZ")
  case True
  with assms(1) show ?thesis
    by (auto simp: r_def pp_www_session_set_target_size_def unchanged_def)
next
  case False
  let ?s = "s\<lparr>target_w := w, target_h := h\<rparr>"
  have ok: "www_ok ?s" using assms(1) False by (simp add: www_ok_def not_less)
  show ?thesis
  proof (cases "w = target_w s \<and> h = target_h s")
    case True
    with False assms(1) show ?thesis
      by (simp add: r_def pp_www_session_set_target_size_def unchanged_def Let_def)
  next
    case changed: False
    with False have "r = reregister ?s response"
      by (auto simp: r_def pp_www_session_set_target_size_def Let_def)
    with reregister_contract [OF ok, of response] ok show ?thesis
      unfolding if_not_P [OF False] if_not_P [OF changed]
      by (cases "http_register response MAX_CLIENT_ID = None") (simp_all add: Let_def)
  qed
qed

text \<open>
  A change whose registration fails is lost for good: the setter reports the failure, but it
  has already stored the new value, so repeating the call reports success without any request,
  and the server keeps serving photos of the old size.
\<close>

theorem www_failed_change_never_retried:
  assumes "http_register response MAX_CLIENT_ID = None" and "w \<noteq> target_w s"
    and "IMG_MIN_SZ \<le> w" and "w \<le> IMG_MAX_SZ" and "IMG_MIN_SZ \<le> h" and "h \<le> IMG_MAX_SZ"
  shows "\<exists>s1. new_session (pp_www_session_set_target_size s w h response) = s1
    \<and> rc (pp_www_session_set_target_size s w h response) = -1
    \<and> pp_www_session_set_target_size s1 w h response' = unchanged 0 s1
    \<and> client_id s1 = client_id s"
  using assms by (simp add: pp_www_session_set_target_size_def reregister_def unchanged_def Let_def not_less)

definition www_example :: www_session where
  "www_example = the (pp_www_session_init ''http://p:80/'' 1024 600 True 5 60 True True)"

lemma www_example_ok: "www_ok www_example"
  by (simp add: www_example_def pp_www_session_init_def www_ok_def IMG_MIN_SZ_def IMG_MAX_SZ_def
      MAX_CLIENT_ID_def Let_def)

theorem www_body_collected_witness:
  "\<exists>b. receive_body 7 mem_buf_init [[1, 2], [], [3]] = Some b \<and> take (unat (mem_len b)) (storage b) = [1, 2, 3]"
  using www_body_collected [of "[[1, 2], [], [3]]" 7] by auto

theorem www_set_target_size_contract_witness:
  "requests (pp_www_session_set_target_size www_example 1280 720 (Some '' ab1 ''))
     = [''http://p:80/client_register'', ''http://p:80/client_cfg/ab1/embed_info_qr_code/true'',
        ''http://p:80/client_cfg/ab1/target_size/1280x720'']"
proof -
  let ?r = "pp_www_session_set_target_size www_example 1280 720 (Some '' ab1 '')"
  have 1: "http_register (Some '' ab1 '') MAX_CLIENT_ID = Some ''ab1''" "c_string ''ab1'' = ''ab1''" by code_simp+
  have A: "\<not> ((1280 :: u32) < IMG_MIN_SZ \<or> (720 :: u32) < IMG_MIN_SZ \<or> (1280 :: u32) > IMG_MAX_SZ
      \<or> (720 :: u32) > IMG_MAX_SZ)" by code_simp
  have B: "\<not> (1280 = target_w www_example \<and> 720 = target_h www_example)" by code_simp
  have "client_id (new_session ?r) = ''ab1'' \<and> requests ?r =
      (let t = new_session ?r; i = client_id t in
       [register_url t, embed_qr_url t i (embed_qr www_example), target_size_url t i 1280 720])"
    using www_set_target_size_contract [OF www_example_ok refl, of 1280 720 "Some '' ab1 ''",
        unfolded if_not_P [OF A] if_not_P [OF B]] 1 by simp
  moreover have "url_base (new_session ?r) = ''http://p:80''" "embed_qr www_example" by code_simp+
  moreover have "decimal (unat (1280 :: u32)) = ''1280''" "decimal (unat (720 :: u32)) = ''720''" by code_simp+
  ultimately show ?thesis
    by (simp add: Let_def register_url_def embed_qr_url_def target_size_url_def)
qed

theorem www_failed_change_never_retried_witness:
  "rc (pp_www_session_set_target_size www_example 1280 720 None) = -1
     \<and> pp_www_session_set_target_size (new_session (pp_www_session_set_target_size www_example 1280 720 None))
         1280 720 (Some ''ok'')
       = unchanged 0 (new_session (pp_www_session_set_target_size www_example 1280 720 None))"
proof -
  have "http_register None MAX_CLIENT_ID = None" "1280 \<noteq> target_w www_example"
    "IMG_MIN_SZ \<le> (1280 :: u32)" "(1280 :: u32) \<le> IMG_MAX_SZ" "IMG_MIN_SZ \<le> (720 :: u32)" "(720 :: u32) \<le> IMG_MAX_SZ"
    by code_simp+
  from www_failed_change_never_retried [OF this, of "Some ''ok''"] show ?thesis by blast
qed

end
