(* ===== verification/Photo_Provider.thy ===== *)
theory Photo_Provider
  imports Photo_Cache Www_Session
begin

text \<open>
  The photo provider as a whole: the worker thread of \<^verbatim>\<open>cache.c\<close> fetching through
  \<^verbatim>\<open>www_session.c\<close> while the D-Bus thread changes the configuration and takes photos
  (\<^verbatim>\<open>dbus.c\<close>, wired by \<^verbatim>\<open>main.c\<close>). Every step is what one thread does between two points
  where the other may run: the worker reads the generation under the cache mutex, then the
  client id under the id mutex, and stores the result under the cache mutex; a setter installs
  the new id under the id mutex and then invalidates the cache.

  \<open>origin\<close> is a history variable: the client id each open descriptor was fetched with. So
  is \<open>invalidations\<close>, the number of invalidations so far, of which the code's generation is
  the value modulo 2^32.
\<close>

datatype worker_pc =
    W_Idle
  | W_Generation u32 nat
  | W_Fetching u32 nat string

datatype ctrl_pc = Ctrl_Idle | Ctrl_Installed

record provider =
  ws :: www_session
  cache :: pp_cache
  worker :: worker_pc
  ctrl :: ctrl_pc
  origin :: "fd \<Rightarrow> string"
  invalidations :: nat

definition ring_fds :: "provider \<Rightarrow> fd set" where
  "ring_fds s = entry_fd ` set (photos (cache s))"

inductive provider_step :: "provider \<Rightarrow> provider \<Rightarrow> bool" where
  read_generation: "worker s = W_Idle \<Longrightarrow> should_fetch_locked (cache s) \<Longrightarrow> \<not> shutdown (cache s) \<Longrightarrow>
     provider_step s (s\<lparr>worker := W_Generation (generation (cache s)) (invalidations s)\<rparr>)"
| no_id: "worker s = W_Generation g n \<Longrightarrow> client_id (ws s) = [] \<Longrightarrow>
     provider_step s (s\<lparr>cache := worker_store (cache s) g None, worker := W_Idle\<rparr>)"
| read_id: "worker s = W_Generation g n \<Longrightarrow> client_id (ws s) \<noteq> [] \<Longrightarrow>
     provider_step s (s\<lparr>worker := W_Fetching g n (client_id (ws s))\<rparr>)"
| fetch_failed: "worker s = W_Fetching g n i \<Longrightarrow> fetch_with_id i img meta = (None, cl) \<Longrightarrow>
     provider_step s (s\<lparr>cache := worker_store (cache s) g None, worker := W_Idle\<rparr>)"
| fetch_done: "worker s = W_Fetching g n i \<Longrightarrow> fetch_with_id i img meta = (Some (f, m), cl) \<Longrightarrow>
     f \<notin> ring_fds s \<Longrightarrow>
     provider_step s
       (s\<lparr>cache := worker_store (cache s) g (Some \<lparr>entry_fd = f, entry_meta = Some m\<rparr>),
          worker := W_Idle, origin := (origin s)(f := i)\<rparr>)"
| set_size: "ctrl s = Ctrl_Idle \<Longrightarrow>
     provider_step s
       (let r = pp_www_session_set_target_size (ws s) w h response
        in s\<lparr>ws := new_session r, ctrl := (if invalidates r then Ctrl_Installed else Ctrl_Idle)\<rparr>)"
| set_qr: "ctrl s = Ctrl_Idle \<Longrightarrow>
     provider_step s
       (let r = pp_www_session_set_embed_qr (ws s) v response
        in s\<lparr>ws := new_session r, ctrl := (if invalidates r then Ctrl_Installed else Ctrl_Idle)\<rparr>)"
| start_session: "ctrl s = Ctrl_Idle \<Longrightarrow>
     provider_step s
       (let r = pp_www_session_start (ws s) response
        in s\<lparr>ws := new_session r, ctrl := (if invalidates r then Ctrl_Installed else Ctrl_Idle)\<rparr>)"
| invalidate: "ctrl s = Ctrl_Installed \<Longrightarrow>
     provider_step s (s\<lparr>cache := pp_cache_invalidate (cache s), ctrl := Ctrl_Idle,
                        invalidations := invalidations s + 1\<rparr>)"
| get_photo: "ctrl s = Ctrl_Idle \<Longrightarrow> cache_next (cache s) = Some (e, c) \<Longrightarrow> provider_step s (s\<lparr>cache := c\<rparr>)"
| get_prev_photo: "ctrl s = Ctrl_Idle \<Longrightarrow> cache_prev (cache s) = Some (e, c) \<Longrightarrow> provider_step s (s\<lparr>cache := c\<rparr>)"

inductive_cases provider_stepE [elim]: "provider_step s t"

definition provider_init :: "www_session \<Rightarrow> pp_cache \<Rightarrow> provider" where
  "provider_init w c = \<lparr>ws = w, cache = c, worker = W_Idle, ctrl = Ctrl_Idle, origin = (\<lambda>_. []), invalidations = 0\<rparr>"

inductive provider_reachable :: "pp_cache_params \<Rightarrow> provider \<Rightarrow> bool" for p where
  init: "params_fit p \<Longrightarrow> pp_cache_init p True True = Some c \<Longrightarrow> client_id w = [] \<Longrightarrow>
     provider_reachable p (provider_init w c)"
| step: "provider_reachable p s \<Longrightarrow> provider_step s t \<Longrightarrow> provider_reachable p t"

section \<open>The invariant\<close>

definition worker_ok :: "provider \<Rightarrow> bool" where
  "worker_ok s \<longleftrightarrow>
     (case worker s of
        W_Idle \<Rightarrow> True
      | W_Generation g n \<Rightarrow> g = of_nat n \<and> n \<le> invalidations s
      | W_Fetching g n i \<Rightarrow> g = of_nat n \<and> n \<le> invalidations s
          \<and> (ctrl s = Ctrl_Idle \<and> n = invalidations s \<longrightarrow> i = client_id (ws s)))"

definition provider_inv :: "provider \<Rightarrow> bool" where
  "provider_inv s \<longleftrightarrow>
     cache_inv (cache s) \<and> \<not> shutdown (cache s) \<and> generation (cache s) = of_nat (invalidations s)
     \<and> worker_ok s
     \<and> (ctrl s = Ctrl_Idle \<longrightarrow> (\<forall>f \<in> ring_fds s. origin s f = client_id (ws s)))"


lemma store_photos:
  assumes "cache_inv c" and "0 \<le> entry_fd e"
  shows "set (photos (worker_store c g (Some e))) \<subseteq> set (photos c) \<union> {e}"
    and "g \<noteq> generation c \<Longrightarrow> set (photos (worker_store c g (Some e))) = set (photos c)"
proof -
  have fds: "\<And>x. Some e = Some x \<Longrightarrow> 0 \<le> entry_fd x" using assms(2) by simp
  note m = worker_store_effect(7) [OF assms(1), where gen = g and result = "Some e", OF fds]
  then have "set_mset (mset (photos (worker_store c g (Some e)))) \<subseteq> set_mset (mset (photos c) + {#e#})"
    by (metis mset_subset_eq_add_left option.simps(5) set_mset_mono)
  then show "set (photos (worker_store c g (Some e))) \<subseteq> set (photos c) \<union> {e}" by auto
  show "set (photos (worker_store c g (Some e))) = set (photos c)" if "g \<noteq> generation c"
    using m that by (simp add: store_drops_def) (metis set_mset_mset)
qed

lemma setter_keeps_id:
  "\<not> invalidates (pp_www_session_set_target_size s w h response) \<Longrightarrow>
     client_id (new_session (pp_www_session_set_target_size s w h response)) = client_id s"
  "\<not> invalidates (pp_www_session_set_embed_qr s v response) \<Longrightarrow>
     client_id (new_session (pp_www_session_set_embed_qr s v response)) = client_id s"
  "\<not> invalidates (pp_www_session_start s response) \<Longrightarrow>
     client_id (new_session (pp_www_session_start s response)) = client_id s"
  by (auto simp: pp_www_session_set_target_size_def pp_www_session_set_embed_qr_def
      pp_www_session_start_def reregister_def unchanged_def Let_def split: option.splits)

lemma fetched_fd_nonneg: "fetch_with_id i img meta = (Some (f, m), cl) \<Longrightarrow> 0 \<le> f"
  by (auto simp: fetch_with_id_def split: prod.splits if_splits)

lemma ctrl_step_inv:
  assumes "provider_inv s" and "ctrl s = Ctrl_Idle"
    and "\<not> invalidates r \<Longrightarrow> client_id (new_session r) = client_id (ws s)"
  shows "provider_inv (s\<lparr>ws := new_session r, ctrl := (if invalidates r then Ctrl_Installed else Ctrl_Idle)\<rparr>)"
  using assms by (auto simp: provider_inv_def worker_ok_def ring_fds_def split: worker_pc.splits)

lemma provider_step_mono: "provider_step s t \<Longrightarrow> invalidations s \<le> invalidations t"
  by (erule provider_stepE) (simp_all add: Let_def)

lemma provider_step_inv:
  assumes "provider_step s t" and inv: "provider_inv s" and bound: "invalidations t < 2 ^ 32"
  shows "provider_inv t"
  using assms(1)
proof cases
  case read_generation
  with inv show ?thesis by (simp add: provider_inv_def worker_ok_def ring_fds_def)
next
  case (no_id g n)
  with inv show ?thesis by (simp add: provider_inv_def worker_ok_def ring_fds_def worker_store_def)
next
  case (read_id g n)
  with inv show ?thesis by (simp add: provider_inv_def worker_ok_def ring_fds_def)
next
  case (fetch_failed g n i img meta cl)
  with inv show ?thesis by (simp add: provider_inv_def worker_ok_def ring_fds_def worker_store_def)
next
  case (fetch_done g n i img meta f m cl)
  let ?e = "\<lparr>entry_fd = f, entry_meta = Some m\<rparr>"
  let ?c = "worker_store (cache s) g (Some ?e)"
  from inv have c: "cache_inv (cache s)" "\<not> shutdown (cache s)" "generation (cache s) = of_nat (invalidations s)"
    by (simp_all add: provider_inv_def)
  have e: "0 \<le> entry_fd ?e" using fetched_fd_nonneg [OF fetch_done(3)] by simp
  have fds: "\<And>x. Some ?e = Some x \<Longrightarrow> 0 \<le> entry_fd x" using e by simp
  note w = worker_store_effect [OF c(1), where gen = g and result = "Some ?e", OF fds]
  from inv fetch_done(2) have g: "g = of_nat n" "n \<le> invalidations s"
    "ctrl s = Ctrl_Idle \<Longrightarrow> n = invalidations s \<Longrightarrow> i = client_id (ws s)"
    by (simp_all add: provider_inv_def worker_ok_def)
  have "((origin s)(f := i)) x = client_id (ws s)"
    if idle: "ctrl s = Ctrl_Idle" and x: "x \<in> entry_fd ` set (photos ?c)" for x
  proof (cases "x \<in> ring_fds s")
    case True
    with inv idle fetch_done(4) show ?thesis by (auto simp: provider_inv_def)
  next
    case False
    with x store_photos(1) [OF c(1) e, of g] have "x = f" by (auto simp: ring_fds_def)
    moreover have "g = generation (cache s)"
      using store_photos(2) [OF c(1) e, of g] x False by (auto simp: ring_fds_def)
    then have "unat (of_nat n :: u32) = unat (of_nat (invalidations s) :: u32)"
      using g(1) c(3) by simp
    then have "n = invalidations s"
      using bound g(2) fetch_done(1) by (simp add: unat_of_nat_small)
    ultimately show ?thesis using g(3) [OF idle] by simp
  qed
  with w c fetch_done(1) show ?thesis
    by (simp add: provider_inv_def worker_ok_def ring_fds_def)
next
  case (set_size w h response)
  with ctrl_step_inv [OF inv set_size(2) setter_keeps_id(1)] show ?thesis by (simp add: Let_def)
next
  case (set_qr v response)
  with ctrl_step_inv [OF inv set_qr(2) setter_keeps_id(2)] show ?thesis by (simp add: Let_def)
next
  case (start_session response)
  with ctrl_step_inv [OF inv start_session(2) setter_keeps_id(3)] show ?thesis by (simp add: Let_def)
next
  case invalidate
  then show ?thesis
    using inv invalidate_effect [of "cache s"]
    by (auto simp: provider_inv_def worker_ok_def ring_fds_def split: worker_pc.splits)
next
  case (get_photo e c)
  with inv cache_next_deck [of "cache s"] show ?thesis
    by (auto simp: provider_inv_def worker_ok_def ring_fds_def split: worker_pc.splits)
next
  case (get_prev_photo e c)
  with inv cache_prev_deck [of "cache s"] show ?thesis
    by (auto simp: provider_inv_def worker_ok_def ring_fds_def split: worker_pc.splits)
qed

lemma provider_reachable_inv:
  "provider_reachable p s \<Longrightarrow> invalidations s < 2 ^ 32 \<Longrightarrow> provider_inv s"
proof (induction rule: provider_reachable.induct)
  case (init c w)
  then show ?case
    using init_effect [OF init(1,2)]
    by (simp add: provider_inv_def provider_init_def worker_ok_def ring_fds_def)
next
  case (step s t)
  then show ?case using provider_step_inv provider_step_mono order_le_less_trans by blast
qed

lemma delivered_is_in_ring:
  assumes "cache_inv c" and "cache_next c = Some (e, c1) \<or> cache_prev c = Some (e, c1)"
  shows "e \<in> set (photos c)"
proof -
  have deck: "set (past (deck_of c)) \<subseteq> set (photos c)" "set (ahead (deck_of c)) \<subseteq> set (photos c)"
    by (auto simp: deck_of_def Let_def dest: in_set_takeD in_set_dropD)
  from assms(2) show ?thesis
  proof
    assume "cache_next c = Some (e, c1)"
    with cache_next_deck [OF assms(1)] have "deck_next (deck_of c) = Some (e, deck_of c1)" by simp
    then have "e \<in> set (ahead (deck_of c))" by (auto simp: deck_next.simps split: list.splits)
    with deck(2) show ?thesis by blast
  next
    assume "cache_prev c = Some (e, c1)"
    with cache_prev_deck [OF assms(1)] have "deck_prev (deck_of c) = Some (e, deck_of c1)" by simp
    then have "e = last (past (deck_of c))" "past (deck_of c) \<noteq> []"
      by (auto simp: deck_prev.simps split: if_splits)
    with deck(1) show ?thesis by auto
  qed
qed

text \<open>
  C16. No photo of an old configuration is held or delivered once a setter is done. As long as
  the cache has been invalidated fewer than 2^32 times (after which the 32-bit generation
  repeats), and whatever fetches are in flight when a setter runs: whenever no setter is at
  work, every photo in the ring, and with it every photo that \<^verbatim>\<open>GetPhoto\<close> or \<^verbatim>\<open>GetPrevPhoto\<close> would
  deliver, was fetched with the client id that is registered at that moment.
\<close>

theorem no_stale_photo_delivered:
  assumes "provider_reachable p s" and "invalidations s < 2 ^ 32" and "ctrl s = Ctrl_Idle"
  shows "(\<forall>x \<in> set (photos (cache s)). origin s (entry_fd x) = client_id (ws s))
    \<and> (cache_next (cache s) = Some (e, c) \<or> cache_prev (cache s) = Some (e, c) \<longrightarrow>
         origin s (entry_fd e) = client_id (ws s))"
proof -
  have inv: "provider_inv s" by (rule provider_reachable_inv [OF assms(1,2)])
  then have "cache_inv (cache s)" "\<forall>x \<in> set (photos (cache s)). origin s (entry_fd x) = client_id (ws s)"
    using assms(3) by (auto simp: provider_inv_def ring_fds_def)
  with delivered_is_in_ring show ?thesis by blast
qed

section \<open>An instance\<close>

definition provider_p0 :: provider where "provider_p0 = provider_init www_example cache_example"

definition provider_p1 :: provider where
  "provider_p1 = (let r = pp_www_session_start (ws provider_p0) (Some ''frame7'')
     in provider_p0\<lparr>ws := new_session r, ctrl := (if invalidates r then Ctrl_Installed else Ctrl_Idle)\<rparr>)"

definition provider_p2 :: provider where
  "provider_p2 = provider_p1\<lparr>cache := pp_cache_invalidate (cache provider_p1), ctrl := Ctrl_Idle,
     invalidations := invalidations provider_p1 + 1\<rparr>"

definition provider_p3 :: provider where
  "provider_p3 = provider_p2\<lparr>worker := W_Generation (generation (cache provider_p2)) (invalidations provider_p2)\<rparr>"

definition provider_p4 :: provider where
  "provider_p4 = provider_p3\<lparr>worker := W_Fetching 1 1 (client_id (ws provider_p3))\<rparr>"

definition provider_p5 :: provider where
  "provider_p5 = provider_p4\<lparr>cache := worker_store (cache provider_p4) 1
        (Some \<lparr>entry_fd = 12, entry_meta = Some ''{}''\<rparr>),
     worker := W_Idle, origin := (origin provider_p4)(12 := ''frame7'')\<rparr>"

definition cache_p2 :: pp_cache where "cache_p2 = pp_cache_invalidate cache_example"

definition cache_p5 :: pp_cache where
  "cache_p5 = worker_store cache_p2 1 (Some \<lparr>entry_fd = 12, entry_meta = Some ''{}''\<rparr>)"

lemma reregister_example:
  "client_id (new_session (pp_www_session_start www_example (Some ''frame7''))) = ''frame7''"
  "invalidates (pp_www_session_start www_example (Some ''frame7''))"
  by code_simp+

lemmas provider_run_defs = provider_p5_def provider_p4_def provider_p3_def provider_p2_def provider_p1_def
  provider_p0_def provider_init_def cache_p2_def [symmetric] cache_p5_def [symmetric] reregister_example Let_def

lemma provider_run_fields:
  "ctrl provider_p0 = Ctrl_Idle" "ctrl provider_p1 = Ctrl_Installed"
  "worker provider_p2 = W_Idle" "cache provider_p2 = cache_p2"
  "worker provider_p3 = W_Generation (generation cache_p2) 1" "client_id (ws provider_p3) = ''frame7''"
  "worker provider_p4 = W_Fetching 1 1 ''frame7''" "cache provider_p4 = cache_p2"
  "cache provider_p5 = cache_p5" "ctrl provider_p5 = Ctrl_Idle" "invalidations provider_p5 = 1"
  "client_id (ws provider_p5) = ''frame7''"
  by (simp_all add: provider_run_defs)

lemma provider_p5_reachable:
  "provider_reachable \<lparr>par_cache_depth = 2, par_history_depth = 1, par_dump_to_disk = False\<rparr> provider_p5"
proof -
  let ?R = "provider_reachable \<lparr>par_cache_depth = 2, par_history_depth = 1, par_dump_to_disk = False\<rparr>"
  have "client_id www_example = []" by code_simp
  then have "?R provider_p0"
    unfolding provider_p0_def by (rule provider_reachable.init [OF cache_example_init])
  moreover have "provider_step provider_p0 provider_p1"
    unfolding provider_p1_def by (rule provider_step.start_session [OF provider_run_fields(1)])
  ultimately have "?R provider_p1" by (rule provider_reachable.step)
  moreover have "provider_step provider_p1 provider_p2"
    unfolding provider_p2_def by (rule provider_step.invalidate [OF provider_run_fields(2)])
  ultimately have "?R provider_p2" by (rule provider_reachable.step)
  moreover have c2: "should_fetch_locked cache_p2" "\<not> shutdown cache_p2" "generation cache_p2 = 1"
    "photos cache_p2 = []"
    by code_simp+
  then have "provider_step provider_p2 provider_p3"
    unfolding provider_p3_def
    by (intro provider_step.read_generation) (simp_all add: provider_run_fields)
  ultimately have "?R provider_p3" by (rule provider_reachable.step)
  moreover have "provider_step provider_p3 provider_p4"
    unfolding provider_p4_def using c2
    by (intro provider_step.read_id) (simp_all add: provider_run_fields)
  ultimately have "?R provider_p4" by (rule provider_reachable.step)
  moreover have "provider_step provider_p4 provider_p5"
    unfolding provider_p5_def
  proof (rule provider_step.fetch_done [OF provider_run_fields(7)])
    show "fetch_with_id ''frame7''
        (\<lambda>_. \<lparr>memfd = 12, transfer_ok = True, http_code = 200, rewind_ok = True\<rparr>) (\<lambda>_. None) = (Some (12, ''{}''), [])"
      by code_simp
    show "12 \<notin> ring_fds provider_p4" by (simp add: ring_fds_def provider_run_fields c2)
  qed
  ultimately show ?thesis by (rule provider_reachable.step)
qed

theorem no_stale_photo_delivered_witness:
  "client_id (ws provider_p5) = ''frame7'' \<and> origin provider_p5 12 = client_id (ws provider_p5)"
proof
  show "client_id (ws provider_p5) = ''frame7''" by (rule provider_run_fields)
  let ?n = "cache_next cache_p5"
  have n: "?n = Some (fst (the ?n), snd (the ?n))" by code_simp
  have e: "entry_fd (fst (the ?n)) = 12" by code_simp
  have "invalidations provider_p5 < 2 ^ 32" "ctrl provider_p5 = Ctrl_Idle"
    by (simp_all add: provider_run_fields)
  from no_stale_photo_delivered [OF provider_p5_reachable this, of "fst (the ?n)" "snd (the ?n)"] n e
  show "origin provider_p5 12 = client_id (ws provider_p5)" by (metis provider_run_fields(9))
qed

end
