(* ===== verification/Jpeg_Loader.thy ===== *)
theory Jpeg_Loader
  imports Prelude "HOL-Library.Monad_Syntax"
begin

text \<open>
  Loading a photo (\<^verbatim>\<open>lib/jpeg_render/jpeg_loader.c\<close>). libjpeg is not part of the repository: what
  its calls do is the \<open>jpeg_env\<close> of a load, and \<open>jpeg_env_ok\<close> states what its documentation
  says of them. A write outside the pixel block is \<open>None\<close>.
\<close>

section \<open>Model\<close>

record jpeg_image =
  img_width :: u32
  img_height :: u32
  img_pixels :: "u8 list"

text \<open>The call in which libjpeg raises a fatal error, if it does: the handler jumps back.\<close>

datatype jpeg_fatal = In_Header | In_Start | In_Row nat | In_Finish

record jpeg_env =
  alloc_image_ok :: bool
  header_ok :: bool
  fatal :: "jpeg_fatal option"
  file_width :: u32
  file_height :: u32
  output_size :: "u32 \<Rightarrow> u32 \<times> u32"
  alloc_pixels_ok :: bool
  scanline :: "u32 \<Rightarrow> nat \<Rightarrow> u8 list"
  heap_fill :: u8

text \<open>The denominator the decoder is asked to scale by.\<close>

definition pick_denom :: "u32 \<Rightarrow> u32 \<Rightarrow> u32 \<Rightarrow> u32 \<Rightarrow> u32" where
  "pick_denom w h target_w target_h =
     (if target_w > 0 \<and> target_h > 0
      then (case find (\<lambda>d. w div d \<ge> target_w \<and> h div d \<ge> target_h) [8, 4, 2, 1] of
              Some d \<Rightarrow> d
            | None \<Rightarrow> 1)
      else 1)"

text \<open>The loop over the scan lines: row \<open>y\<close> goes to byte \<open>y * row_bytes\<close>, in 32 bits.\<close>

fun read_scanlines :: "u32 \<Rightarrow> nat \<Rightarrow> u8 list list \<Rightarrow> u8 list \<Rightarrow> u8 list option" where
  "read_scanlines row_bytes y [] px = Some px"
| "read_scanlines row_bytes y (r # rs) px = do {
     px' \<leftarrow> write_bytes px (unat (of_nat y * row_bytes)) r;
     read_scanlines row_bytes (Suc y) rs px'
   }"

text \<open>The image, if one is returned, and the descriptors closed.\<close>

definition jpeg_load_file :: "jpeg_env \<Rightarrow> fd \<Rightarrow> u32 \<Rightarrow> u32 \<Rightarrow> (jpeg_image option \<times> fd list) option" where
  "jpeg_load_file env f target_w target_h =
     (if \<not> alloc_image_ok env then Some (None, [f])
      else if fatal env = Some In_Header then Some (None, [f])
      else if \<not> header_ok env then Some (None, [f])
      else if fatal env = Some In_Start then Some (None, [f])
      else
        let d = pick_denom (file_width env) (file_height env) target_w target_h;
            w = fst (output_size env d);
            h = snd (output_size env d);
            row_bytes = w * 3
        in if \<not> alloc_pixels_ok env then Some (None, [f])
           else
             let rows = map (scanline env d) [0..<unat h];
                 px0 = replicate (unat (row_bytes * h)) (heap_fill env)
             in case fatal env of
                  Some (In_Row y) \<Rightarrow>
                    if y < unat h
                    then do { px \<leftarrow> read_scanlines row_bytes 0 (take y rows) px0; Some (None, [f]) }
                    else do { px \<leftarrow> read_scanlines row_bytes 0 rows px0;
                              Some (Some \<lparr>img_width = w, img_height = h, img_pixels = px\<rparr>, [f]) }
                | Some In_Finish \<Rightarrow> do { px \<leftarrow> read_scanlines row_bytes 0 rows px0; Some (None, [f]) }
                | _ \<Rightarrow> do { px \<leftarrow> read_scanlines row_bytes 0 rows px0;
                            Some (Some \<lparr>img_width = w, img_height = h, img_pixels = px\<rparr>, [f]) })"

text \<open>\<open>opened\<close> is what \<^verbatim>\<open>fopen\<close> gave, \<open>fdopen_ok\<close> whether \<^verbatim>\<open>fdopen\<close> succeeded.\<close>

definition jpeg_load :: "jpeg_env \<Rightarrow> fd option \<Rightarrow> u32 \<Rightarrow> u32 \<Rightarrow> (jpeg_image option \<times> fd list) option" where
  "jpeg_load env opened target_w target_h =
     (case opened of None \<Rightarrow> Some (None, []) | Some f \<Rightarrow> jpeg_load_file env f target_w target_h)"

definition jpeg_load_fd :: "jpeg_env \<Rightarrow> bool \<Rightarrow> fd \<Rightarrow> u32 \<Rightarrow> u32 \<Rightarrow> (jpeg_image option \<times> fd list) option" where
  "jpeg_load_fd env fdopen_ok f target_w target_h =
     (if \<not> fdopen_ok then Some (None, [f]) else jpeg_load_file env f target_w target_h)"

text \<open>
  libjpeg's documented behaviour: it refuses images beyond 65500 pixels a side, scaling by
  \<open>1/d\<close> rounds the size up, and a scan line in RGB has three bytes for each output pixel.
\<close>

definition jpeg_env_ok :: "jpeg_env \<Rightarrow> bool" where
  "jpeg_env_ok env \<longleftrightarrow>
     0 < unat (file_width env) \<and> unat (file_width env) \<le> 65500
     \<and> 0 < unat (file_height env) \<and> unat (file_height env) \<le> 65500
     \<and> (\<forall>d \<in> {1, 2, 4, 8}.
          unat (fst (output_size env d)) = (unat (file_width env) + unat d - 1) div unat d
          \<and> unat (snd (output_size env d)) = (unat (file_height env) + unat d - 1) div unat d
          \<and> (\<forall>y. length (scanline env d y) = 3 * unat (fst (output_size env d))))"

section \<open>Every scan line fits its block\<close>

lemma first_denom:
  fixes P :: "u32 \<Rightarrow> bool" and d :: u32
  assumes "d = (case find P [8, 4, 2, 1] of Some d \<Rightarrow> d | None \<Rightarrow> 1)"
  shows "d \<in> {1, 2, 4, 8}" and "P 1 \<Longrightarrow> P d" and "d \<noteq> 8 \<Longrightarrow> \<not> P (2 * d)"
  using assms by (auto split: if_splits)

lemma pick_denom_cases: "pick_denom w h tw th \<in> {1, 2, 4, 8}"
  unfolding pick_denom_def using first_denom(1) [OF refl] by (cases "tw > 0 \<and> th > 0") simp_all

text \<open>The chosen denominator keeps the photo at least as large as the target, when it was, and
  the next larger one would not have.\<close>

lemma pick_denom_first:
  assumes "0 < tw" and "0 < th"
  shows "pick_denom w h tw th
    = (case find (\<lambda>d. w div d \<ge> tw \<and> h div d \<ge> th) [8, 4, 2, 1] of Some d \<Rightarrow> d | None \<Rightarrow> 1)"
  unfolding pick_denom_def using assms by (simp only: conj_absorb if_True simp_thms)

lemma pick_denom_covers:
  assumes "0 < tw" and "0 < th" and "tw \<le> w" and "th \<le> h"
  shows "tw \<le> w div pick_denom w h tw th \<and> th \<le> h div pick_denom w h tw th"
  using first_denom(2) [OF pick_denom_first [OF assms(1,2)], of w h] assms(3,4) by simp

lemma pick_denom_tight:
  assumes "0 < tw" and "0 < th" and "d = pick_denom w h tw th" and "d \<noteq> 8"
  shows "w div (2 * d) < tw \<or> h div (2 * d) < th"
proof -
  have "d = (case find (\<lambda>d. w div d \<ge> tw \<and> h div d \<ge> th) [8, 4, 2, 1] of Some d \<Rightarrow> d | None \<Rightarrow> 1)"
    unfolding assms(3) by (rule pick_denom_first [OF assms(1,2)])
  from first_denom(3) [OF this assms(4)] show ?thesis by (auto simp: not_le)
qed

text \<open>Rows written one after the other from the start of the block.\<close>

lemma read_scanlines_fits:
  assumes "\<forall>r \<in> set rs. length r = unat rb"
    and "length done = y * unat rb"
    and "(y + length rs) * unat rb < 2 ^ 32"
    and "length rs * unat rb \<le> length rest"
  shows "read_scanlines rb y rs (done @ rest) = Some (done @ concat rs @ drop (length rs * unat rb) rest)"
  using assms
proof (induction rs arbitrary: y "done" rest)
  case Nil
  then show ?case by simp
next
  case (Cons r rs)
  have "y * unat rb < 2 ^ 32"
    using Cons.prems(3) by (rule le_less_trans [rotated]) (simp add: add_mult_distrib)
  moreover have "y < 2 ^ 32 \<or> unat rb = 0"
    using calculation by (cases "unat rb") (auto intro: le_less_trans)
  ultimately have off: "unat (of_nat y * rb) = length done"
    using Cons.prems(2) by (auto simp: unat_word_ariths unat_of_nat mod_mult_left_eq)
  have r: "length r = unat rb" using Cons.prems(1) by simp
  have "write_bytes (done @ rest) (length done) r = Some ((done @ r) @ drop (length r) rest)"
    using Cons.prems(4) r by (simp add: write_bytes_after)
  moreover have "read_scanlines rb (Suc y) rs ((done @ r) @ drop (length r) rest)
      = Some ((done @ r) @ concat rs @ drop (length rs * unat rb) (drop (length r) rest))"
    using Cons.prems r by (intro Cons.IH) (auto simp: algebra_simps)
  ultimately show ?case using r by (simp add: off add.commute del: append_assoc)
qed

text \<open>The decoded size, in natural numbers, for a target of at most 10000 pixels a side.\<close>

lemma ceil_le: "0 < d \<Longrightarrow> (n + d - 1) div d \<le> (n :: nat)"
proof -
  assume d: "0 < d"
  show ?thesis
  proof (cases n)
    case 0
    then show ?thesis using d by simp
  next
    case (Suc m)
    have "n + d - 1 \<le> n * d" using d Suc by (cases d) auto
    then show ?thesis using d by (metis div_le_mono nonzero_mult_div_cancel_right less_numeral_extra(3))
  qed
qed

lemma ceil_below:
  assumes "n div (2 * d) < t" and "0 < d"
  shows "(n + d - 1) div d \<le> 2 * (t :: nat)"
proof -
  have "n < t * (2 * d)" using assms by (simp add: div_less_iff_less_mult)
  then have "n + d - 1 \<le> 2 * t * d + (d - 1)" by (simp add: algebra_simps)
  then have "(n + d - 1) div d \<le> (2 * t * d + (d - 1)) div d" by (rule div_le_mono)
  also have "\<dots> = 2 * t" using assms(2) by (intro div_nat_eqI) (simp_all add: algebra_simps)
  finally show ?thesis .
qed

definition target_ok :: "u32 \<Rightarrow> bool" where
  "target_ok t \<longleftrightarrow> 0 < t \<and> t \<le> 10000"

lemma jpeg_env_size:
  assumes "jpeg_env_ok env" and "d \<in> {1, 2, 4, 8}"
  shows "unat (fst (output_size env d)) = (unat (file_width env) + unat d - 1) div unat d"
    and "unat (snd (output_size env d)) = (unat (file_height env) + unat d - 1) div unat d"
    and "length (scanline env d y) = 3 * unat (fst (output_size env d))"
  using assms unfolding jpeg_env_ok_def by blast+

lemma decoded_block_fits:
  assumes "jpeg_env_ok env" and "target_ok tw" and "target_ok th"
    and d: "d = pick_denom (file_width env) (file_height env) tw th"
  shows "3 * unat (fst (output_size env d)) * unat (snd (output_size env d)) < 2 ^ 32"
proof -
  let ?W = "unat (file_width env)" and ?H = "unat (file_height env)" and ?d = "unat d"
  let ?w = "unat (fst (output_size env d))" and ?h = "unat (snd (output_size env d))"
  have din: "d \<in> {1, 2, 4, 8}" using pick_denom_cases d by simp
  then have d0: "0 < ?d" by auto
  have w: "?w = (?W + ?d - 1) div ?d" and h: "?h = (?H + ?d - 1) div ?d"
    using jpeg_env_size [OF assms(1) din] by simp_all
  have W: "?W \<le> 65500" and H: "?H \<le> 65500" using assms(1) by (simp_all add: jpeg_env_ok_def)
  have T: "unat tw \<le> 10000" "unat th \<le> 10000" "0 < tw" "0 < th"
    using assms(2,3) by (simp_all add: target_ok_def word_le_nat_alt)
  have wW: "?w \<le> 65500" "?h \<le> 65500"
    using ceil_le [OF d0, of ?W] ceil_le [OF d0, of ?H] W H unfolding w h by linarith+
  show ?thesis
  proof (cases "d = 8")
    case True
    have "?w = (?W + 7) div 8" "?h = (?H + 7) div 8" using w h True by simp_all
    then have "?w \<le> 8188" "?h \<le> 8188" using W H by linarith+
    then have "?w * ?h \<le> 8188 * 8188" by (rule mult_le_mono)
    then show ?thesis by simp
  next
    case False
    from pick_denom_tight [OF T(3,4) d False]
    have "?W div (2 * ?d) < unat tw \<or> ?H div (2 * ?d) < unat th"
      using din False by (auto simp: word_less_nat_alt unat_div)
    then have "?w \<le> 20000 \<or> ?h \<le> 20000"
      using ceil_below [of ?W ?d "unat tw"] ceil_below [of ?H ?d "unat th"] T(1,2) d0
      unfolding w h by linarith
    then have "?w * ?h \<le> 20000 * 65500"
    proof
      assume "?w \<le> 20000"
      then show ?thesis using wW(2) by (rule mult_le_mono)
    next
      assume "?h \<le> 20000"
      with wW(1) have "?w * ?h \<le> 65500 * 20000" by (rule mult_le_mono)
      then show ?thesis by simp
    qed
    then show ?thesis by simp
  qed
qed

text \<open>No load leaves the pixel block, and each closes the file it is given.\<close>

lemma jpeg_rows_fit:
  assumes "jpeg_env_ok env" and "target_ok tw" and "target_ok th"
    and d: "d = pick_denom (file_width env) (file_height env) tw th"
    and "n \<le> unat (snd (output_size env d))"
  shows "\<exists>px. read_scanlines (fst (output_size env d) * 3) 0
        (take n (map (scanline env d) [0..<unat (snd (output_size env d))]))
        (replicate (unat (fst (output_size env d) * 3 * snd (output_size env d))) b) = Some px
    \<and> (n = unat (snd (output_size env d)) \<longrightarrow> px = concat (map (scanline env d) [0..<n]))"
proof -
  let ?w = "fst (output_size env d)" and ?h = "snd (output_size env d)"
  let ?rows = "take n (map (scanline env d) [0..<unat ?h])"
  have din: "d \<in> {1, 2, 4, 8}" using pick_denom_cases d by simp
  then have "0 < unat d" by auto
  moreover have "0 < unat (file_height env)" using assms(1) by (simp add: jpeg_env_ok_def)
  ultimately have h: "0 < unat ?h"
    using jpeg_env_size(2) [OF assms(1) din] by (simp add: div_greater_zero_iff)
  have fit: "3 * unat ?w * unat ?h < 2 ^ 32" using decoded_block_fits [OF assms(1-4)] .
  have "3 * unat ?w * 1 \<le> 3 * unat ?w * unat ?h" using h by (intro mult_le_mono2) simp
  with fit have "3 * unat ?w < 2 ^ 32" by linarith
  then have rb: "unat (?w * 3) = 3 * unat ?w" by (simp add: unat_word_ariths mult.commute)
  with fit have size: "unat (?w * 3 * ?h) = 3 * unat ?w * unat ?h" by (subst unat_word_ariths) simp
  have len: "length ?rows = n" using assms(5) by simp
  have le: "n * (3 * unat ?w) \<le> 3 * unat ?w * unat ?h"
    using assms(5) by (metis mult.commute mult_le_mono1)
  have "read_scanlines (?w * 3) 0 ?rows ([] @ replicate (unat (?w * 3 * ?h)) b)
      = Some ([] @ concat ?rows @ drop (length ?rows * unat (?w * 3)) (replicate (unat (?w * 3 * ?h)) b))"
  proof (rule read_scanlines_fits)
    show "\<forall>r \<in> set ?rows. length r = unat (?w * 3)"
      using jpeg_env_size(3) [OF assms(1) din] rb by (auto dest!: in_set_takeD)
    show "(0 + length ?rows) * unat (?w * 3) < 2 ^ 32"
      using le_less_trans [OF le fit] unfolding len rb add_0 .
    show "length ?rows * unat (?w * 3) \<le> length (replicate (unat (?w * 3 * ?h)) b)"
      using le unfolding len rb size by simp
  qed simp
  moreover have "take n [0..<n] = [0..<n]" by simp
  ultimately show ?thesis unfolding len rb size
    by (auto simp: take_map mult.commute mult.left_commute)
qed

lemma jpeg_load_file_fits:
  assumes "jpeg_env_ok env" and "target_ok tw" and "target_ok th"
    and "d = pick_denom (file_width env) (file_height env) tw th"
  shows "\<exists>img. jpeg_load_file env f tw th = Some (img, [f])
    \<and> (alloc_image_ok env \<and> header_ok env \<and> alloc_pixels_ok env \<and> fatal env = None \<longrightarrow>
        img = Some \<lparr>img_width = fst (output_size env d), img_height = snd (output_size env d),
                    img_pixels = concat (map (scanline env d) [0..<unat (snd (output_size env d))])\<rparr>)"
proof -
  let ?h = "unat (snd (output_size env d))"
  let ?read = "\<lambda>rows. read_scanlines (fst (output_size env d) * 3) 0 rows
      (replicate (unat (fst (output_size env d) * 3 * snd (output_size env d))) (heap_fill env))"
  let ?rows = "map (scanline env d) [0..<?h]"
  have all: "?read ?rows = Some (concat ?rows)"
    using jpeg_rows_fit [OF assms order_refl, of "heap_fill env"] by auto
  have part: "\<exists>px. ?read (take y ?rows) = Some px" if "y \<le> ?h" for y
    using jpeg_rows_fit [OF assms that, of "heap_fill env"] by blast
  consider "\<not> alloc_image_ok env \<or> fatal env = Some In_Header \<or> \<not> header_ok env \<or> fatal env = Some In_Start
      \<or> \<not> alloc_pixels_ok env"
    | "alloc_image_ok env" "header_ok env" "alloc_pixels_ok env" "fatal env = None"
    | "alloc_image_ok env" "header_ok env" "alloc_pixels_ok env" "fatal env = Some In_Finish"
    | y where "alloc_image_ok env" "header_ok env" "alloc_pixels_ok env" "fatal env = Some (In_Row y)"
    by (cases "fatal env"; cases "the (fatal env)") auto
  then show ?thesis
  proof cases
    case 1
    then show ?thesis by (auto simp: jpeg_load_file_def Let_def)
  next
    case 4
    have "\<exists>px. ?read (take y ?rows) = Some px" if "y < ?h" using part [of y] that by simp
    with 4 all show ?thesis
      by (cases "y < ?h") (auto simp: jpeg_load_file_def Let_def simp flip: assms(4))
  qed (use all in \<open>simp_all add: jpeg_load_file_def Let_def flip: assms(4)\<close>)
qed

text \<open>What is returned is an image: its block has three bytes for each of its pixels.\<close>

lemma read_scanlines_length: "read_scanlines rb y rows px = Some px' \<Longrightarrow> length px' = length px"
  by (induction rows arbitrary: y px) (auto simp: write_bytes_def split: if_splits bind_splits)

lemma jpeg_load_file_image:
  assumes "jpeg_env_ok env" "target_ok tw" "target_ok th" "jpeg_load_file env f tw th = Some (Some i, cl)"
  shows "0 < unat (img_width i) \<and> unat (img_width i) \<le> 65500 \<and> 0 < unat (img_height i) \<and> unat (img_height i) \<le> 65500 \<and>
     unat (img_width i) * unat (img_height i) * 3 < 2 ^ 32 \<and>
     length (img_pixels i) = unat (img_width i) * unat (img_height i) * 3"
proof -
  define d where "d = pick_denom (file_width env) (file_height env) tw th"
  define w h where "w = fst (output_size env d)" and "h = snd (output_size env d)"
  have din: "d \<in> {1, 2, 4, 8}" using pick_denom_cases d_def by simp
  then have d0: "0 < unat d" by auto
  have wh: "unat w = (unat (file_width env) + unat d - 1) div unat d" "unat h = (unat (file_height env) + unat d - 1) div unat d"
    using jpeg_env_size [OF assms(1) din] by (simp_all add: w_def h_def)
  have W: "0 < unat (file_width env)" "unat (file_width env) \<le> 65500" "0 < unat (file_height env)" "unat (file_height env) \<le> 65500"
    using assms(1) by (simp_all add: jpeg_env_ok_def)
  have up: "0 < (n + k - 1) div k \<and> (n + k - 1) div k \<le> n" if "0 < n" "0 < k" for n k :: nat
  proof
    show "0 < (n + k - 1) div k" using that by (simp add: div_greater_zero_iff)
    have "(n + k - 1) div k \<le> (n * k) div k" using that by (intro div_le_mono) (cases n; simp)
    then show "(n + k - 1) div k \<le> n" using that by simp
  qed
  have bounds: "0 < unat w" "unat w \<le> 65500" "0 < unat h" "unat h \<le> 65500"
    using up [OF W(1) d0] up [OF W(3) d0] W wh by linarith+
  have fits: "3 * unat w * unat h < 2 ^ 32"
    using decoded_block_fits [OF assms(1-3) d_def] by (simp add: w_def h_def)
  have block: "unat (w * 3 * h) = unat w * unat h * 3"
  proof -
    have "unat (w * 3) = unat w * 3" using bounds(2) by (simp add: unat_word_ariths)
    then show ?thesis using fits unat_word_ariths(2) [of "w * 3" h] by (simp add: mult.commute mult.left_commute)
  qed
  have "img_width i = w \<and> img_height i = h \<and> length (img_pixels i) = unat (w * 3 * h)"
    using assms(4) unfolding jpeg_load_file_def Let_def d_def [symmetric] w_def [symmetric] h_def [symmetric]
    by (auto split: if_splits option.splits jpeg_fatal.splits bind_splits dest!: read_scanlines_length)
  then show ?thesis using bounds fits block by (simp add: mult.commute mult.left_commute)
qed

text \<open>
  C17. A photo is decoded without ever leaving its pixel block, although the size of the block
  and the row offsets are computed in 32 bits: for every target of at most 10000 pixels a side
  the load ends with the descriptor closed exactly once, whatever fails, and when nothing
  fails with all the scan lines in order at the size the chosen denominator gives; that
  denominator leaves the photo at least as large as the target whenever the file was.
\<close>

theorem jpeg_load_safe:
  assumes "jpeg_env_ok env" and "target_ok tw" and "target_ok th"
    and "d = pick_denom (file_width env) (file_height env) tw th"
  shows "\<exists>img. jpeg_load_fd env fdopen_ok f tw th = Some (img, [f])
    \<and> (fdopen_ok \<and> alloc_image_ok env \<and> header_ok env \<and> alloc_pixels_ok env \<and> fatal env = None \<longrightarrow>
        img = Some \<lparr>img_width = fst (output_size env d), img_height = snd (output_size env d),
                    img_pixels = concat (map (scanline env d) [0..<unat (snd (output_size env d))])\<rparr>)
    \<and> (tw \<le> file_width env \<and> th \<le> file_height env \<longrightarrow>
        tw \<le> file_width env div d \<and> th \<le> file_height env div d)"
proof -
  have "tw \<le> file_width env div d \<and> th \<le> file_height env div d"
    if "tw \<le> file_width env \<and> th \<le> file_height env"
    using pick_denom_covers that assms by (simp add: target_ok_def)
  then show ?thesis
    using jpeg_load_file_fits [OF assms, of f] by (cases fdopen_ok) (auto simp: jpeg_load_fd_def)
qed

definition jpeg_example :: jpeg_env where
  "jpeg_example = \<lparr>alloc_image_ok = True, header_ok = True, fatal = None, file_width = 4, file_height = 2,
     output_size = (\<lambda>d. (of_nat ((4 + unat d - 1) div unat d), of_nat ((2 + unat d - 1) div unat d))),
     alloc_pixels_ok = True,
     scanline = (\<lambda>d y. replicate (3 * ((4 + unat d - 1) div unat d)) (of_nat y)), heap_fill = 0\<rparr>"

lemma jpeg_example_ok: "jpeg_env_ok jpeg_example"
  by (auto simp: jpeg_env_ok_def jpeg_example_def)

theorem jpeg_load_safe_witness:
  "jpeg_load_fd jpeg_example True 5 1 1
     = Some (Some \<lparr>img_width = 2, img_height = 1, img_pixels = [0, 0, 0, 0, 0, 0]\<rparr>, [5])"
proof -
  have ok: "jpeg_env_ok jpeg_example" "target_ok 1"
    using jpeg_example_ok by (simp_all add: target_ok_def)
  have d: "2 = pick_denom (file_width jpeg_example) (file_height jpeg_example) 1 1" by code_simp
  have s: "output_size jpeg_example 2 = (2, 1)" "scanline jpeg_example 2 0 = [0, 0, 0, 0, 0, 0]" by code_simp+
  have f: "fatal jpeg_example = None" "alloc_image_ok jpeg_example" "header_ok jpeg_example"
    "alloc_pixels_ok jpeg_example" by (simp_all add: jpeg_example_def)
  from jpeg_load_safe [OF ok(1,2,2) d, of True 5] s f show ?thesis by auto
qed

end
