(* ===== verification/Img_Render.thy ===== *)
theory Img_Render
  imports Prelude Complex_Main
begin

text \<open>
  Scaling and rotating a photo into the frame buffer (\<^verbatim>\<open>lib/jpeg_render/img_render.c\<close>). Every
  single-precision operation is the exact one followed by the rounding \<open>rnd\<close>, a parameter of
  which \<open>float_rounding\<close> states what IEEE 754 promises. A read outside the image, a write
  outside the frame buffer or an unaligned one is the value \<open>None\<close>.
\<close>

section \<open>The code\<close>

datatype rotation = ROT_0 | ROT_90 | ROT_180 | ROT_270

datatype interpolation = INTERP_NEAREST | INTERP_BILINEAR

definition sideways :: "rotation \<Rightarrow> bool" where
  "sideways rot \<longleftrightarrow> rot = ROT_90 \<or> rot = ROT_270"

fun rotate_coords :: "u32 \<Rightarrow> u32 \<Rightarrow> u32 \<Rightarrow> u32 \<Rightarrow> rotation \<Rightarrow> u32 \<times> u32" where
  "rotate_coords sx sy w h ROT_90 = (sy, h - 1 - sx)"
| "rotate_coords sx sy w h ROT_180 = (w - 1 - sx, h - 1 - sy)"
| "rotate_coords sx sy w h ROT_270 = (w - 1 - sy, sx)"
| "rotate_coords sx sy w h ROT_0 = (sx, sy)"

definition src_dims :: "u32 \<Rightarrow> u32 \<Rightarrow> rotation \<Rightarrow> u32 \<times> u32" where
  "src_dims w h rot = (if sideways rot then (h, w) else (w, h))"

text \<open>\<^verbatim>\<open>pixels + (iy * w + ix) * 3\<close> and the three bytes there.\<close>

definition pixel_at :: "u8 list \<Rightarrow> u32 \<Rightarrow> u32 \<times> u32 \<Rightarrow> (u8 \<times> u8 \<times> u8) option" where
  "pixel_at pixels w c =
     (let (ix, iy) = c; i = unat ((iy * w + ix) * 3)
      in if i + 2 < length pixels then Some (pixels ! i, pixels ! (i + 1), pixels ! (i + 2)) else None)"

definition pack_rgb :: "u8 \<times> u8 \<times> u8 \<Rightarrow> u32" where
  "pack_rgb p = (let (r, g, b) = p in push_bit 16 (ucast r) OR push_bit 8 (ucast g) OR ucast b)"

text \<open>The conversion of a non-negative float to an unsigned integer.\<close>

definition trunc_u32 :: "real \<Rightarrow> u32" where
  "trunc_u32 x = of_int \<lfloor>x\<rfloor>"

definition pixel_nearest ::
  "u8 list \<Rightarrow> u32 \<Rightarrow> u32 \<Rightarrow> real \<Rightarrow> real \<Rightarrow> rotation \<Rightarrow> u32 option" where
  "pixel_nearest pixels w h fx fy rot =
     (let (src_w, src_h) = src_dims w h rot;
          sx0 = trunc_u32 fx; sy0 = trunc_u32 fy;
          sx = (if src_w \<le> sx0 then src_w - 1 else sx0);
          sy = (if src_h \<le> sy0 then src_h - 1 else sy0)
      in map_option pack_rgb (pixel_at pixels w (rotate_coords sx sy w h rot)))"

definition lerp :: "(real \<Rightarrow> real) \<Rightarrow> u8 \<Rightarrow> u8 \<Rightarrow> real \<Rightarrow> u8" where
  "lerp rnd a b t = of_int \<lfloor>rnd (of_int (uint a) + rnd (of_int (uint b - uint a) * t))\<rfloor>"

definition lerp_rgb ::
  "(real \<Rightarrow> real) \<Rightarrow> u8 \<times> u8 \<times> u8 \<Rightarrow> u8 \<times> u8 \<times> u8 \<Rightarrow> real \<Rightarrow> u8 \<times> u8 \<times> u8" where
  "lerp_rgb rnd p q t =
     (case (p, q) of ((r, g, b), (r', g', b')) \<Rightarrow> (lerp rnd r r' t, lerp rnd g g' t, lerp rnd b b' t))"

definition pixel_bilinear ::
  "(real \<Rightarrow> real) \<Rightarrow> u8 list \<Rightarrow> u32 \<Rightarrow> u32 \<Rightarrow> real \<Rightarrow> real \<Rightarrow> rotation \<Rightarrow> u32 option" where
  "pixel_bilinear rnd pixels w h fx fy rot =
     (let (src_w, src_h) = src_dims w h rot;
          x0 = trunc_u32 fx; y0 = trunc_u32 fy;
          x1 = (if x0 + 1 < src_w then x0 + 1 else x0);
          y1 = (if y0 + 1 < src_h then y0 + 1 else y0);
          tx = rnd (fx - rnd (of_int (uint x0)));
          ty = rnd (fy - rnd (of_int (uint y0)));
          px = (\<lambda>x y. pixel_at pixels w (rotate_coords x y w h rot))
      in case (px x0 y0, px x1 y0, px x0 y1, px x1 y1) of
           (Some p00, Some p10, Some p01, Some p11) \<Rightarrow>
             Some (pack_rgb (lerp_rgb rnd (lerp_rgb rnd p00 p10 tx) (lerp_rgb rnd p01 p11 tx) ty))
         | _ \<Rightarrow> None)"

text \<open>The frame buffer: its size in bytes and its pixels by byte offset.\<close>

record frame_buffer =
  fb_bytes :: nat
  fb_px :: "nat \<Rightarrow> u32"

definition store_px :: "nat \<Rightarrow> u32 \<Rightarrow> frame_buffer \<Rightarrow> frame_buffer option" where
  "store_px off v fb =
     (if off + 4 \<le> fb_bytes fb \<and> 4 dvd off then Some (fb\<lparr>fb_px := (fb_px fb)(off := v)\<rparr>) else None)"

fun fold_opt :: "('a \<Rightarrow> 's \<Rightarrow> 's option) \<Rightarrow> 'a list \<Rightarrow> 's \<Rightarrow> 's option" where
  "fold_opt f [] s = Some s"
| "fold_opt f (x # xs) s = (case f x s of None \<Rightarrow> None | Some s' \<Rightarrow> fold_opt f xs s')"

definition fit_scale :: "(real \<Rightarrow> real) \<Rightarrow> u32 \<Rightarrow> u32 \<Rightarrow> u32 \<Rightarrow> u32 \<Rightarrow> real" where
  "fit_scale rnd fb_w fb_h src_w src_h =
     (let scale_x = rnd (rnd (of_int (uint fb_w)) / rnd (of_int (uint src_w)));
          scale_y = rnd (rnd (of_int (uint fb_h)) / rnd (of_int (uint src_h)))
      in if scale_x < scale_y then scale_x else scale_y)"

definition scaled_dim :: "(real \<Rightarrow> real) \<Rightarrow> u32 \<Rightarrow> real \<Rightarrow> u32" where
  "scaled_dim rnd n scale = trunc_u32 (rnd (rnd (of_int (uint n)) * scale))"

definition sample_pos :: "(real \<Rightarrow> real) \<Rightarrow> real \<Rightarrow> nat \<Rightarrow> real" where
  "sample_pos rnd scale x = rnd (rnd (real x) / scale)"

definition img_render ::
  "(real \<Rightarrow> real) \<Rightarrow> frame_buffer \<Rightarrow> u32 \<Rightarrow> u32 \<Rightarrow> u32 \<Rightarrow> u8 list \<Rightarrow> u32 \<Rightarrow> u32 \<Rightarrow> rotation \<Rightarrow> interpolation
     \<Rightarrow> frame_buffer option" where
  "img_render rnd dst fb_w fb_h fb_stride pixels img_w img_h rot interp =
     (let (src_w, src_h) = src_dims img_w img_h rot;
          scale = fit_scale rnd fb_w fb_h src_w src_h;
          dst_w = scaled_dim rnd src_w scale;
          dst_h = scaled_dim rnd src_h scale;
          off_x = (fb_w - dst_w) div 2;
          off_y = (fb_h - dst_h) div 2;
          sample = (\<lambda>x y.
            let fx = sample_pos rnd scale x; fy = sample_pos rnd scale y
            in if interp = INTERP_BILINEAR then pixel_bilinear rnd pixels img_w img_h fx fy rot
               else pixel_nearest pixels img_w img_h fx fy rot)
      in case fold_opt (\<lambda>y. fold_opt (\<lambda>x. store_px (unat (of_nat y * fb_stride) + 4 * x) 0)
                                     [0..<unat (fb_w * 4) div 4])
                [0..<unat fb_h] dst of
           None \<Rightarrow> None
         | Some cleared \<Rightarrow>
             fold_opt (\<lambda>y. fold_opt (\<lambda>x fb.
                 case sample x y of
                   None \<Rightarrow> None
                 | Some v \<Rightarrow> store_px (unat ((of_nat y + off_y) * fb_stride) + 4 * unat (of_nat x + off_x)) v fb)
                 [0..<unat dst_w])
               [0..<unat dst_h] cleared)"


section \<open>What IEEE 754 promises\<close>

text \<open>
  Rounding is monotone, leaves integers of up to 24 bits alone, and away from the ends of the
  exponent range errs by at most half a unit in the last place.
\<close>

definition float_rounding :: "(real \<Rightarrow> real) \<Rightarrow> bool" where
  "float_rounding rnd \<longleftrightarrow>
     mono rnd \<and> (\<forall>n::int. \<bar>n\<bar> \<le> 2 ^ 24 \<longrightarrow> rnd (of_int n) = of_int n) \<and>
     (\<forall>x. 1 / 2 ^ 100 \<le> x \<and> x \<le> 2 ^ 100 \<longrightarrow>
        x * (1 - 1 / 2 ^ 24) \<le> rnd x \<and> rnd x \<le> x * (1 + 1 / 2 ^ 24))"

lemma rnd_mono: "float_rounding rnd \<Longrightarrow> x \<le> y \<Longrightarrow> rnd x \<le> rnd y"
  by (simp add: float_rounding_def monoD)

lemma rnd_int: "float_rounding rnd \<Longrightarrow> \<bar>n\<bar> \<le> 2 ^ 24 \<Longrightarrow> rnd (of_int n) = of_int n"
  by (simp add: float_rounding_def)

lemma rnd_rel:
  "float_rounding rnd \<Longrightarrow> 1 / 2 ^ 100 \<le> x \<Longrightarrow> x \<le> 2 ^ 100 \<Longrightarrow>
     x * (1 - 1 / 2 ^ 24) \<le> rnd x \<and> rnd x \<le> x * (1 + 1 / 2 ^ 24)"
  by (simp only: float_rounding_def)

lemma rnd_0_1: "float_rounding rnd \<Longrightarrow> rnd 0 = 0" "float_rounding rnd \<Longrightarrow> rnd 1 = 1"
  using rnd_int [of rnd 0] rnd_int [of rnd 1] by simp_all

text \<open>One axis: \<open>n\<close> source pixels scaled by \<open>s\<close>, at most \<open>f / n\<close> rounded, onto \<open>f\<close> pixels.\<close>

lemma ratio_bounds:
  fixes f n :: real
  assumes "float_rounding rnd" "1 \<le> f" "f \<le> 2 ^ 16" "1 \<le> n" "n \<le> 2 ^ 16"
  shows "1 / 2 ^ 17 \<le> rnd (f / n) \<and> n * rnd (f / n) \<le> f * (1 + 1 / 2 ^ 24) \<and> rnd (f / n) \<le> 2 ^ 17"
proof -
  have lo: "1 / 2 ^ 16 \<le> f / n" using assms(2-5) by (intro frac_le) auto
  have hi: "f / n \<le> 2 ^ 16" using assms(2-5) by (simp add: divide_le_eq)
  have "(1 :: real) / 2 ^ 100 \<le> 1 / 2 ^ 16" "(2 :: real) ^ 16 \<le> 2 ^ 100" by simp_all
  then have r: "f / n * (1 - 1 / 2 ^ 24) \<le> rnd (f / n)" "rnd (f / n) \<le> f / n * (1 + 1 / 2 ^ 24)"
    using rnd_rel [OF assms(1), of "f / n"] lo hi by linarith+
  have "n * rnd (f / n) \<le> n * (f / n * (1 + 1 / 2 ^ 24))" using r(2) assms(4) by (intro mult_left_mono) auto
  then have "n * rnd (f / n) \<le> f * (1 + 1 / 2 ^ 24)" using assms(4) by simp
  moreover have "1 / 2 ^ 17 \<le> rnd (f / n)"
  proof -
    have "(1 :: real) / 2 ^ 17 \<le> 1 / 2 ^ 16 * (1 - 1 / 2 ^ 24)" by simp
    also have "\<dots> \<le> f / n * (1 - 1 / 2 ^ 24)" using lo by (intro mult_right_mono) auto
    finally show ?thesis using r(1) by linarith
  qed
  moreover have "rnd (f / n) \<le> 2 ^ 17"
  proof -
    have "f / n * (1 + 1 / 2 ^ 24) \<le> 2 ^ 16 * (1 + 1 / 2 ^ 24)" using hi by (intro mult_right_mono) auto
    then show ?thesis using r(2) by simp
  qed
  ultimately show ?thesis by blast
qed

lemma axis_fits:
  fixes f n s :: real
  assumes "float_rounding rnd" "1 \<le> f" "f \<le> 2 ^ 16" "1 \<le> n" "n \<le> 2 ^ 16"
    and "1 / 2 ^ 17 \<le> s" "n * s \<le> f * (1 + 1 / 2 ^ 24)"
  shows "0 \<le> rnd (n * s) \<and> rnd (n * s) < f + 1 \<and> rnd (n * s) \<le> n * s * (1 + 1 / 2 ^ 24)"
proof -
  have lo: "1 / 2 ^ 17 \<le> n * s" using mult_mono [OF assms(4,6)] assms(4) by simp
  have "f * (1 + 1 / 2 ^ 24) \<le> 2 ^ 16 * (1 + 1 / 2 ^ 24)" using assms(3) by (intro mult_right_mono) auto
  then have hi: "n * s \<le> 2 ^ 17" using assms(7) by simp
  have "(1 :: real) / 2 ^ 100 \<le> 1 / 2 ^ 17" "(2 :: real) ^ 17 \<le> 2 ^ 100" by simp_all
  then have r: "n * s * (1 - 1 / 2 ^ 24) \<le> rnd (n * s)" "rnd (n * s) \<le> n * s * (1 + 1 / 2 ^ 24)"
    using rnd_rel [OF assms(1), of "n * s"] lo hi by linarith+
  have "0 \<le> n * s" by (rule order_trans [OF _ lo]) simp
  then have "0 \<le> n * s * (1 - 1 / 2 ^ 24)" by (rule mult_nonneg_nonneg) simp
  moreover have "n * s * (1 + 1 / 2 ^ 24) \<le> f * (1 + 1 / 2 ^ 24) * (1 + 1 / 2 ^ 24)"
    using assms(7) by (intro mult_right_mono) auto
  moreover have "f * (1 + 1 / 2 ^ 24) * (1 + 1 / 2 ^ 24) < f + 1"
    using assms(3) by (simp add: field_simps)
  ultimately show ?thesis using r by linarith
qed

lemma axis_sample:
  fixes f n s :: real and x :: nat
  assumes "float_rounding rnd" "1 \<le> f" "f \<le> 2 ^ 16" "1 \<le> n" "n \<le> 2 ^ 16"
    and "1 / 2 ^ 17 \<le> s" "s \<le> 2 ^ 17" "n * s \<le> f * (1 + 1 / 2 ^ 24)" "int x < \<lfloor>rnd (n * s)\<rfloor>"
  shows "0 \<le> sample_pos rnd s x \<and> sample_pos rnd s x < n"
proof (cases "x = 0")
  case True
  then show ?thesis using assms(1,4) by (simp add: sample_pos_def rnd_0_1)
next
  case False
  note fit = axis_fits [OF assms(1-6,8)]
  have x1: "real x + 1 \<le> rnd (n * s)" using assms(9) by linarith
  then have x2: "1 \<le> real x" "real x \<le> 2 ^ 16" "real x + 1 \<le> n * s * (1 + 1 / 2 ^ 24)"
    using False fit assms(3) by linarith+
  have rx: "rnd (real x) = real x" using rnd_int [OF assms(1), of "int x"] x2(2) by simp
  have s: "0 < s" using assms(6) by (rule less_le_trans [rotated]) simp
  have lo: "1 / 2 ^ 17 \<le> real x / s" using x2(1) assms(7) s by (intro frac_le) auto
  have hi: "real x / s \<le> 2 ^ 33"
  proof -
    have "real x / s \<le> 2 ^ 16 / (1 / 2 ^ 17)" using x2(1,2) assms(6) by (intro frac_le) auto
    then show ?thesis by simp
  qed
  have "(1 :: real) / 2 ^ 100 \<le> 1 / 2 ^ 17" "(2 :: real) ^ 33 \<le> 2 ^ 100" by simp_all
  then have r: "real x / s * (1 - 1 / 2 ^ 24) \<le> rnd (real x / s)" "rnd (real x / s) \<le> real x / s * (1 + 1 / 2 ^ 24)"
    using rnd_rel [OF assms(1), of "real x / s"] lo hi by linarith+
  have "0 \<le> real x / s * (1 - 1 / 2 ^ 24)" using s x2(1) by (intro mult_nonneg_nonneg) auto
  moreover have "real x / s * (1 + 1 / 2 ^ 24) < n"
  proof -
    have "n * s * (1 + 1 / 2 ^ 24) * (1 + 1 / 2 ^ 24) - n * s \<le> n * s * (1 / 2 ^ 22)"
      using assms(4) s by (simp add: field_simps)
    also have "\<dots> < 1" using assms(8,3) by (simp add: field_simps)
    finally have "(n * s * (1 + 1 / 2 ^ 24) - 1) * (1 + 1 / 2 ^ 24) < n * s"
      by (simp add: field_simps)
    moreover have "real x * (1 + 1 / 2 ^ 24) \<le> (n * s * (1 + 1 / 2 ^ 24) - 1) * (1 + 1 / 2 ^ 24)"
      using x2(3) by (intro mult_right_mono) auto
    ultimately have "real x * (1 + 1 / 2 ^ 24) < n * s" by linarith
    then show ?thesis using s by (simp add: divide_less_eq)
  qed
  ultimately show ?thesis using r rx by (simp add: sample_pos_def)
qed


section \<open>Reading the image\<close>

definition image_ok :: "u8 list \<Rightarrow> u32 \<Rightarrow> u32 \<Rightarrow> bool" where
  "image_ok pixels w h \<longleftrightarrow>
     0 < unat w \<and> unat w \<le> 2 ^ 16 \<and> 0 < unat h \<and> unat h \<le> 2 ^ 16 \<and>
     unat w * unat h * 3 < 2 ^ 32 \<and> length pixels = unat w * unat h * 3"

text \<open>Where a pixel of the rotated picture comes from, and the bytes there.\<close>

fun rotated :: "rotation \<Rightarrow> nat \<Rightarrow> nat \<Rightarrow> nat \<Rightarrow> nat \<Rightarrow> nat \<times> nat" where
  "rotated ROT_90 w h x y = (y, h - 1 - x)"
| "rotated ROT_180 w h x y = (w - 1 - x, h - 1 - y)"
| "rotated ROT_270 w h x y = (w - 1 - y, x)"
| "rotated ROT_0 w h x y = (x, y)"

definition rgb_at :: "u8 list \<Rightarrow> nat \<Rightarrow> nat \<times> nat \<Rightarrow> u8 \<times> u8 \<times> u8" where
  "rgb_at pixels w c =
     (let i = (snd c * w + fst c) * 3 in (pixels ! i, pixels ! (i + 1), pixels ! (i + 2)))"

definition rot_w :: "u32 \<Rightarrow> u32 \<Rightarrow> rotation \<Rightarrow> nat" where
  "rot_w w h rot = unat (fst (src_dims w h rot))"

definition rot_h :: "u32 \<Rightarrow> u32 \<Rightarrow> rotation \<Rightarrow> nat" where
  "rot_h w h rot = unat (snd (src_dims w h rot))"

lemma rot_dims:
  "rot_w w h rot = (if sideways rot then unat h else unat w)"
  "rot_h w h rot = (if sideways rot then unat w else unat h)"
  by (simp_all add: rot_w_def rot_h_def src_dims_def)

lemma rotated_bounds:
  "x < rot_w w h rot \<Longrightarrow> y < rot_h w h rot \<Longrightarrow>
     fst (rotated rot (unat w) (unat h) x y) < unat w \<and> snd (rotated rot (unat w) (unat h) x y) < unat h"
  by (cases rot) (auto simp: rot_dims sideways_def)

lemma unat_pred_sub: "unat x < unat n \<Longrightarrow> unat (n - 1 - x) = unat n - 1 - unat x" for n x :: u32
proof -
  assume a: "unat x < unat n"
  have "unat (n - 1) = unat n - 1" using a unat_minus_one [of n] by (cases "n = 0") auto
  moreover have "unat (n - 1 - x) = unat (n - 1) - unat x"
    using a calculation by (intro unat_sub) (simp add: word_le_nat_alt)
  ultimately show ?thesis by simp
qed

lemma rotate_coords_rotated:
  assumes "unat x < rot_w w h rot" "unat y < rot_h w h rot"
  shows "map_prod unat unat (rotate_coords x y w h rot) = rotated rot (unat w) (unat h) (unat x) (unat y)"
  using assms by (cases rot) (auto simp: rot_dims sideways_def unat_pred_sub)

lemma unat_add_small: "unat a + unat b < 2 ^ 32 \<Longrightarrow> unat (a + b) = unat a + unat b" for a b :: u32
  by (simp add: unat_word_ariths)

lemma unat_mult_small: "unat a * unat b < 2 ^ 32 \<Longrightarrow> unat (a * b) = unat a * unat b" for a b :: u32
  by (simp add: unat_word_ariths)

lemma pixel_at_ok:
  assumes "image_ok pixels w h" "unat ix < unat w" "unat iy < unat h"
  shows "pixel_at pixels w (ix, iy) = Some (rgb_at pixels (unat w) (unat ix, unat iy))"
proof -
  have "Suc (unat iy) * unat w \<le> unat h * unat w" using assms(3) by (intro mult_le_mono1) simp
  then have lt: "unat iy * unat w + unat ix < unat w * unat h" using assms(2) by (simp add: mult.commute)
  have b: "unat w * unat h * 3 < 2 ^ 32" "length pixels = unat w * unat h * 3" using assms(1) by (auto simp: image_ok_def)
  have m: "unat (iy * w) = unat iy * unat w" using lt b(1) by (intro unat_mult_small) linarith
  have a: "unat (iy * w + ix) = unat iy * unat w + unat ix" using lt b(1) m by (subst unat_add_small) linarith+
  have i: "unat ((iy * w + ix) * 3) = (unat iy * unat w + unat ix) * 3"
    using lt b(1) a by (subst unat_mult_small) simp_all
  then show ?thesis using lt b(2) by (simp add: pixel_at_def Let_def rgb_at_def)
qed

lemma pixel_at_rotated:
  assumes "image_ok pixels w h" "unat x < rot_w w h rot" "unat y < rot_h w h rot"
  shows "pixel_at pixels w (rotate_coords x y w h rot)
      = Some (rgb_at pixels (unat w) (rotated rot (unat w) (unat h) (unat x) (unat y)))"
proof -
  obtain ix iy where r: "rotate_coords x y w h rot = (ix, iy)" by fastforce
  then have "(unat ix, unat iy) = rotated rot (unat w) (unat h) (unat x) (unat y)"
    using rotate_coords_rotated [OF assms(2,3)] by simp
  then show ?thesis using pixel_at_ok [OF assms(1), of ix iy] rotated_bounds [OF assms(2,3)] r
    by (metis fst_conv snd_conv)
qed

lemma src_dims_rot: "src_dims w h rot = (a, b) \<Longrightarrow> unat a = rot_w w h rot \<and> unat b = rot_h w h rot"
  by (simp add: rot_w_def rot_h_def)

lemma image_rot_pos: "image_ok pixels w h \<Longrightarrow>
    0 < rot_w w h rot \<and> 0 < rot_h w h rot \<and> rot_w w h rot \<le> 2 ^ 16 \<and> rot_h w h rot \<le> 2 ^ 16"
  by (auto simp: rot_dims image_ok_def)

lemma pixel_nearest_returns:
  assumes "image_ok pixels w h"
  shows "\<exists>v. pixel_nearest pixels w h fx fy rot = Some v"
proof -
  obtain a b where d: "src_dims w h rot = (a, b)" by fastforce
  have ab: "unat a = rot_w w h rot" "unat b = rot_h w h rot" using src_dims_rot [OF d] by auto
  have "unat (if n \<le> t then n - 1 else t) < unat n" if "0 < unat n" for n t :: u32
    using that by (auto simp: unat_minus_one unat_gt_0 word_less_nat_alt not_le)
  then show ?thesis
    using pixel_at_rotated [OF assms] image_rot_pos [OF assms, of rot]
    by (simp add: pixel_nearest_def d Let_def flip: ab)
qed

lemma trunc_u32_bound:
  assumes "0 \<le> x" "x < real n" "n \<le> 2 ^ 16"
  shows "unat (trunc_u32 x) = nat \<lfloor>x\<rfloor> \<and> unat (trunc_u32 x) < n"
proof -
  have f: "0 \<le> \<lfloor>x\<rfloor>" "\<lfloor>x\<rfloor> < int n" using assms(1,2) by (auto simp: floor_less_iff)
  then have n: "nat \<lfloor>x\<rfloor> < n" by (simp add: nat_less_iff)
  then have "nat \<lfloor>x\<rfloor> < 2 ^ 32" using assms(3) by simp
  then have "unat (of_nat (nat \<lfloor>x\<rfloor>) :: u32) = nat \<lfloor>x\<rfloor>" by (intro unat_of_nat_small) simp
  then show ?thesis using f(1) n by (simp add: trunc_u32_def)
qed

lemma pixel_bilinear_returns:
  assumes "image_ok pixels w h" "0 \<le> fx" "fx < real (rot_w w h rot)" "0 \<le> fy" "fy < real (rot_h w h rot)"
  shows "\<exists>v. pixel_bilinear rnd pixels w h fx fy rot = Some v"
proof -
  obtain a b where d: "src_dims w h rot = (a, b)" by fastforce
  have ab: "unat a = rot_w w h rot" "unat b = rot_h w h rot" using src_dims_rot [OF d] by auto
  have pos: "rot_w w h rot \<le> 2 ^ 16" "rot_h w h rot \<le> 2 ^ 16" using image_rot_pos [OF assms(1)] by auto
  have x0: "unat (trunc_u32 fx) < unat a" using trunc_u32_bound [OF assms(2,3) pos(1)] ab by simp
  have y0: "unat (trunc_u32 fy) < unat b" using trunc_u32_bound [OF assms(4,5) pos(2)] ab by simp
  have x1: "unat (if t + 1 < n then t + 1 else t) < unat n" if "unat t < unat n" for n t :: u32
    using that by (auto simp: word_less_nat_alt)
  note px = pixel_at_rotated [OF assms(1), of _ rot, unfolded ab [symmetric]]
  show ?thesis
    by (simp add: pixel_bilinear_def d Let_def px x0 y0 x1 [OF x0] x1 [OF y0])
qed


section \<open>Writing the frame buffer\<close>

definition put_px :: "nat \<Rightarrow> u32 \<Rightarrow> frame_buffer \<Rightarrow> frame_buffer" where
  "put_px off v fb = fb\<lparr>fb_px := (fb_px fb)(off := v)\<rparr>"

lemma put_px_sel [simp]:
  "fb_bytes (put_px off v fb) = fb_bytes fb" "fb_px (put_px off v fb) = (fb_px fb)(off := v)"
  by (simp_all add: put_px_def)

lemma fold_opt_total:
  assumes "\<forall>x\<in>set xs. \<forall>s. P s \<longrightarrow> f x s = Some (g x s) \<and> P (g x s)" "P s"
  shows "fold_opt f xs s = Some (fold g xs s) \<and> P (fold g xs s)"
  using assms by (induction xs arbitrary: s) auto

lemma fold_opt_rows:
  assumes "\<forall>y\<in>set ys. \<forall>x\<in>set xs. \<forall>fb. fb_bytes fb = N \<longrightarrow> f y x fb = Some (put_px (D y x) (v y x) fb)"
    and "fb_bytes fb = N"
  shows "fold_opt (\<lambda>y. fold_opt (f y) xs) ys fb
      = Some (fold (\<lambda>(y, x). put_px (D y x) (v y x)) (List.product ys xs) fb)"
proof -
  let ?P = "\<lambda>fb. fb_bytes fb = N"
  have "\<forall>y\<in>set ys. \<forall>fb. ?P fb \<longrightarrow>
      fold_opt (f y) xs fb = Some (fold (\<lambda>x. put_px (D y x) (v y x)) xs fb) \<and>
      ?P (fold (\<lambda>x. put_px (D y x) (v y x)) xs fb)"
    using assms(1) by (intro ballI allI impI fold_opt_total) auto
  then have "fold_opt (\<lambda>y. fold_opt (f y) xs) ys fb = Some (fold (\<lambda>y. fold (\<lambda>x. put_px (D y x) (v y x)) xs) ys fb)"
    using fold_opt_total [of ys ?P "\<lambda>y. fold_opt (f y) xs" "\<lambda>y. fold (\<lambda>x. put_px (D y x) (v y x)) xs" fb]
      assms(2) by simp
  then show ?thesis by (simp add: fold_product)
qed

lemma fold_put_px:
  assumes "inj_on D (set ps)" "distinct ps"
  shows "fb_bytes (fold (\<lambda>p. put_px (D p) (v p)) ps fb) = fb_bytes fb \<and>
      (\<forall>p\<in>set ps. fb_px (fold (\<lambda>p. put_px (D p) (v p)) ps fb) (D p) = v p) \<and>
      (\<forall>off. off \<notin> D ` set ps \<longrightarrow> fb_px (fold (\<lambda>p. put_px (D p) (v p)) ps fb) off = fb_px fb off)"
  using assms
proof (induction ps arbitrary: fb)
  case (Cons q ps)
  have "D q \<notin> D ` set ps" using Cons.prems by (auto simp: inj_on_def)
  then show ?case using Cons.IH [of "put_px (D q) (v q) fb"] Cons.prems by auto
qed simp

text \<open>The byte offset of the pixel in column \<open>x\<close> of row \<open>y\<close>.\<close>

definition px_off :: "nat \<Rightarrow> nat \<Rightarrow> nat \<Rightarrow> nat" where
  "px_off stride y x = y * stride + 4 * x"

definition fb_ok :: "frame_buffer \<Rightarrow> u32 \<Rightarrow> u32 \<Rightarrow> u32 \<Rightarrow> bool" where
  "fb_ok fb fb_w fb_h stride \<longleftrightarrow>
     0 < unat fb_w \<and> unat fb_w \<le> 2 ^ 16 \<and> 0 < unat fb_h \<and> unat fb_h \<le> 2 ^ 16 \<and>
     4 * unat fb_w \<le> unat stride \<and> 4 dvd unat stride \<and>
     unat fb_h * unat stride < 2 ^ 32 \<and> unat fb_h * unat stride \<le> fb_bytes fb"

lemma px_off_eq_iff:
  assumes "4 * W \<le> stride" "x < W" "x' < W"
  shows "px_off stride y x = px_off stride y' x' \<longleftrightarrow> y = y' \<and> x = x'"
proof
  assume e: "px_off stride y x = px_off stride y' x'"
  have s: "4 * x < stride" "4 * x' < stride" using assms by linarith+
  then have "(y * stride + 4 * x) div stride = y" "(y' * stride + 4 * x') div stride = y'" by simp_all
  then have "y = y'" using e by (simp add: px_off_def)
  then show "y = y' \<and> x = x'" using e by (simp add: px_off_def)
qed simp

lemma store_in_frame:
  assumes "fb_ok dst fb_w fb_h stride" "y < unat fb_h" "x < unat fb_w" "fb_bytes fb = fb_bytes dst"
  shows "store_px (px_off (unat stride) y x) v fb = Some (put_px (px_off (unat stride) y x) v fb)"
proof -
  have w: "4 * unat fb_w \<le> unat stride" "4 dvd unat stride" "unat fb_h * unat stride \<le> fb_bytes dst"
    using assms(1) by (auto simp: fb_ok_def)
  have "Suc y * unat stride \<le> unat fb_h * unat stride" using assms(2) by (intro mult_le_mono1) simp
  then have "px_off (unat stride) y x + 4 \<le> fb_bytes fb" using w assms(3,4) by (simp add: px_off_def)
  moreover have "4 dvd px_off (unat stride) y x" using w(2) by (simp add: px_off_def)
  ultimately show ?thesis by (simp add: store_px_def put_px_def)
qed

lemma row_offset:
  assumes "fb_ok dst fb_w fb_h stride" "y < unat fb_h" "unat (Y :: u32) = y"
  shows "unat (Y * stride) = y * unat stride"
proof -
  have "y * unat stride \<le> unat fb_h * unat stride" using assms(2) by (intro mult_le_mono1) simp
  moreover have "unat fb_h * unat stride < 2 ^ 32" using assms(1) by (simp add: fb_ok_def)
  ultimately have "y * unat stride < 2 ^ 32" by (rule le_less_trans)
  then show ?thesis using unat_mult_small [of Y stride] assms(3) by simp
qed

text \<open>One colour over the visible rows.\<close>

lemma fill_frame_result:
  assumes "fb_ok dst fb_w fb_h stride"
  shows "\<exists>fb. fold_opt (\<lambda>y. fold_opt (\<lambda>x. store_px (unat (of_nat y * stride) + 4 * x) v) [0..<unat fb_w]) [0..<unat fb_h] dst
        = Some fb \<and> fb_bytes fb = fb_bytes dst \<and>
      (\<forall>y<unat fb_h. \<forall>x<unat fb_w. fb_px fb (px_off (unat stride) y x) = v) \<and>
      (\<forall>off. (\<forall>y<unat fb_h. \<forall>x<unat fb_w. off \<noteq> px_off (unat stride) y x) \<longrightarrow> fb_px fb off = fb_px dst off)"
proof -
  let ?D = "px_off (unat stride)"
  let ?all = "List.product [0..<unat fb_h] [0..<unat fb_w]"
  have f: "unat fb_h \<le> 2 ^ 16" using assms by (simp add: fb_ok_def)
  have "?D y x = ?D y' x' \<longleftrightarrow> y = y' \<and> x = x'" if "x < unat fb_w" "x' < unat fb_w" for y x y' x'
    using px_off_eq_iff [OF _ that] assms by (simp add: fb_ok_def)
  then have inj: "inj_on (\<lambda>(y, x). ?D y x) (set ?all)" by (auto simp: inj_on_def)
  define fb where "fb = fold (\<lambda>(y, x). put_px (?D y x) v) ?all dst"
  have "fold_opt (\<lambda>y. fold_opt (\<lambda>x. store_px (unat (of_nat y * stride) + 4 * x) v) [0..<unat fb_w]) [0..<unat fb_h] dst = Some fb"
    unfolding fb_def
  proof (rule fold_opt_rows [where N = "fb_bytes dst"], intro ballI allI impI)
    fix y x and fb' :: frame_buffer
    assume yx: "y \<in> set [0..<unat fb_h]" "x \<in> set [0..<unat fb_w]" "fb_bytes fb' = fb_bytes dst"
    then have "unat (of_nat y :: u32) = y" using f by (intro unat_of_nat_small) simp
    then have "unat (of_nat y * stride) + 4 * x = ?D y x"
      using row_offset [OF assms, of y "of_nat y"] yx(1) by (simp add: px_off_def)
    then show "store_px (unat (of_nat y * stride) + 4 * x) v fb' = Some (put_px (?D y x) v fb')"
      using store_in_frame [OF assms _ _ yx(3)] yx(1,2) by simp
  qed simp
  moreover have "fb_bytes fb = fb_bytes dst \<and> (\<forall>p\<in>set ?all. fb_px fb (case p of (y, x) \<Rightarrow> ?D y x) = v) \<and>
      (\<forall>off. off \<notin> (\<lambda>(y, x). ?D y x) ` set ?all \<longrightarrow> fb_px fb off = fb_px dst off)"
    using fold_put_px [OF inj, of "\<lambda>_. v" dst] by (simp add: fb_def case_prod_unfold distinct_product)
  ultimately show ?thesis by (intro exI [of _ fb]) (auto simp: image_iff)
qed

section \<open>The scale\<close>

declare of_nat_unat [simp del] of_int_uint [simp del]

lemma real_uint: "real_of_int (uint n) = real (unat n)"
  by (metis of_int_of_nat_eq uint_nat)

lemma rnd_nat: "float_rounding rnd \<Longrightarrow> m \<le> 2 ^ 16 \<Longrightarrow> rnd (real m) = real m"
  using rnd_int [of rnd "int m"] by simp

lemma real_small: "0 < m \<Longrightarrow> m \<le> 2 ^ 16 \<Longrightarrow> 1 \<le> real m \<and> real m \<le> 2 ^ 16"
  by simp

lemma fit_scale_bounds:
  fixes fb_w fb_h a b :: u32
  assumes "float_rounding rnd" "0 < unat fb_w" "unat fb_w \<le> 2 ^ 16" "0 < unat fb_h" "unat fb_h \<le> 2 ^ 16"
    and "0 < unat a" "unat a \<le> 2 ^ 16" "0 < unat b" "unat b \<le> 2 ^ 16"
  defines "s \<equiv> fit_scale rnd fb_w fb_h a b"
  shows "1 / 2 ^ 17 \<le> s" "s \<le> 2 ^ 17"
    "real (unat a) * s \<le> real (unat fb_w) * (1 + 1 / 2 ^ 24)"
    "real (unat b) * s \<le> real (unat fb_h) * (1 + 1 / 2 ^ 24)"
proof -
  let ?x = "rnd (real (unat fb_w) / real (unat a))"
  let ?y = "rnd (real (unat fb_h) / real (unat b))"
  note x = ratio_bounds [OF assms(1), of "real (unat fb_w)" "real (unat a)"]
  note y = ratio_bounds [OF assms(1), of "real (unat fb_h)" "real (unat b)"]
  have s: "s = min ?x ?y"
    using assms(1-9) by (simp add: s_def fit_scale_def Let_def real_uint rnd_nat min_def)
  have xy: "1 / 2 ^ 17 \<le> ?x" "real (unat a) * ?x \<le> real (unat fb_w) * (1 + 1 / 2 ^ 24)" "?x \<le> 2 ^ 17"
    "1 / 2 ^ 17 \<le> ?y" "real (unat b) * ?y \<le> real (unat fb_h) * (1 + 1 / 2 ^ 24)"
    using x y real_small [OF assms(2,3)] real_small [OF assms(4,5)] real_small [OF assms(6,7)]
      real_small [OF assms(8,9)] by blast+
  show "1 / 2 ^ 17 \<le> s" "s \<le> 2 ^ 17" unfolding s using xy by linarith+
  have "real (unat a) * s \<le> real (unat a) * ?x" "real (unat b) * s \<le> real (unat b) * ?y"
    unfolding s by (intro mult_left_mono; simp)+
  then show "real (unat a) * s \<le> real (unat fb_w) * (1 + 1 / 2 ^ 24)"
    "real (unat b) * s \<le> real (unat fb_h) * (1 + 1 / 2 ^ 24)" using xy by linarith+
qed

lemma scaled_dim_bound:
  fixes f n :: u32
  assumes "float_rounding rnd" "0 < unat f" "unat f \<le> 2 ^ 16" "0 < unat n" "unat n \<le> 2 ^ 16"
    and "1 / 2 ^ 17 \<le> s" "s \<le> 2 ^ 17" "real (unat n) * s \<le> real (unat f) * (1 + 1 / 2 ^ 24)"
  shows "unat (scaled_dim rnd n s) \<le> unat f"
    and "x < unat (scaled_dim rnd n s) \<Longrightarrow> 0 \<le> sample_pos rnd s x \<and> sample_pos rnd s x < real (unat n)"
proof -
  have r: "1 \<le> real (unat f)" "real (unat f) \<le> 2 ^ 16" "1 \<le> real (unat n)" "real (unat n) \<le> 2 ^ 16"
    using real_small [OF assms(2,3)] real_small [OF assms(4,5)] by auto
  let ?d = "rnd (real (unat n) * s)"
  have d: "scaled_dim rnd n s = trunc_u32 ?d"
    using assms(1,5) by (simp add: scaled_dim_def real_uint rnd_nat)
  note fit = axis_fits [OF assms(1) r assms(6,8)]
  have fl: "0 \<le> \<lfloor>?d\<rfloor>" "\<lfloor>?d\<rfloor> \<le> int (unat f)" using fit by (auto simp: floor_le_iff)
  then have "nat \<lfloor>?d\<rfloor> \<le> unat f" by linarith
  then have "unat (of_nat (nat \<lfloor>?d\<rfloor>) :: u32) = nat \<lfloor>?d\<rfloor>"
    using assms(3) by (intro unat_of_nat_small) simp
  then have u: "unat (scaled_dim rnd n s) = nat \<lfloor>?d\<rfloor>" using fl(1) by (simp add: d trunc_u32_def)
  then show "unat (scaled_dim rnd n s) \<le> unat f" using fl(2) by simp
  show "0 \<le> sample_pos rnd s x \<and> sample_pos rnd s x < real (unat n)" if "x < unat (scaled_dim rnd n s)"
    using axis_sample [OF assms(1) r assms(6-8)] that u by (simp add: nat_less_iff zless_nat_eq_int_zless)
qed


section \<open>The picture in the frame buffer\<close>

definition sample_px ::
  "(real \<Rightarrow> real) \<Rightarrow> u8 list \<Rightarrow> u32 \<Rightarrow> u32 \<Rightarrow> rotation \<Rightarrow> interpolation \<Rightarrow> real \<Rightarrow> nat \<Rightarrow> nat \<Rightarrow> u32 option" where
  "sample_px rnd pixels w h rot interp s x y =
     (if interp = INTERP_BILINEAR
      then pixel_bilinear rnd pixels w h (sample_pos rnd s x) (sample_pos rnd s y) rot
      else pixel_nearest pixels w h (sample_pos rnd s x) (sample_pos rnd s y) rot)"

text \<open>The rectangle the picture fills: scale, width, height and the margins left and above.\<close>

definition picture_scale :: "(real \<Rightarrow> real) \<Rightarrow> u32 \<Rightarrow> u32 \<Rightarrow> u32 \<Rightarrow> u32 \<Rightarrow> rotation \<Rightarrow> real" where
  "picture_scale rnd fb_w fb_h w h rot = fit_scale rnd fb_w fb_h (fst (src_dims w h rot)) (snd (src_dims w h rot))"

definition picture_w :: "(real \<Rightarrow> real) \<Rightarrow> u32 \<Rightarrow> u32 \<Rightarrow> u32 \<Rightarrow> u32 \<Rightarrow> rotation \<Rightarrow> nat" where
  "picture_w rnd fb_w fb_h w h rot =
     unat (scaled_dim rnd (fst (src_dims w h rot)) (picture_scale rnd fb_w fb_h w h rot))"

definition picture_h :: "(real \<Rightarrow> real) \<Rightarrow> u32 \<Rightarrow> u32 \<Rightarrow> u32 \<Rightarrow> u32 \<Rightarrow> rotation \<Rightarrow> nat" where
  "picture_h rnd fb_w fb_h w h rot =
     unat (scaled_dim rnd (snd (src_dims w h rot)) (picture_scale rnd fb_w fb_h w h rot))"

lemma picture_bounds:
  assumes "float_rounding rnd" "image_ok pixels w h" "fb_ok dst fb_w fb_h stride"
  shows "picture_w rnd fb_w fb_h w h rot \<le> unat fb_w" "picture_h rnd fb_w fb_h w h rot \<le> unat fb_h"
    and "x < picture_w rnd fb_w fb_h w h rot \<Longrightarrow> y < picture_h rnd fb_w fb_h w h rot \<Longrightarrow>
      \<exists>v. sample_px rnd pixels w h rot interp (picture_scale rnd fb_w fb_h w h rot) x y = Some v"
proof -
  obtain a b where d: "src_dims w h rot = (a, b)" by fastforce
  have ab: "0 < unat a" "unat a \<le> 2 ^ 16" "0 < unat b" "unat b \<le> 2 ^ 16"
    using src_dims_rot [OF d] image_rot_pos [OF assms(2), of rot] by auto
  have f: "0 < unat fb_w" "unat fb_w \<le> 2 ^ 16" "0 < unat fb_h" "unat fb_h \<le> 2 ^ 16"
    using assms(3) by (auto simp: fb_ok_def)
  let ?s = "picture_scale rnd fb_w fb_h w h rot"
  note sb = fit_scale_bounds [OF assms(1) f ab]
  have s: "?s = fit_scale rnd fb_w fb_h a b" by (simp add: picture_scale_def d)
  note bw = scaled_dim_bound [OF assms(1) f(1,2) ab(1,2), of ?s, unfolded s, OF sb(1,2,3)]
  note bh = scaled_dim_bound [OF assms(1) f(3,4) ab(3,4), of ?s, unfolded s, OF sb(1,2,4)]
  show "picture_w rnd fb_w fb_h w h rot \<le> unat fb_w" "picture_h rnd fb_w fb_h w h rot \<le> unat fb_h"
    using bw(1) bh(1) by (simp_all add: picture_w_def picture_h_def d s)
  show "\<exists>v. sample_px rnd pixels w h rot interp ?s x y = Some v"
    if "x < picture_w rnd fb_w fb_h w h rot" "y < picture_h rnd fb_w fb_h w h rot"
  proof -
    have px: "0 \<le> sample_pos rnd ?s x" "sample_pos rnd ?s x < real (rot_w w h rot)"
      using bw(2) [of x] that(1) src_dims_rot [OF d] by (auto simp: picture_w_def d s)
    have py: "0 \<le> sample_pos rnd ?s y" "sample_pos rnd ?s y < real (rot_h w h rot)"
      using bh(2) [of y] that(2) src_dims_rot [OF d] by (auto simp: picture_h_def d s)
    show ?thesis
      using pixel_bilinear_returns [OF assms(2) px py] pixel_nearest_returns [OF assms(2)]
      by (simp add: sample_px_def)
  qed
qed

definition in_picture :: "nat \<Rightarrow> nat \<Rightarrow> nat \<Rightarrow> bool" where
  "in_picture margin len x \<longleftrightarrow> margin \<le> x \<and> x < margin + len"

lemma half_margin:
  fixes f d :: u32
  assumes "unat d \<le> unat f" "x < unat d" "unat f \<le> 2 ^ 16"
  shows "unat (of_nat x + (f - d) div 2) = x + (unat f - unat d) div 2"
    and "x + (unat f - unat d) div 2 < unat f"
proof -
  have "unat (f - d) = unat f - unat d" using assms(1) by (intro unat_sub) (simp add: word_le_nat_alt)
  then have o: "unat ((f - d) div 2) = (unat f - unat d) div 2" by (simp add: unat_div)
  have x: "unat (of_nat x :: u32) = x" using assms by (intro unat_of_nat_small) simp
  show lt: "x + (unat f - unat d) div 2 < unat f" using assms(1,2) by linarith
  show "unat (of_nat x + (f - d) div 2) = x + (unat f - unat d) div 2"
    using lt assms(3) by (subst unat_add_small) (simp_all add: o x)
qed

lemma img_render_result:
  fixes fb_w fb_h stride w h :: u32 and rot :: rotation
  assumes "float_rounding rnd" "image_ok pixels w h" "fb_ok dst fb_w fb_h stride"
  defines "W \<equiv> picture_w rnd fb_w fb_h w h rot" and "H \<equiv> picture_h rnd fb_w fb_h w h rot"
    and "s \<equiv> picture_scale rnd fb_w fb_h w h rot"
  defines "ox \<equiv> (unat fb_w - W) div 2" and "oy \<equiv> (unat fb_h - H) div 2"
  shows "\<exists>fb. img_render rnd dst fb_w fb_h stride pixels w h rot interp = Some fb \<and>
      fb_bytes fb = fb_bytes dst \<and>
      (\<forall>y<unat fb_h. \<forall>x<unat fb_w.
         if in_picture ox W x \<and> in_picture oy H y
         then sample_px rnd pixels w h rot interp s (x - ox) (y - oy) = Some (fb_px fb (px_off (unat stride) y x))
         else fb_px fb (px_off (unat stride) y x) = 0) \<and>
      (\<forall>off. (\<forall>y<unat fb_h. \<forall>x<unat fb_w. off \<noteq> px_off (unat stride) y x) \<longrightarrow> fb_px fb off = fb_px dst off)"
proof -
  obtain a b where d: "src_dims w h rot = (a, b)" by fastforce
  define dw where "dw = scaled_dim rnd a s"
  define dh where "dh = scaled_dim rnd b s"
  have s: "fit_scale rnd fb_w fb_h a b = s" by (simp add: s_def picture_scale_def d)
  have WH: "unat dw = W" "unat dh = H"
    by (simp_all add: W_def H_def picture_w_def picture_h_def d dw_def dh_def s_def)
  have le: "W \<le> unat fb_w" "H \<le> unat fb_h"
    using picture_bounds(1,2) [OF assms(1-3)] by (simp_all add: W_def H_def)
  have f: "0 < unat fb_w" "unat fb_w \<le> 2 ^ 16" "0 < unat fb_h" "unat fb_h \<le> 2 ^ 16"
    using assms(3) by (auto simp: fb_ok_def)
  let ?D = "px_off (unat stride)"
  let ?smp = "sample_px rnd pixels w h rot interp s"
  let ?all = "List.product [0..<unat fb_h] [0..<unat fb_w]"
  let ?pic = "List.product [0..<H] [0..<W]"
  have e: "?D y x = ?D y' x' \<longleftrightarrow> y = y' \<and> x = x'" if "x < unat fb_w" "x' < unat fb_w" for y x y' x'
    using px_off_eq_iff [OF _ that] assms(3) by (simp add: fb_ok_def)
  have injD: "inj_on (\<lambda>(y, x). ?D y x) (set ?all)" using e by (auto simp: inj_on_def)
  have dist: "distinct ?all" "distinct ?pic" by (simp_all add: distinct_product)
  have in_w: "x + ox < unat fb_w" if "x < W" for x using that le(1) by (simp add: ox_def)
  have in_h: "y + oy < unat fb_h" if "y < H" for y using that le(2) by (simp add: oy_def)
  have injP: "inj_on (\<lambda>(y, x). ?D (y + oy) (x + ox)) (set ?pic)" using e in_w by (auto simp: inj_on_def)
  have "unat (fb_w * 4) = unat fb_w * 4" using f(2) by (subst unat_mult_small) simp_all
  then have n4: "unat (fb_w * 4) div 4 = unat fb_w" by simp
  obtain cleared where clear: "fold_opt (\<lambda>y. fold_opt (\<lambda>x. store_px (unat (of_nat y * stride) + 4 * x) 0)
        [0..<unat (fb_w * 4) div 4]) [0..<unat fb_h] dst = Some cleared"
    and cb: "fb_bytes cleared = fb_bytes dst"
    and c0: "\<And>y x. y < unat fb_h \<Longrightarrow> x < unat fb_w \<Longrightarrow> fb_px cleared (?D y x) = 0"
    and c1: "\<And>off. \<forall>y<unat fb_h. \<forall>x<unat fb_w. off \<noteq> ?D y x \<Longrightarrow> fb_px cleared off = fb_px dst off"
    unfolding n4 using fill_frame_result [OF assms(3), of 0] by blast
  define fb where "fb = fold (\<lambda>(y, x). put_px (?D (y + oy) (x + ox)) (the (?smp x y))) ?pic cleared"
  have draw: "fold_opt (\<lambda>y. fold_opt (\<lambda>x fb. case ?smp x y of None \<Rightarrow> None
        | Some v \<Rightarrow> store_px (unat ((of_nat y + (fb_h - dh) div 2) * stride) + 4 * unat (of_nat x + (fb_w - dw) div 2)) v fb)
        [0..<unat dw]) [0..<unat dh] cleared = Some fb"
    unfolding fb_def WH
  proof (rule fold_opt_rows [where N = "fb_bytes dst"], intro ballI allI impI)
    fix y x and fb' :: frame_buffer
    assume yx: "y \<in> set [0..<H]" "x \<in> set [0..<W]" "fb_bytes fb' = fb_bytes dst"
    then obtain v where v: "?smp x y = Some v"
      using picture_bounds(3) [OF assms(1-3), of x rot y interp] by (auto simp: W_def H_def s_def)
    have mx: "unat (of_nat x + (fb_w - dw) div 2) = x + ox" "x + ox < unat fb_w"
      using half_margin [of dw fb_w x] WH le f yx(2) by (simp_all add: ox_def)
    have my: "unat (of_nat y + (fb_h - dh) div 2) = y + oy" "y + oy < unat fb_h"
      using half_margin [of dh fb_h y] WH le f yx(1) by (simp_all add: oy_def)
    have "unat ((of_nat y + (fb_h - dh) div 2) * stride) + 4 * unat (of_nat x + (fb_w - dw) div 2) = ?D (y + oy) (x + ox)"
      using row_offset [OF assms(3) my(2,1)] mx(1) by (simp add: px_off_def)
    then show "(case ?smp x y of None \<Rightarrow> None
        | Some v \<Rightarrow> store_px (unat ((of_nat y + (fb_h - dh) div 2) * stride) + 4 * unat (of_nat x + (fb_w - dw) div 2)) v fb')
        = Some (put_px (?D (y + oy) (x + ox)) (the (?smp x y)) fb')"
      using store_in_frame [OF assms(3) my(2) mx(2) yx(3)] v by simp
  qed (rule cb)
  have r: "img_render rnd dst fb_w fb_h stride pixels w h rot interp = Some fb"
    using draw unfolding sample_px_def
    by (simp only: img_render_def d Let_def prod.case s clear option.case flip: dw_def dh_def)
  note pic = fold_put_px [OF injP dist(2), of "\<lambda>(y, x). the (?smp x y)" cleared]
  have p0: "fb_px fb (?D (y + oy) (x + ox)) = the (?smp x y)" if "y < H" "x < W" for y x
  proof -
    have "(y, x) \<in> set ?pic" using that by simp
    then show ?thesis using pic by (fastforce simp: fb_def case_prod_unfold)
  qed
  have p1: "fb_px fb off = fb_px cleared off" if "\<forall>y<H. \<forall>x<W. off \<noteq> ?D (y + oy) (x + ox)" for off
  proof -
    have "off \<notin> (\<lambda>(y, x). ?D (y + oy) (x + ox)) ` set ?pic"
    proof
      assume "off \<in> (\<lambda>(y, x). ?D (y + oy) (x + ox)) ` set ?pic"
      then obtain y x where "off = ?D (y + oy) (x + ox)" "y < H" "x < W" by auto
      then show False using that by blast
    qed
    then show ?thesis using pic by (simp add: fb_def case_prod_unfold)
  qed
  have "if in_picture ox W x \<and> in_picture oy H y
      then ?smp (x - ox) (y - oy) = Some (fb_px fb (?D y x)) else fb_px fb (?D y x) = 0"
    if yx: "y < unat fb_h" "x < unat fb_w" for y x
  proof (cases "in_picture ox W x \<and> in_picture oy H y")
    case True
    then have k: "x - ox < W" "y - oy < H" "x - ox + ox = x" "y - oy + oy = y" by (auto simp: in_picture_def)
    then obtain v where "?smp (x - ox) (y - oy) = Some v"
      using picture_bounds(3) [OF assms(1-3), of "x - ox" rot "y - oy" interp] by (auto simp: W_def H_def s_def)
    then show ?thesis using p0 [OF k(2,1)] k(3,4) True by simp
  next
    case False
    have "?D y x \<noteq> ?D (y' + oy) (x' + ox)" if "y' < H" "x' < W" for y' x'
      using e [OF yx(2) in_w [OF that(2)]] False that by (auto simp: in_picture_def)
    then show ?thesis using p1 [of "?D y x"] c0 [OF yx] False by auto
  qed
  moreover have "fb_px fb off = fb_px dst off" if "\<forall>y<unat fb_h. \<forall>x<unat fb_w. off \<noteq> ?D y x" for off
    using p1 [of off] c1 [OF that] that in_w in_h by simp
  moreover have "fb_bytes fb = fb_bytes dst" using pic cb by (simp add: fb_def case_prod_unfold)
  ultimately show ?thesis using r by (intro exI [of _ fb]) blast
qed


text \<open>
  C32. Rendering stays inside both pictures: for every image and every frame buffer of up to
  65536 pixels a side, whatever the rotation and interpolation, no pixel is read outside the
  image or written outside the visible rows, the scaled picture fits the frame and is centred
  in it, every pixel of it is sampled from the image, the rest of the frame is black, and the
  memory outside the visible rows is left alone.
\<close>

theorem img_render_safe:
  fixes fb_w fb_h stride w h :: u32 and rot :: rotation
  assumes "float_rounding rnd" "image_ok pixels w h" "fb_ok dst fb_w fb_h stride"
  defines "W \<equiv> picture_w rnd fb_w fb_h w h rot" and "H \<equiv> picture_h rnd fb_w fb_h w h rot"
  shows "W \<le> unat fb_w \<and> H \<le> unat fb_h \<and>
      (\<exists>fb. img_render rnd dst fb_w fb_h stride pixels w h rot interp = Some fb \<and>
        (\<forall>y<unat fb_h. \<forall>x<unat fb_w.
           if in_picture ((unat fb_w - W) div 2) W x \<and> in_picture ((unat fb_h - H) div 2) H y
           then sample_px rnd pixels w h rot interp (picture_scale rnd fb_w fb_h w h rot)
                  (x - (unat fb_w - W) div 2) (y - (unat fb_h - H) div 2)
                = Some (fb_px fb (px_off (unat stride) y x))
           else fb_px fb (px_off (unat stride) y x) = 0) \<and>
        (\<forall>off. (\<forall>y<unat fb_h. \<forall>x<unat fb_w. off \<noteq> px_off (unat stride) y x) \<longrightarrow>
           fb_px fb off = fb_px dst off))"
  using picture_bounds(1,2) [OF assms(1-3), of rot] img_render_result [OF assms(1-3), of rot interp]
  unfolding W_def H_def by blast

definition tiny_image :: "u8 list" where
  "tiny_image = [1, 2, 3, 4, 5, 6]"

definition tiny_frame :: frame_buffer where
  "tiny_frame = \<lparr>fb_bytes = 48, fb_px = (\<lambda>_. 7)\<rparr>"

lemma exact_rounding: "float_rounding (\<lambda>x. x)"
  by (auto simp: float_rounding_def mono_def algebra_simps)

theorem img_render_safe_witness:
  "\<exists>fb. img_render (\<lambda>x. x) tiny_frame 3 4 12 tiny_image 2 1 ROT_90 INTERP_BILINEAR = Some fb \<and>
     (\<forall>off. (\<forall>y<4. \<forall>x<3. off \<noteq> px_off 12 y x) \<longrightarrow> fb_px fb off = 7)"
proof -
  have "image_ok tiny_image 2 1" by (simp add: image_ok_def tiny_image_def)
  moreover have "fb_ok tiny_frame 3 4 12" by (simp add: fb_ok_def tiny_frame_def)
  ultimately show ?thesis
    using img_render_safe [OF exact_rounding, of tiny_image 2 1 tiny_frame 3 4 12 ROT_90 INTERP_BILINEAR]
    by (auto simp: tiny_frame_def)
qed

section \<open>Interpolation and rotation\<close>

lemma lerp_int:
  fixes i j :: int
  assumes "float_rounding rnd" "0 \<le> t" "t \<le> 1" "0 \<le> i" "i < 256" "0 \<le> j" "j < 256"
  shows "min i j \<le> \<lfloor>rnd (of_int i + rnd (of_int (j - i) * t))\<rfloor> \<and>
    \<lfloor>rnd (of_int i + rnd (of_int (j - i) * t))\<rfloor> \<le> max i j"
proof -
  let ?p = "rnd (of_int (j - i) * t)"
  have exact: "rnd (of_int n) = of_int n" if "\<bar>n\<bar> < 256" for n :: int
    using rnd_int [OF assms(1)] that by simp
  have p: "of_int (min 0 (j - i)) \<le> ?p" "?p \<le> of_int (max 0 (j - i))"
  proof -
    have "of_int (min 0 (j - i)) \<le> of_int (j - i) * t" "of_int (j - i) * t \<le> of_int (max 0 (j - i))"
      using assms(2,3) by (cases "0 \<le> j - i"; auto simp: min_def max_def mult_left_le mult_nonpos_nonneg
          mult_le_cancel_left1)+
    then have "rnd (of_int (min 0 (j - i))) \<le> ?p" "?p \<le> rnd (of_int (max 0 (j - i)))"
      using rnd_mono [OF assms(1)] by simp_all
    moreover have "rnd (of_int (min 0 (j - i))) = of_int (min 0 (j - i))"
      "rnd (of_int (max 0 (j - i))) = of_int (max 0 (j - i))"
      using assms(4-7) by (intro exact; simp add: min_def max_def)+
    ultimately show "of_int (min 0 (j - i)) \<le> ?p" "?p \<le> of_int (max 0 (j - i))" by simp_all
  qed
  have "of_int (min i j) \<le> of_int i + ?p" "of_int i + ?p \<le> of_int (max i j)"
    using p by (auto simp: min_def max_def split: if_splits)
  then have "rnd (of_int (min i j)) \<le> rnd (of_int i + ?p)" "rnd (of_int i + ?p) \<le> rnd (of_int (max i j))"
    using rnd_mono [OF assms(1)] by simp_all
  moreover have "rnd (of_int (min i j)) = of_int (min i j)" "rnd (of_int (max i j)) = of_int (max i j)"
    using assms(4-7) by (intro exact; simp add: min_def max_def)+
  ultimately show ?thesis by (simp add: le_floor_iff floor_le_iff)
qed

text \<open>No channel leaves the range of the two it lies between, so the conversion to a byte is exact.\<close>

lemma lerp_between:
  assumes "float_rounding rnd" "0 \<le> t" "t \<le> 1"
  shows "min (uint a) (uint b) \<le> uint (lerp rnd a b t) \<and> uint (lerp rnd a b t) \<le> max (uint a) (uint b)"
proof -
  have u: "0 \<le> uint x" "uint x < 256" for x :: u8 using uint_bounded [of x] by auto
  note f = lerp_int [OF assms u u, of a b]
  then have "0 \<le> \<lfloor>rnd (of_int (uint a) + rnd (of_int (uint b - uint a) * t))\<rfloor>"
    "\<lfloor>rnd (of_int (uint a) + rnd (of_int (uint b - uint a) * t))\<rfloor> < 256"
    using u [of a] u [of b] by linarith+
  then have "uint (lerp rnd a b t) = \<lfloor>rnd (of_int (uint a) + rnd (of_int (uint b - uint a) * t))\<rfloor>"
    by (simp add: lerp_def uint_word_of_int)
  then show ?thesis using f by simp
qed

lemma lerp_0:
  assumes "float_rounding rnd" shows "lerp rnd a b 0 = a"
proof -
  have "\<bar>uint a\<bar> \<le> 2 ^ 24" using uint_bounded [of a] by auto
  then show ?thesis using rnd_int [OF assms] rnd_0_1 [OF assms]
    by (simp add: lerp_def) (simp add: of_int_uint)
qed

lemma lerp_rgb_0: "float_rounding rnd \<Longrightarrow> lerp_rgb rnd p q 0 = p"
  by (simp add: lerp_rgb_def lerp_0 split: prod.split)


lemma trunc_nat: "x \<le> 2 ^ 16 \<Longrightarrow> unat (trunc_u32 (real x)) = x"
  using trunc_u32_bound [of "real x" "Suc x"] by (cases "x = 2 ^ 16") (simp_all add: trunc_u32_def)

lemma sample_pos_1: "float_rounding rnd \<Longrightarrow> x \<le> 2 ^ 16 \<Longrightarrow> sample_pos rnd 1 x = real x"
  by (simp add: sample_pos_def rnd_nat)

lemma sample_px_unscaled:
  assumes "float_rounding rnd" "image_ok pixels w h" "x < rot_w w h rot" "y < rot_h w h rot"
  shows "sample_px rnd pixels w h rot interp 1 x y
      = Some (pack_rgb (rgb_at pixels (unat w) (rotated rot (unat w) (unat h) x y)))"
proof -
  obtain a b where d: "src_dims w h rot = (a, b)" by fastforce
  have ab: "unat a = rot_w w h rot" "unat b = rot_h w h rot" using src_dims_rot [OF d] by auto
  have xy: "x \<le> 2 ^ 16" "y \<le> 2 ^ 16" using image_rot_pos [OF assms(2), of rot] assms(3,4) by auto
  note pos = sample_pos_1 [OF assms(1) xy(1)] sample_pos_1 [OF assms(1) xy(2)]
  note tr = trunc_nat [OF xy(1)] trunc_nat [OF xy(2)]
  have lt: "\<not> a \<le> trunc_u32 (real x)" "\<not> b \<le> trunc_u32 (real y)"
    using assms(3,4) ab tr by (simp_all add: word_le_nat_alt)
  have sub: "rnd (real x - rnd (of_int (uint (trunc_u32 (real x))))) = 0"
    "rnd (real y - rnd (of_int (uint (trunc_u32 (real y))))) = 0"
    using tr xy rnd_0_1 [OF assms(1)] by (simp_all add: real_uint rnd_nat [OF assms(1)])
  have x1: "unat (if t + 1 < n then t + 1 else t) < unat n" if "unat t < unat n" for n t :: u32
    using that by (auto simp: word_less_nat_alt)
  note px = pixel_at_rotated [OF assms(2), of _ rot, unfolded ab [symmetric]]
  have txy: "unat (trunc_u32 (real x)) < unat a" "unat (trunc_u32 (real y)) < unat b"
    using tr assms(3,4) ab by simp_all
  have "pixel_nearest pixels w h (real x) (real y) rot
      = Some (pack_rgb (rgb_at pixels (unat w) (rotated rot (unat w) (unat h) x y)))"
    using lt px [OF txy] by (simp add: pixel_nearest_def d Let_def tr)
  moreover have "pixel_bilinear rnd pixels w h (real x) (real y) rot
      = Some (pack_rgb (rgb_at pixels (unat w) (rotated rot (unat w) (unat h) x y)))"
    by (simp add: pixel_bilinear_def d Let_def sub lerp_rgb_0 [OF assms(1)] px txy x1 [OF txy(1)] x1 [OF txy(2)])
      (simp add: tr)
  ultimately show ?thesis by (simp add: sample_px_def pos)
qed

lemma rotated_bij:
  "bij_betw (\<lambda>(x, y). rotated rot (unat w) (unat h) x y)
     ({..<rot_w w h rot} \<times> {..<rot_h w h rot}) ({..<unat w} \<times> {..<unat h})"
proof -
  let ?unrot = "\<lambda>(i, j). case rot of ROT_0 \<Rightarrow> (i, j) | ROT_90 \<Rightarrow> (unat h - 1 - j, i)
     | ROT_180 \<Rightarrow> (unat w - 1 - i, unat h - 1 - j) | ROT_270 \<Rightarrow> (j, unat w - 1 - i)"
  show ?thesis
    by (rule bij_betw_byWitness [where f' = ?unrot]) (cases rot; auto simp: rot_dims sideways_def)+
qed

lemma picture_unscaled:
  assumes "float_rounding rnd" "image_ok pixels w h"
    and "unat fb_w = rot_w w h rot" "unat fb_h = rot_h w h rot"
  shows "picture_scale rnd fb_w fb_h w h rot = 1 \<and>
      picture_w rnd fb_w fb_h w h rot = unat fb_w \<and> picture_h rnd fb_w fb_h w h rot = unat fb_h"
proof -
  obtain a b where d: "src_dims w h rot = (a, b)" by fastforce
  have ab: "a = fb_w" "b = fb_h" using src_dims_rot [OF d] assms(3,4) by (simp_all add: word_unat_eq_iff)
  have n: "0 < unat fb_w" "unat fb_w \<le> 2 ^ 16" "0 < unat fb_h" "unat fb_h \<le> 2 ^ 16"
    using image_rot_pos [OF assms(2), of rot] assms(3,4) by auto
  have s: "picture_scale rnd fb_w fb_h w h rot = 1"
    using n rnd_0_1 [OF assms(1)] by (simp add: picture_scale_def d ab fit_scale_def real_uint rnd_nat [OF assms(1)])
  have "unat (scaled_dim rnd f 1) = unat f" if "unat f \<le> 2 ^ 16" for f
    using that trunc_nat [OF that] by (simp add: scaled_dim_def real_uint rnd_nat [OF assms(1)])
  then show ?thesis using s n by (simp add: picture_w_def picture_h_def d ab)
qed

text \<open>
  C33. A photo of the size of the screen is shown unchanged: when the rotated image has the
  dimensions of the frame, both interpolations put into every pixel of the frame exactly the
  colour of the pixel of the image that the rotation takes there, and every pixel of the image
  appears exactly once.
\<close>

theorem img_render_unscaled:
  fixes fb_w fb_h stride w h :: u32
  assumes "float_rounding rnd" "image_ok pixels w h" "fb_ok dst fb_w fb_h stride"
    and "src_dims w h rot = (fb_w, fb_h)"
  shows "\<exists>fb. img_render rnd dst fb_w fb_h stride pixels w h rot interp = Some fb \<and>
      (\<forall>y<unat fb_h. \<forall>x<unat fb_w. fb_px fb (px_off (unat stride) y x)
         = pack_rgb (rgb_at pixels (unat w) (rotated rot (unat w) (unat h) x y))) \<and>
      bij_betw (\<lambda>(x, y). rotated rot (unat w) (unat h) x y)
        ({..<unat fb_w} \<times> {..<unat fb_h}) ({..<unat w} \<times> {..<unat h})"
proof -
  have dims: "unat fb_w = rot_w w h rot" "unat fb_h = rot_h w h rot" using src_dims_rot [OF assms(4)] by auto
  note pic = picture_unscaled [OF assms(1,2) dims]
  obtain fb where fb: "img_render rnd dst fb_w fb_h stride pixels w h rot interp = Some fb"
    "\<forall>y<unat fb_h. \<forall>x<unat fb_w. sample_px rnd pixels w h rot interp 1 x y = Some (fb_px fb (px_off (unat stride) y x))"
    using img_render_result [OF assms(1-3), of rot interp] pic by (auto simp: in_picture_def)
  have "fb_px fb (px_off (unat stride) y x) = pack_rgb (rgb_at pixels (unat w) (rotated rot (unat w) (unat h) x y))"
    if "y < unat fb_h" "x < unat fb_w" for y x
    using fb(2) that sample_px_unscaled [OF assms(1,2), of x rot y interp] dims by simp
  then show ?thesis using fb(1) rotated_bij [of rot w h] dims by auto
qed

theorem img_render_unscaled_witness:
  "\<exists>fb. img_render (\<lambda>x. x) tiny_frame 1 2 8 tiny_image 2 1 ROT_90 INTERP_BILINEAR = Some fb \<and>
     fb_px fb 0 = 0x010203 \<and> fb_px fb 8 = 0x040506"
proof -
  have "image_ok tiny_image 2 1" by (simp add: image_ok_def tiny_image_def)
  moreover have "fb_ok tiny_frame 1 2 8" by (simp add: fb_ok_def tiny_frame_def)
  moreover have "src_dims 2 1 ROT_90 = (1, 2)" by (simp add: src_dims_def sideways_def)
  ultimately obtain fb where fb: "img_render (\<lambda>x. x) tiny_frame 1 2 8 tiny_image 2 1 ROT_90 INTERP_BILINEAR = Some fb"
    "\<forall>y<2. \<forall>x<1. fb_px fb (px_off 8 y x) = pack_rgb (rgb_at tiny_image 2 (rotated ROT_90 2 1 x y))"
    using img_render_unscaled [OF exact_rounding, of tiny_image 2 1 tiny_frame 1 2 8 ROT_90 INTERP_BILINEAR]
    by auto
  have "pack_rgb (rgb_at tiny_image 2 (0, 0)) = 0x010203" "pack_rgb (rgb_at tiny_image 2 (1, 0)) = 0x040506"
    by (simp_all add: rgb_at_def tiny_image_def pack_rgb_def)
  then show ?thesis using fb(1) fb(2) [rule_format, of 0 0] fb(2) [rule_format, of 1 0] by (simp add: px_off_def)
qed

declare of_nat_unat [simp] of_int_uint [simp]

end
