(* ===== verification/Ledger.thy ===== *)
theory Ledger
  imports Prelude "HOL-Library.Multiset"
begin

text \<open>
  What a process asks of the system, as a log of \<open>io\<close> events. The \<open>ledger\<close> of a log is the multiset
  of descriptors, blocks and mappings that are still held, and is undefined as soon as something
  is released that is not held: a double \<^verbatim>\<open>close\<close>, \<^verbatim>\<open>free\<close> or \<^verbatim>\<open>munmap\<close>. A \<open>Thread\<close> is held until it is joined, and a \<open>Use\<close> is a
  read of a block. The locale \<open>device_handle\<close>
  is the contract of everything that is opened and closed.
\<close>

section \<open>The log\<close>

datatype resource = Fd fd | Heap string | Mapped u32 nat | Thread string

datatype gpio_dir = RPIGPIO_INPUT | RPIGPIO_OUTPUT

datatype io =
    Acquire resource
  | Release resource
  | Line_Request int gpio_dir "bool option"
  | Line_Get fd
  | Line_Set fd bool
  | Spi_Send fd "u8 list"
  | Slept nat
  | Bus_Call string
  | Use resource

fun ledger_step :: "resource multiset option \<Rightarrow> io \<Rightarrow> resource multiset option" where
  "ledger_step None _ = None"
| "ledger_step (Some R) (Acquire r) = Some (add_mset r R)"
| "ledger_step (Some R) (Release r) = (if r \<in># R then Some (R - {#r#}) else None)"
| "ledger_step (Some R) _ = Some R"

definition ledger :: "io list \<Rightarrow> resource multiset option" where
  "ledger l = foldl ledger_step (Some {#}) l"

lemma ledger_Nil [simp]: "ledger [] = Some {#}"
  by (simp add: ledger_def)

lemma ledger_snoc [simp]: "ledger (l @ [e]) = ledger_step (ledger l) e"
  by (simp add: ledger_def)

lemma ledger_snoc2 [simp]: "ledger (l @ [e, f]) = ledger_step (ledger_step (ledger l) e) f"
  by (simp add: ledger_def)

lemma ledger_append_steps: "ledger (l @ m) = foldl ledger_step (ledger l) m"
  by (simp add: ledger_def)

lemma ledger_release_all:
  "foldl ledger_step (Some (R + mset rs)) (map Release rs) = Some R"
  by (induction rs) auto

text \<open>
  A structure around a handle: its block is allocated first and freed when the handle inside
  cannot be opened, and freed last when the handle is closed.
\<close>

definition nested_open ::
  "('k \<Rightarrow> io list \<Rightarrow> bool) \<Rightarrow> string \<Rightarrow> ('k \<Rightarrow> io list \<Rightarrow> 'h option \<times> io list) \<Rightarrow> 'k \<Rightarrow> io list \<Rightarrow> 'h option \<times> io list" where
  "nested_open alloc name inner k l =
     (if \<not> alloc k l then (None, l)
      else (case inner k (l @ [Acquire (Heap name)]) of
              (None, l1) \<Rightarrow> (None, l1 @ [Release (Heap name)])
            | (Some h, l1) \<Rightarrow> (Some h, l1)))"

definition nested_close :: "string \<Rightarrow> ('k \<Rightarrow> 'h option \<Rightarrow> io list \<Rightarrow> io list) \<Rightarrow> 'k \<Rightarrow> 'h option \<Rightarrow> io list \<Rightarrow> io list" where
  "nested_close name inner k hp l =
     (case hp of None \<Rightarrow> l | Some h \<Rightarrow> inner k (Some h) l @ [Release (Heap name)])"

section \<open>The contract of a handle\<close>

text \<open>
  Every device and every connection, and what is built from them, is opened and closed under one
  contract: a failed open holds nothing, and a close gives back exactly what is held.
\<close>

locale device_handle =
  fixes acquire :: "'k \<Rightarrow> io list \<Rightarrow> 'h option \<times> io list"
    and release :: "'k \<Rightarrow> 'h option \<Rightarrow> io list \<Rightarrow> io list"
    and owned :: "'h \<Rightarrow> resource multiset"
    and trusted :: "'k \<Rightarrow> bool"
  assumes acquire_owned: "trusted k \<Longrightarrow> ledger l = Some R \<Longrightarrow> acquire k l = (h, l') \<Longrightarrow>
      ledger l' = Some (R + (case h of None \<Rightarrow> {#} | Some x \<Rightarrow> owned x))"
    and release_owned: "ledger l = Some (R + owned x) \<Longrightarrow> ledger (release k (Some x) l) = Some R"
    and release_none: "release k None l = l"
begin

lemma release_held:
  "ledger l = Some (R + (case h of None \<Rightarrow> {#} | Some x \<Rightarrow> owned x)) \<Longrightarrow> ledger (release k h l) = Some R"
  by (cases h) (auto simp: release_none release_owned)

lemma failed_acquire: "trusted k \<Longrightarrow> ledger l = Some R \<Longrightarrow> acquire k l = (None, l') \<Longrightarrow> ledger l' = Some R"
  using acquire_owned [of k l R None l'] by simp

lemma nested:
  "device_handle (nested_open alloc name acquire) (nested_close name release) (\<lambda>h. owned h + {#Heap name#}) trusted"
proof
  fix k l R h l'
  assume k: "trusted k" "ledger l = Some R" "nested_open alloc name acquire k l = (h, l')"
  show "ledger l' = Some (R + (case h of None \<Rightarrow> {#} | Some x \<Rightarrow> owned x + {#Heap name#}))"
  proof (cases "alloc k l")
    case True
    obtain h1 l1 where a: "acquire k (l @ [Acquire (Heap name)]) = (h1, l1)" by fastforce
    have "ledger (l @ [Acquire (Heap name)]) = Some (R + {#Heap name#})" using k(2) by simp
    then have "ledger l1 = Some (R + {#Heap name#} + (case h1 of None \<Rightarrow> {#} | Some x \<Rightarrow> owned x))"
      using acquire_owned [OF k(1) _ a] by simp
    then show ?thesis using k(3) True a by (cases h1) (auto simp: nested_open_def ac_simps)
  qed (use k in \<open>simp add: nested_open_def\<close>)
next
  fix k l R x
  assume "ledger l = Some (R + (owned x + {#Heap name#}))"
  then have "ledger (release k (Some x) l) = Some (R + {#Heap name#})"
    using release_owned [of l "R + {#Heap name#}" x k] by (simp add: ac_simps)
  then show "ledger (nested_close name release k (Some x) l) = Some R" by (simp add: nested_close_def)
qed (simp add: nested_close_def)

end

end
