(* ===== verification/Drm_Client.thy ===== *)
theory Drm_Client
  imports Ledger
begin

text \<open>
  The client side of the frame buffer lease (\<^verbatim>\<open>lib/drm_mgr/drm_mgr.c\<close>): asking the display manager
  for the buffer, mapping it, and giving it back. The operations are cut where they call the
  daemon, so that the daemon's own model can be put there (theory \<open>Lease\<close>). A null pointer that
  is followed is the value \<open>None\<close>.
\<close>

section \<open>State\<close>

record fb_info =
  fb_width :: u32
  fb_height :: u32
  fb_stride :: u32
  fb_format :: u32
  fb_size :: u32

text \<open>\<open>fb_addr\<close> is an address, zero when nothing is mapped.\<close>

record drm_mgr =
  fb_addr :: u32
  owned_dmabuf :: fd
  map_size :: u32
  holds_drm :: bool

text \<open>
  What the system answers, which may depend on all that was asked before: whether the state is
  allocated and the bus opened, whether the reply can be read, the duplicate of a descriptor
  (negative on failure) and the address of a mapping.
\<close>

record client_env =
  ce_alloc :: "io list \<Rightarrow> bool"
  ce_open_bus :: "io list \<Rightarrow> int"
  ce_read_reply :: "io list \<Rightarrow> int"
  ce_dup :: "io list \<Rightarrow> fd \<Rightarrow> fd"
  ce_mmap :: "io list \<Rightarrow> u32 \<Rightarrow> fd \<Rightarrow> u32 option"

text \<open>The reply of a call: the buffer it carries, or an error.\<close>

type_synonym lease_answer = "(fd \<times> fb_info) option"

section \<open>Operations\<close>

definition drm_mgr_calloc :: drm_mgr where
  "drm_mgr_calloc = \<lparr>fb_addr = 0, owned_dmabuf = - 1, map_size = 0, holds_drm = False\<rparr>"

definition drm_mgr_init :: "client_env \<Rightarrow> io list \<Rightarrow> drm_mgr option \<times> io list" where
  "drm_mgr_init env l =
     (if \<not> ce_alloc env l then (None, l)
      else
        let l1 = l @ [Acquire (Heap ''drm_mgr'')]
        in if ce_open_bus env l1 < 0 then (None, l1 @ [Release (Heap ''drm_mgr'')])
           else (Some drm_mgr_calloc, l1 @ [Acquire (Heap ''drm_mgr.bus'')]))"

text \<open>\<^verbatim>\<open>drm_mgr_acquire_fb\<close> once the daemon has answered: the address or null, and what is filled in.\<close>

definition acquire_answered ::
  "client_env \<Rightarrow> lease_answer \<Rightarrow> drm_mgr \<Rightarrow> io list \<Rightarrow> u32 \<times> fb_info option \<times> drm_mgr \<times> io list" where
  "acquire_answered env answer s l =
     (case answer of
        None \<Rightarrow> (0, None, s, l)
      | Some (f, info) \<Rightarrow>
          let l1 = l @ [Acquire (Heap ''reply'')]
          in if ce_read_reply env l1 < 0 then (0, None, s, l1 @ [Release (Heap ''reply'')])
             else
               let own = ce_dup env l1 f;
                   l2 = (if 0 \<le> own then l1 @ [Acquire (Fd own)] else l1) @ [Release (Heap ''reply'')]
               in if own < 0 then (0, Some info, s, l2)
                  else (case ce_mmap env l2 (fb_size info) own of
                    None \<Rightarrow> (0, Some info, s, l2 @ [Release (Fd own)])
                  | Some addr \<Rightarrow>
                      (addr, Some info,
                       s\<lparr>fb_addr := addr, owned_dmabuf := own, map_size := fb_size info, holds_drm := True\<rparr>,
                       l2 @ [Acquire (Mapped addr (unat (fb_size info)))])))"

definition drm_mgr_acquire_fb ::
  "client_env \<Rightarrow> lease_answer \<Rightarrow> drm_mgr option \<Rightarrow> io list \<Rightarrow> u32 \<times> fb_info option \<times> drm_mgr option \<times> io list" where
  "drm_mgr_acquire_fb env answer sp l =
     (case sp of
        None \<Rightarrow> (0, None, None, l)
      | Some s \<Rightarrow>
          (case acquire_answered env answer s (l @ [Bus_Call ''AcquireLease'']) of
             (addr, info, s', l') \<Rightarrow> (addr, info, Some s', l')))"

text \<open>\<^verbatim>\<open>drm_mgr_release_fb\<close> up to the call of the daemon, and after it.\<close>

definition release_unmap :: "drm_mgr \<Rightarrow> io list \<Rightarrow> drm_mgr \<times> io list" where
  "release_unmap s l =
     (let (s1, l1) = (if fb_addr s \<noteq> 0 then (s\<lparr>fb_addr := 0\<rparr>, l @ [Release (Mapped (fb_addr s) (unat (map_size s)))])
                      else (s, l))
      in if 0 \<le> owned_dmabuf s1 then (s1\<lparr>owned_dmabuf := - 1\<rparr>, l1 @ [Release (Fd (owned_dmabuf s1))])
         else (s1, l1))"

definition release_told :: "drm_mgr \<Rightarrow> drm_mgr" where
  "release_told s = s\<lparr>holds_drm := False\<rparr>"

definition drm_mgr_release_fb :: "drm_mgr option \<Rightarrow> io list \<Rightarrow> (drm_mgr \<times> io list) option" where
  "drm_mgr_release_fb sp l =
     (case sp of
        None \<Rightarrow> None
      | Some s \<Rightarrow>
          Some (if \<not> holds_drm s then (s, l)
                else case release_unmap s l of
                  (s1, l1) \<Rightarrow> (release_told s1, l1 @ [Bus_Call ''ReleaseLease''])))"

definition drm_mgr_free :: "drm_mgr option \<Rightarrow> io list \<Rightarrow> io list" where
  "drm_mgr_free sp l =
     (case sp of
        None \<Rightarrow> l
      | Some s \<Rightarrow>
          (if holds_drm s
           then (case drm_mgr_release_fb (Some s) l of None \<Rightarrow> l | Some (_, l1) \<Rightarrow> l1)
           else l) @ [Release (Heap ''drm_mgr.bus''), Release (Heap ''drm_mgr'')])"

text \<open>A client's life between opening and freeing: what it asks for, the latest last.\<close>

datatype client_op = Ask lease_answer | Give_Back

fun client_run :: "client_env \<Rightarrow> client_op list \<Rightarrow> drm_mgr \<Rightarrow> io list \<Rightarrow> drm_mgr \<times> io list" where
  "client_run env [] s l = (s, l)"
| "client_run env (Ask answer # ops) s l =
     (case drm_mgr_acquire_fb env answer (Some s) l of
        (_, _, s', l') \<Rightarrow> client_run env ops (case s' of None \<Rightarrow> s | Some x \<Rightarrow> x) l')"
| "client_run env (Give_Back # ops) s l =
     (case drm_mgr_release_fb (Some s) l of
        None \<Rightarrow> (s, l)
      | Some (s', l') \<Rightarrow> client_run env ops s' l')"

section \<open>What a client holds\<close>

definition lease_owned :: "drm_mgr \<Rightarrow> resource multiset" where
  "lease_owned s =
     (if \<not> holds_drm s then {#}
      else (if fb_addr s \<noteq> 0 then {#Mapped (fb_addr s) (unat (map_size s))#} else {#})
         + (if 0 \<le> owned_dmabuf s then {#Fd (owned_dmabuf s)#} else {#}))"

definition drm_mgr_owned :: "drm_mgr \<Rightarrow> resource multiset" where
  "drm_mgr_owned s = {#Heap ''drm_mgr'', Heap ''drm_mgr.bus''#} + lease_owned s"

text \<open>Something is mapped or open exactly while the lease is held.\<close>

definition drm_mgr_ok :: "drm_mgr \<Rightarrow> bool" where
  "drm_mgr_ok s \<longleftrightarrow> (holds_drm s \<longleftrightarrow> fb_addr s \<noteq> 0) \<and> (holds_drm s \<longleftrightarrow> 0 \<le> owned_dmabuf s)"

text \<open>The kernel never maps at the null address.\<close>

definition maps_above_null :: "client_env \<Rightarrow> bool" where
  "maps_above_null env \<longleftrightarrow> (\<forall>l n f. ce_mmap env l n f \<noteq> Some 0)"

lemma calloc_owned [simp]: "drm_mgr_ok drm_mgr_calloc" "lease_owned drm_mgr_calloc = {#}"
    "fb_addr drm_mgr_calloc = 0" "\<not> holds_drm drm_mgr_calloc"
  by (simp_all add: drm_mgr_ok_def drm_mgr_calloc_def lease_owned_def)

lemma release_unmap_ledger:
  assumes "release_unmap s l = (s', l')" "holds_drm s" "ledger l = Some (R + lease_owned s)"
  shows "ledger l' = Some R \<and> fb_addr s' = 0 \<and> owned_dmabuf s' < 0 \<and> holds_drm s'"
  using assms by (auto simp: release_unmap_def lease_owned_def Let_def split: if_splits)

lemma release_returns: "\<exists>s' l'. drm_mgr_release_fb (Some s) l = Some (s', l')"
  by (simp add: drm_mgr_release_fb_def split: prod.split)

lemma drm_mgr_release_fb_ledger:
  assumes "drm_mgr_release_fb (Some s) l = Some (s', l')" "ledger l = Some (R + lease_owned s)"
  shows "\<not> holds_drm s' \<and> ledger l' = Some R \<and> (drm_mgr_ok s \<longrightarrow> drm_mgr_ok s')"
proof (cases "holds_drm s")
  case True
  obtain s1 l1 where un: "release_unmap s l = (s1, l1)" by fastforce
  show ?thesis using release_unmap_ledger [OF un True assms(2)] assms(1) True
    by (auto simp: drm_mgr_release_fb_def un release_told_def drm_mgr_ok_def)
next
  case False
  then show ?thesis using assms by (auto simp: drm_mgr_release_fb_def lease_owned_def)
qed

text \<open>An answered request either leaves everything as it was or adds the mapping it returns.\<close>

lemma acquire_answered_ledger:
  assumes "acquire_answered env answer s l = (addr, info, s', l')" "maps_above_null env" "ledger l = Some Q"
  shows "if addr = 0 then s' = s \<and> ledger l' = Some Q
         else ledger l' = Some (Q + lease_owned s') \<and> fb_addr s' = addr \<and> holds_drm s' \<and> drm_mgr_ok s' \<and>
           (\<exists>f i. answer = Some (f, i) \<and> info = Some i \<and> map_size s' = fb_size i)"
  using assms
  by (auto simp: acquire_answered_def Let_def maps_above_null_def drm_mgr_ok_def lease_owned_def
      ledger_append_steps simp del: ledger_snoc ledger_snoc2 split: option.splits if_splits)

lemma drm_mgr_acquire_fb_ledger:
  assumes "drm_mgr_acquire_fb env answer (Some s) l = (addr, info, sp, l')" "maps_above_null env" "ledger l = Some Q"
  shows "\<exists>s'. sp = Some s' \<and>
     (if addr = 0 then s' = s \<and> ledger l' = Some Q
      else ledger l' = Some (Q + lease_owned s') \<and> fb_addr s' = addr \<and> holds_drm s' \<and> drm_mgr_ok s' \<and>
           (\<exists>f i. answer = Some (f, i) \<and> info = Some i \<and> map_size s' = fb_size i))"
  using assms acquire_answered_ledger [of env answer s "l @ [Bus_Call ''AcquireLease'']"]
  by (auto simp: drm_mgr_acquire_fb_def split: prod.splits)

lemma drm_mgr_free_ledger:
  assumes "ledger l = Some (R + drm_mgr_owned s)"
  shows "ledger (drm_mgr_free (Some s) l) = Some R"
proof (cases "holds_drm s")
  case True
  obtain s' l' where r: "drm_mgr_release_fb (Some s) l = Some (s', l')" using release_returns by blast
  have "ledger l' = Some (R + {#Heap ''drm_mgr'', Heap ''drm_mgr.bus''#})"
    using drm_mgr_release_fb_ledger [OF r, of "R + {#Heap ''drm_mgr'', Heap ''drm_mgr.bus''#}"] assms
    by (simp add: drm_mgr_owned_def ac_simps)
  then show ?thesis using True by (simp add: drm_mgr_free_def r)
next
  case False
  then show ?thesis using assms by (simp add: drm_mgr_free_def drm_mgr_owned_def lease_owned_def)
qed

lemma drm_mgr_init_ledger:
  assumes "drm_mgr_init env l = (sp, l')" "ledger l = Some R"
  shows "ledger l' = Some (R + (case sp of None \<Rightarrow> {#} | Some s \<Rightarrow> drm_mgr_owned s)) \<and>
     (sp = None \<or> sp = Some drm_mgr_calloc)"
  using assms by (auto simp: drm_mgr_init_def drm_mgr_owned_def Let_def split: if_splits)

interpretation lease_client: device_handle drm_mgr_init "\<lambda>_. drm_mgr_free" drm_mgr_owned "\<lambda>_. True"
  by unfold_locales
    (use drm_mgr_init_ledger in blast, auto simp: drm_mgr_free_ledger, simp add: drm_mgr_free_def)

text \<open>No request is made while the buffer is held: its mapping would be forgotten.\<close>

fun asks_when_free :: "client_env \<Rightarrow> client_op list \<Rightarrow> drm_mgr \<Rightarrow> io list \<Rightarrow> bool" where
  "asks_when_free env [] s l = True"
| "asks_when_free env (op # ops) s l =
     ((case op of Ask _ \<Rightarrow> \<not> holds_drm s | Give_Back \<Rightarrow> True) \<and>
      (case client_run env [op] s l of (s', l') \<Rightarrow> asks_when_free env ops s' l'))"

lemma client_run_ledger:
  assumes "asks_when_free env ops s l" "maps_above_null env" "ledger l = Some (R + drm_mgr_owned s)"
  shows "ledger (snd (client_run env ops s l)) = Some (R + drm_mgr_owned (fst (client_run env ops s l)))"
  using assms
proof (induction ops arbitrary: s l)
  case (Cons op ops)
  show ?case
  proof (cases op)
    case (Ask answer)
    obtain addr info sp l' where a: "drm_mgr_acquire_fb env answer (Some s) l = (addr, info, sp, l')"
      by (metis prod_cases4)
    with drm_mgr_acquire_fb_ledger [OF a Cons.prems(2,3)] Ask Cons.prems(1)
    obtain s' where "sp = Some s'" "ledger l' = Some (R + drm_mgr_owned s')"
      by (auto simp: drm_mgr_owned_def lease_owned_def split: if_splits)
    with Cons.IH [of s' l'] Cons.prems Ask a show ?thesis by simp
  next
    case Give_Back
    obtain s' l' where r: "drm_mgr_release_fb (Some s) l = Some (s', l')" using release_returns by blast
    have "ledger l' = Some (R + drm_mgr_owned s')"
      using drm_mgr_release_fb_ledger [OF r, of "R + {#Heap ''drm_mgr'', Heap ''drm_mgr.bus''#}"] Cons.prems(3)
      by (simp add: drm_mgr_owned_def lease_owned_def ac_simps split: if_splits)
    with Cons.IH [of s' l'] Cons.prems Give_Back r show ?thesis by simp
  qed
qed simp

text \<open>
  A client that asks only while it holds nothing gives everything back when it is freed, at
  whatever point of its life: no descriptor or mapping is leaked or released twice.
\<close>

theorem lease_client_balanced:
  assumes "drm_mgr_init env l0 = (Some s0, l)" "ledger l0 = Some R"
    and "maps_above_null env" "asks_when_free env ops s0 l"
  shows "ledger (drm_mgr_free (Some (fst (client_run env ops s0 l))) (snd (client_run env ops s0 l))) = Some R"
  using client_run_ledger [OF assms(4,3)] drm_mgr_init_ledger [OF assms(1,2)] drm_mgr_free_ledger by simp

end
