(* ===== verification/Slideshow.thy ===== *)
theory Slideshow
  imports Jpeg_Loader Img_Render Drm_Client
begin

text \<open>
  The slideshow of the ambience service (\<^verbatim>\<open>ambience/slideshow.c\<close>). The first part models its
  functions: set-up, the exchange with the photo provider, what one round of the worker shows
  and closes. The second part interleaves the worker thread with the D-Bus thread that starts,
  stops and skips: every access to the semaphore, the stop flag and the skip counter is one
  step.
\<close>

section \<open>State\<close>

text \<open>\<open>atomic_int\<close>: 32 bits in two's complement, read with \<open>sint\<close>.\<close>

type_synonym i32 = "32 word"

record slideshow =
  fbi :: fb_info
  compose_buf_size :: size_t
  transition_time_s :: u32
  rot :: rotation
  want_w :: u32
  want_h :: u32
  show_qr :: bool
  worker_bus :: bool
  worker_running :: bool
  wake_sem :: nat
  stop_requested :: bool
  skip_count :: i32
  has_eink_meta :: bool
  fallback_image :: "string option"

datatype photo_method = GetPhoto | GetPrevPhoto

section \<open>The exchange with the photo provider\<close>

definition ENOTCONN :: int where "ENOTCONN = 107"

text \<open>\<^verbatim>\<open>connect_worker_bus\<close>; an existing connection is closed first.\<close>

definition connect_worker_bus :: "bool \<Rightarrow> slideshow \<Rightarrow> int \<times> slideshow" where
  "connect_worker_bus open_ok s =
     (if open_ok then (0, s\<lparr>worker_bus := True\<rparr>) else (-1, s\<lparr>worker_bus := False\<rparr>))"

text \<open>
  What the calls of one fetch return. \<open>call_result\<close> is \<^verbatim>\<open>sd_bus_call_method\<close> on a connection
  or on a null pointer; the two numbers tell the first call of the fetch from the second.
\<close>

record fetch_env =
  call_result :: "bool \<Rightarrow> nat \<Rightarrow> int"
  reconnect_ok :: bool
  read_result :: int
  dup_result :: fd
  seek_result :: int
  reply_meta :: "string option"

text \<open>The photo, if there is one, and the descriptors closed on the way.\<close>

definition fetch_one :: "fetch_env \<Rightarrow> slideshow \<Rightarrow> (fd \<times> string) option \<times> fd list \<times> slideshow" where
  "fetch_one env s =
     (let r = call_result env (worker_bus s) 0;
          (lost, r', s') =
            (if r = - ENOTCONN
             then case connect_worker_bus (reconnect_ok env) s of
                    (c, s1) \<Rightarrow> if c < 0 then (True, r, s1) else (False, call_result env (worker_bus s1) 1, s1)
             else (False, r, s))
      in if lost then (None, [], s')
         else if r' < 0 then (None, [], s')
         else if read_result env < 0 then (None, [], s')
         else if dup_result env < 0 then (None, [], s')
         else if seek_result env < 0 then (None, [dup_result env], s')
         else (Some (dup_result env, case reply_meta env of None \<Rightarrow> [] | Some m \<Rightarrow> m), [], s'))"

section \<open>One round of the worker\<close>

datatype effect = Render_Meta string | Show_Photo jpeg_image | Show_Fallback string jpeg_image
  | Emit_Displaying string | Close fd

text \<open>
  \<^verbatim>\<open>render_fd\<close> and \<^verbatim>\<open>render_fallback\<close>: the decoder is the model of \<^verbatim>\<open>jpeg_loader.c\<close>, \<open>None\<close>
  when it leaves its block.
\<close>

definition render_fd :: "slideshow \<Rightarrow> jpeg_env \<Rightarrow> bool \<Rightarrow> fd \<Rightarrow> (bool \<times> effect list) option" where
  "render_fd s jenv fdopen_ok f = do {
     (img, closes) \<leftarrow> jpeg_load_fd jenv fdopen_ok f (fb_width (fbi s)) (fb_height (fbi s));
     Some (case img of
             None \<Rightarrow> (False, map Close closes)
           | Some i \<Rightarrow> (True, map Close closes @ [Show_Photo i]))
   }"

definition render_fallback :: "slideshow \<Rightarrow> jpeg_env \<Rightarrow> fd option \<Rightarrow> effect list option" where
  "render_fallback s jenv opened =
     (case fallback_image s of
        None \<Rightarrow> Some []
      | Some path \<Rightarrow> do {
          (img, closes) \<leftarrow> jpeg_load jenv opened (fb_width (fbi s)) (fb_height (fbi s));
          Some (map Close closes @ (case img of None \<Rightarrow> [] | Some i \<Rightarrow> [Show_Fallback path i]))
        })"

text \<open>\<^verbatim>\<open>render_meta\<close> passes the metadata to the e-ink display when there is one.\<close>

definition render_meta :: "slideshow \<Rightarrow> string \<Rightarrow> effect list" where
  "render_meta s meta = (if has_eink_meta s then [Render_Meta meta] else [])"

text \<open>The body of the worker's loop between reading the skip counter and waiting.\<close>

record round_env =
  fetching :: fetch_env
  photo_fdopen_ok :: bool
  photo_jpeg :: jpeg_env
  fallback_opened :: "fd option"
  fallback_jpeg :: jpeg_env

definition worker_round :: "round_env \<Rightarrow> slideshow \<Rightarrow> (effect list \<times> slideshow) option" where
  "worker_round env s =
     (case fetch_one (fetching env) s of
        (None, closes, s1) \<Rightarrow> do {
          fb \<leftarrow> render_fallback s1 (fallback_jpeg env) (fallback_opened env);
          Some (map Close closes @ fb, s1)
        }
      | (Some (f, meta), closes, s1) \<Rightarrow> do {
          (shown, effs) \<leftarrow> render_fd s1 (photo_jpeg env) (photo_fdopen_ok env) f;
          rest \<leftarrow> (if shown then Some [Emit_Displaying meta]
                   else render_fallback s1 (fallback_jpeg env) (fallback_opened env));
          Some (map Close closes @ render_meta s1 meta @ effs @ rest @ [Close f], s1)
        })"

section \<open>Set-up and configuration\<close>

text \<open>\<^verbatim>\<open>push_initial_config\<close>: the calls made and the result; each argument is what a call returns.\<close>

datatype provider_call = SetTargetSize u32 u32 | SetEmbedQr bool

definition push_initial_config :: "u32 \<Rightarrow> u32 \<Rightarrow> bool \<Rightarrow> int \<Rightarrow> int \<Rightarrow> int \<times> provider_call list" where
  "push_initial_config w h qr size_result qr_result =
     (if size_result < 0 then (-1, [SetTargetSize w h])
      else if qr_result < 0 then (-1, [SetTargetSize w h, SetEmbedQr qr])
      else (0, [SetTargetSize w h, SetEmbedQr qr]))"

definition on_photo_svc_updown :: "slideshow \<Rightarrow> bool \<Rightarrow> int \<Rightarrow> int \<Rightarrow> provider_call list" where
  "on_photo_svc_updown s up size_result qr_result =
     (if \<not> up then []
      else snd (push_initial_config (want_w s) (want_h s) (show_qr s) size_result qr_result))"

record setup_env =
  struct_ok :: bool
  compose_ok :: bool
  sem_ok :: bool
  bus_ok :: bool
  eink_ok :: bool
  startup_jpeg :: jpeg_env
  startup_opened :: "fd option"
  size_call :: int
  qr_call :: int

definition rotation_of :: "u32 \<Rightarrow> rotation option" where
  "rotation_of deg =
     (if deg = 0 then Some ROT_0 else if deg = 90 then Some ROT_90
      else if deg = 180 then Some ROT_180 else if deg = 270 then Some ROT_270 else None)"

text \<open>
  \<^verbatim>\<open>slideshow_init\<close> with its bus and frame buffer given: the slideshow or null, and the effects
  and provider calls on the way.
\<close>

definition slideshow_init :: "fb_info \<Rightarrow> u32 \<Rightarrow> u32 \<Rightarrow> bool \<Rightarrow> bool \<Rightarrow> string option \<Rightarrow> setup_env
    \<Rightarrow> (slideshow option \<times> effect list \<times> provider_call list) option" where
  "slideshow_init info secs deg qr use_eink fallback env =
     (if secs = 0 then Some (None, [], [])
      else case rotation_of deg of
        None \<Rightarrow> Some (None, [], [])
      | Some ro \<Rightarrow>
          if \<not> struct_ok env \<or> \<not> compose_ok env \<or> \<not> sem_ok env \<or> \<not> bus_ok env
          then Some (None, [], [])
          else
            let swapped = deg = 90 \<or> deg = 270;
                w = (if swapped then fb_height info else fb_width info);
                h = (if swapped then fb_width info else fb_height info);
                fb_path = (case fallback of None \<Rightarrow> None | Some p \<Rightarrow> if p = [] then None else Some p);
                s = \<lparr>fbi = info, compose_buf_size = fb_height info * fb_stride info,
                     transition_time_s = secs, rot = ro, want_w = w, want_h = h, show_qr = qr,
                     worker_bus = True, worker_running = False, wake_sem = 0,
                     stop_requested = False, skip_count = 0, has_eink_meta = use_eink \<and> eink_ok env,
                     fallback_image = fb_path\<rparr>
            in do {
              shown \<leftarrow> render_fallback s (startup_jpeg env) (startup_opened env);
              Some (Some s, shown, snd (push_initial_config w h qr (size_call env) (qr_call env)))
            })"

definition slideshow_set_transition_time_s :: "slideshow \<Rightarrow> u32 \<Rightarrow> bool \<times> slideshow" where
  "slideshow_set_transition_time_s s seconds =
     (if seconds < 3 \<or> seconds > 300 then (False, s)
      else (True, s\<lparr>transition_time_s := seconds\<rparr>))"

section \<open>The two threads\<close>

text \<open>
  Where each thread stands. The worker drains the semaphore, takes the skip counter, fetches
  and shows, waits, and on being woken reads the stop flag. The D-Bus thread is between two
  calls, inside \<^verbatim>\<open>slideshow_stop\<close> before the post or in the join, or inside
  \<^verbatim>\<open>slideshow_next\<close> or \<^verbatim>\<open>slideshow_prev\<close> between the count and the post. \<open>slide_log\<close> records
  what happened, the latest first.
\<close>

datatype slide_worker_pc =
  S_None | S_Drain | S_Exchange | S_Fetch photo_method | S_Wait | S_Woken | S_Exited

datatype slide_main_pc = M_Idle | M_Stop_Flagged | M_Joining | M_Counted

datatype slide_event = Started | Stopped | Pressed int | Fetched photo_method | Timed_Out

record slide_sys =
  slides :: slideshow
  slide_worker :: slide_worker_pc
  slide_main :: slide_main_pc
  slide_log :: "slide_event list"

text \<open>
  \<^verbatim>\<open>worker_main\<close> with \<^verbatim>\<open>wait_or_stop\<close>. The timed wait ends by the clock only while the
  semaphore cannot be taken; an interrupted wait starts again.
\<close>

inductive slide_worker_step :: "slide_sys \<Rightarrow> slide_sys \<Rightarrow> bool" where
  drain: "slide_worker s = S_Drain \<Longrightarrow> 0 < wake_sem (slides s) \<Longrightarrow>
     slide_worker_step s (s\<lparr>slides := (slides s)\<lparr>wake_sem := wake_sem (slides s) - 1\<rparr>\<rparr>)"
| drained: "slide_worker s = S_Drain \<Longrightarrow> wake_sem (slides s) = 0 \<Longrightarrow>
     slide_worker_step s (s\<lparr>slide_worker := S_Exchange\<rparr>)"
| exchange: "slide_worker s = S_Exchange \<Longrightarrow>
     m = (if sint (skip_count (slides s)) < 0 then GetPrevPhoto else GetPhoto) \<Longrightarrow>
     slide_worker_step s
       (s\<lparr>slides := (slides s)\<lparr>skip_count := 0\<rparr>, slide_worker := S_Fetch m,
          slide_log := Fetched m # slide_log s\<rparr>)"
| round: "slide_worker s = S_Fetch m \<Longrightarrow> worker_round env (slides s) = Some (effs, sl) \<Longrightarrow>
     slide_worker_step s (s\<lparr>slides := sl, slide_worker := S_Wait\<rparr>)"
| time_out: "slide_worker s = S_Wait \<Longrightarrow> wake_sem (slides s) = 0 \<Longrightarrow>
     slide_worker_step s (s\<lparr>slide_worker := S_Drain, slide_log := Timed_Out # slide_log s\<rparr>)"
| wake: "slide_worker s = S_Wait \<Longrightarrow> 0 < wake_sem (slides s) \<Longrightarrow>
     slide_worker_step s
       (s\<lparr>slides := (slides s)\<lparr>wake_sem := wake_sem (slides s) - 1\<rparr>, slide_worker := S_Woken\<rparr>)"
| woken_stop: "slide_worker s = S_Woken \<Longrightarrow> stop_requested (slides s) \<Longrightarrow>
     slide_worker_step s (s\<lparr>slide_worker := S_Exited\<rparr>)"
| woken_go: "slide_worker s = S_Woken \<Longrightarrow> \<not> stop_requested (slides s) \<Longrightarrow>
     slide_worker_step s (s\<lparr>slide_worker := S_Drain\<rparr>)"

text \<open>
  \<^verbatim>\<open>slideshow_start\<close>, \<^verbatim>\<open>slideshow_stop\<close>, \<^verbatim>\<open>slideshow_next\<close>, \<^verbatim>\<open>slideshow_prev\<close> and
  \<^verbatim>\<open>slideshow_set_transition_time_s\<close>. Calls that return at once leave the state as it is and
  need no step. After the join the worker is gone, so the rest of \<^verbatim>\<open>slideshow_stop\<close> is one step.
\<close>

inductive slide_main_step :: "slide_sys \<Rightarrow> slide_sys \<Rightarrow> bool" where
  start: "slide_main s = M_Idle \<Longrightarrow> \<not> worker_running (slides s) \<Longrightarrow>
     slide_main_step s
       (s\<lparr>slides := (slides s)\<lparr>worker_running := True\<rparr>, slide_worker := S_Drain,
          slide_log := Started # slide_log s\<rparr>)"
| stop_flag: "slide_main s = M_Idle \<Longrightarrow> worker_running (slides s) \<Longrightarrow>
     slide_main_step s
       (s\<lparr>slides := (slides s)\<lparr>stop_requested := True\<rparr>, slide_main := M_Stop_Flagged\<rparr>)"
| stop_post: "slide_main s = M_Stop_Flagged \<Longrightarrow>
     slide_main_step s
       (s\<lparr>slides := (slides s)\<lparr>wake_sem := wake_sem (slides s) + 1\<rparr>, slide_main := M_Joining\<rparr>)"
| stop_join: "slide_main s = M_Joining \<Longrightarrow> slide_worker s = S_Exited \<Longrightarrow>
     slide_main_step s
       (s\<lparr>slides := (slides s)\<lparr>worker_running := False, stop_requested := False, wake_sem := 0, skip_count := 0\<rparr>,
          slide_worker := S_None, slide_main := M_Idle, slide_log := Stopped # slide_log s\<rparr>)"
| next_count: "slide_main s = M_Idle \<Longrightarrow> worker_running (slides s) \<Longrightarrow>
     slide_main_step s
       (s\<lparr>slides := (slides s)\<lparr>skip_count := skip_count (slides s) + 1\<rparr>, slide_main := M_Counted,
          slide_log := Pressed 1 # slide_log s\<rparr>)"
| prev_count: "slide_main s = M_Idle \<Longrightarrow> worker_running (slides s) \<Longrightarrow>
     slide_main_step s
       (s\<lparr>slides := (slides s)\<lparr>skip_count := skip_count (slides s) - 1\<rparr>, slide_main := M_Counted,
          slide_log := Pressed (-1) # slide_log s\<rparr>)"
| skip_post: "slide_main s = M_Counted \<Longrightarrow>
     slide_main_step s
       (s\<lparr>slides := (slides s)\<lparr>wake_sem := wake_sem (slides s) + 1\<rparr>, slide_main := M_Idle\<rparr>)"
| set_time: "slide_main s = M_Idle \<Longrightarrow>
     slide_main_step s (s\<lparr>slides := snd (slideshow_set_transition_time_s (slides s) secs)\<rparr>)"

inductive_cases slide_worker_stepE [elim]: "slide_worker_step s t"
inductive_cases slide_main_stepE [elim]: "slide_main_step s t"

definition slide_step :: "slide_sys \<Rightarrow> slide_sys \<Rightarrow> bool" where
  "slide_step s t \<longleftrightarrow> slide_worker_step s t \<or> slide_main_step s t"

definition slide_init :: "slideshow \<Rightarrow> slide_sys" where
  "slide_init sl = \<lparr>slides = sl, slide_worker = S_None, slide_main = M_Idle, slide_log = []\<rparr>"

text \<open>A slideshow as \<^verbatim>\<open>slideshow_init\<close> leaves it, and the states its two threads can reach.\<close>

definition fresh_slides :: "slideshow \<Rightarrow> bool" where
  "fresh_slides sl \<longleftrightarrow>
     (\<exists>info secs deg qr eink fb env effs calls.
        slideshow_init info secs deg qr eink fb env = Some (Some sl, effs, calls))"

definition slide_reachable :: "slideshow \<Rightarrow> slide_sys \<Rightarrow> bool" where
  "slide_reachable sl s \<longleftrightarrow> rtranclp slide_step (slide_init sl) s"

section \<open>What a round and a setting leave alone\<close>

lemma fetch_one_frame:
  "fetch_one env s = (res, closes, s') \<Longrightarrow> s' = s\<lparr>worker_bus := worker_bus s'\<rparr>"
  by (auto simp: fetch_one_def connect_worker_bus_def Let_def split: if_splits)

lemma worker_round_frame:
  assumes "worker_round env s = Some (effs, s')"
  shows "s' = s\<lparr>worker_bus := worker_bus s'\<rparr>"
proof -
  obtain res closes s1 where f: "fetch_one (fetching env) s = (res, closes, s1)"
    by (metis prod_cases3)
  have "s' = s1" using assms f
    by (auto simp: worker_round_def split: option.splits prod.splits Option.bind_splits if_splits)
  then show ?thesis using fetch_one_frame [OF f] by simp
qed

lemma worker_round_keeps:
  assumes "worker_round env s = Some (effs, s')"
  shows "wake_sem s' = wake_sem s" "skip_count s' = skip_count s" "stop_requested s' = stop_requested s"
    "worker_running s' = worker_running s" "transition_time_s s' = transition_time_s s"
  by (subst worker_round_frame [OF assms], simp)+

lemma set_time_keeps:
  "wake_sem (snd (slideshow_set_transition_time_s s n)) = wake_sem s"
  "skip_count (snd (slideshow_set_transition_time_s s n)) = skip_count s"
  "stop_requested (snd (slideshow_set_transition_time_s s n)) = stop_requested s"
  "worker_running (snd (slideshow_set_transition_time_s s n)) = worker_running s"
  by (simp_all add: slideshow_set_transition_time_s_def)

text \<open>A round is always possible: the fetch may fail and the fallback file may be missing.\<close>

definition failing_round :: round_env where
  "failing_round =
     \<lparr>fetching = \<lparr>call_result = (\<lambda>_ _. -1), reconnect_ok = True, read_result = 0, dup_result = -1,
                  seek_result = 0, reply_meta = None\<rparr>,
      photo_fdopen_ok = False, photo_jpeg = jpeg_example, fallback_opened = None,
      fallback_jpeg = jpeg_example\<rparr>"

lemma failing_round_possible: "worker_round failing_round s = Some ([], s)"
  by (simp add: worker_round_def failing_round_def fetch_one_def ENOTCONN_def render_fallback_def
      jpeg_load_def split: option.split)

section \<open>The invariant\<close>

text \<open>The presses since the last fetch (or start): forward ones count 1, backward ones -1.\<close>

fun net_presses :: "slide_event list \<Rightarrow> int" where
  "net_presses [] = 0"
| "net_presses (Pressed d # h) = d + net_presses h"
| "net_presses (Timed_Out # h) = net_presses h"
| "net_presses (_ # h) = 0"

fun fetches_follow :: "slide_event list \<Rightarrow> bool" where
  "fetches_follow [] = True"
| "fetches_follow (Fetched m # h) =
     ((m = (if sint (of_int (net_presses h) :: i32) < 0 then GetPrevPhoto else GetPhoto)) \<and> fetches_follow h)"
| "fetches_follow (_ # h) = fetches_follow h"

definition waiting_for_skip :: "slide_sys \<Rightarrow> bool" where
  "waiting_for_skip s \<longleftrightarrow> slide_worker s = S_Wait \<or> (\<exists>m. slide_worker s = S_Fetch m)"

definition slide_inv :: "slide_sys \<Rightarrow> bool" where
  "slide_inv s \<longleftrightarrow>
     (worker_running (slides s) \<longleftrightarrow> slide_worker s \<noteq> S_None)
     \<and> (\<not> worker_running (slides s) \<longrightarrow>
          wake_sem (slides s) = 0 \<and> skip_count (slides s) = 0 \<and> slide_main s = M_Idle)
     \<and> (stop_requested (slides s) \<longleftrightarrow> slide_main s = M_Stop_Flagged \<or> slide_main s = M_Joining)
     \<and> (slide_worker s = S_Exited \<longrightarrow> stop_requested (slides s))
     \<and> (waiting_for_skip s \<and> skip_count (slides s) \<noteq> 0 \<and> slide_main s \<noteq> M_Counted
          \<longrightarrow> 0 < wake_sem (slides s))
     \<and> skip_count (slides s) = of_int (net_presses (slide_log s))
     \<and> fetches_follow (slide_log s)"

lemma fresh_slides_fields:
  assumes "fresh_slides sl"
  shows "wake_sem sl = 0" "skip_count sl = 0" "\<not> stop_requested sl" "\<not> worker_running sl" "worker_bus sl"
  using assms
  by (auto simp: fresh_slides_def slideshow_init_def Let_def split: if_splits option.splits Option.bind_splits)

lemma slide_inv_init: "fresh_slides sl \<Longrightarrow> slide_inv (slide_init sl)"
  by (simp add: slide_inv_def slide_init_def fresh_slides_fields waiting_for_skip_def)

lemma slide_inv_worker: "slide_worker_step s t \<Longrightarrow> slide_inv s \<Longrightarrow> slide_inv t"
  by (induction rule: slide_worker_step.induct)
    (auto simp: slide_inv_def waiting_for_skip_def worker_round_keeps)

lemma slide_inv_main: "slide_main_step s t \<Longrightarrow> slide_inv s \<Longrightarrow> slide_inv t"
  by (induction rule: slide_main_step.induct)
    (auto simp: slide_inv_def waiting_for_skip_def set_time_keeps)

lemma slide_inv_reachable:
  assumes "fresh_slides sl" and "slide_reachable sl s"
  shows "slide_inv s"
  using assms(2) unfolding slide_reachable_def
  by (induction rule: rtranclp_induct)
    (auto simp: slide_inv_init [OF assms(1)] slide_step_def dest: slide_inv_worker slide_inv_main)

section \<open>Presses are honoured\<close>

lemma fetches_follow_suffix: "fetches_follow (newer @ h) \<Longrightarrow> fetches_follow h"
proof (induction newer)
  case (Cons e newer)
  then show ?case by (cases e) auto
qed simp

text \<open>Up to 2^31 presses the sign read from the counter is the sign of their sum.\<close>

lemma sint_of_int_small: "\<bar>n\<bar> < 2 ^ 31 \<Longrightarrow> sint (of_int n :: i32) = n"
  by (simp add: signed_of_int signed_take_bit_int_eq_self abs_less_iff)

text \<open>
  C18. Skips are honoured in every interleaving of the worker with the D-Bus thread. Each fetch
  asks for the previous photo exactly when, since the fetch before it, \<^verbatim>\<open>Prev\<close> was pressed
  more often than \<^verbatim>\<open>Next\<close>; while the worker is fetching or waiting, presses that have not been
  taken hold the semaphore up, so the worker cannot sleep on them; and a stopped slideshow has
  no post, no count and no stop request left over.
\<close>

theorem slideshow_presses_honoured:
  assumes "fresh_slides sl" and "slide_reachable sl s"
  shows "(\<forall>newer m older. slide_log s = newer @ Fetched m # older \<and> \<bar>net_presses older\<bar> < 2 ^ 31 \<longrightarrow>
            (m = GetPrevPhoto \<longleftrightarrow> net_presses older < 0))
    \<and> (waiting_for_skip s \<and> slide_main s = M_Idle \<and> net_presses (slide_log s) \<noteq> 0
         \<and> \<bar>net_presses (slide_log s)\<bar> < 2 ^ 31 \<longrightarrow> 0 < wake_sem (slides s))
    \<and> (\<not> worker_running (slides s) \<longrightarrow>
         wake_sem (slides s) = 0 \<and> skip_count (slides s) = 0 \<and> \<not> stop_requested (slides s)
         \<and> slide_worker s = S_None)"
proof (intro conjI allI impI)
  have inv: "slide_inv s" by (rule slide_inv_reachable [OF assms])
  show "m = GetPrevPhoto \<longleftrightarrow> net_presses older < 0"
    if "slide_log s = newer @ Fetched m # older \<and> \<bar>net_presses older\<bar> < 2 ^ 31" for newer m older
  proof -
    have "fetches_follow (newer @ Fetched m # older)" using inv that by (simp add: slide_inv_def)
    from fetches_follow_suffix [OF this] show ?thesis using that by (simp add: sint_of_int_small)
  qed
  show "0 < wake_sem (slides s)"
    if w: "waiting_for_skip s \<and> slide_main s = M_Idle \<and> net_presses (slide_log s) \<noteq> 0
      \<and> \<bar>net_presses (slide_log s)\<bar> < 2 ^ 31"
  proof -
    have "sint (skip_count (slides s)) = net_presses (slide_log s)"
      using inv w by (simp add: slide_inv_def sint_of_int_small)
    with w have "skip_count (slides s) \<noteq> 0" by auto
    with inv w show ?thesis by (simp add: slide_inv_def)
  qed
qed (use slide_inv_reachable [OF assms] in \<open>auto simp: slide_inv_def\<close>)

section \<open>Stopping\<close>

text \<open>How far the worker is from its exit, once the stop can reach it.\<close>

fun steps_to_exit :: "slide_worker_pc \<Rightarrow> nat" where
  "steps_to_exit S_Exchange = 4"
| "steps_to_exit (S_Fetch _) = 3"
| "steps_to_exit S_Wait = 2"
| "steps_to_exit S_Woken = 1"
| "steps_to_exit _ = 0"

text \<open>The stop is posted, and its post is still there to be taken, or has been taken by the wait.\<close>

definition stop_will_work :: "slide_sys \<Rightarrow> bool" where
  "stop_will_work s \<longleftrightarrow> slide_main s = M_Joining \<and> stop_requested (slides s)
     \<and> ((waiting_for_skip s \<or> slide_worker s = S_Exchange) \<and> 0 < wake_sem (slides s)
        \<or> slide_worker s = S_Woken \<or> slide_worker s = S_Exited)"

text \<open>At most the fetch the worker had already begun is logged before it exits.\<close>

definition log_after :: "slide_sys \<Rightarrow> slide_event list \<Rightarrow> bool" where
  "log_after s l \<longleftrightarrow> l = slide_log s \<or> slide_worker s = S_Exchange \<and> (\<exists>m. l = Fetched m # slide_log s)"

definition stop_returned :: "slide_sys \<Rightarrow> slide_sys \<Rightarrow> bool" where
  "stop_returned s t \<longleftrightarrow> slide_main t = M_Idle \<and> \<not> worker_running (slides t)
     \<and> (\<exists>l. slide_log t = Stopped # l \<and> log_after s l)"

lemma stop_will_work_worker:
  "slide_worker_step s t \<Longrightarrow> stop_will_work s \<Longrightarrow>
     stop_will_work t \<and> log_after s (slide_log t) \<and> slide_worker t \<noteq> S_Exchange
     \<and> steps_to_exit (slide_worker t) < steps_to_exit (slide_worker s)"
  by (induction rule: slide_worker_step.induct)
    (auto simp: stop_will_work_def waiting_for_skip_def worker_round_keeps log_after_def)

lemma stop_will_work_main:
  "slide_main_step s t \<Longrightarrow> stop_will_work s \<Longrightarrow> stop_returned s t"
  by (induction rule: slide_main_step.induct)
    (auto simp: stop_will_work_def stop_returned_def log_after_def)

text \<open>The two threads are never both stuck.\<close>

lemma slide_progress:
  assumes "slide_inv s"
  shows "\<exists>t. slide_step s t"
proof (cases "slide_worker s")
  case S_None
  then show ?thesis using assms start [of s] by (auto simp: slide_inv_def slide_step_def)
next
  case S_Drain
  then show ?thesis using drain [of s] drained [of s] unfolding slide_step_def by blast
next
  case S_Exchange
  then show ?thesis using exchange [OF S_Exchange refl] unfolding slide_step_def by blast
next
  case (S_Fetch m)
  then show ?thesis using round [OF S_Fetch failing_round_possible] unfolding slide_step_def by blast
next
  case S_Wait
  then show ?thesis using time_out [of s] wake [of s] unfolding slide_step_def by blast
next
  case S_Woken
  then show ?thesis using woken_stop [of s] woken_go [of s] unfolding slide_step_def by blast
next
  case S_Exited
  then show ?thesis using assms stop_post [of s] stop_join [of s]
    unfolding slide_inv_def slide_step_def by blast
qed

lemma stop_path:
  assumes "stop_will_work (path 0)" and "\<forall>i < n. slide_step (path i) (path (Suc i))"
    and "steps_to_exit (slide_worker (path 0)) < n"
  shows "\<exists>i \<le> n. stop_returned (path 0) (path i)"
  using assms
proof (induction n arbitrary: path)
  case (Suc n)
  have "slide_step (path 0) (path 1)" using Suc.prems(2) by simp
  then consider "slide_worker_step (path 0) (path 1)" | "slide_main_step (path 0) (path 1)"
    unfolding slide_step_def by blast
  then show ?case
  proof cases
    case 1
    note w = stop_will_work_worker [OF 1 Suc.prems(1)]
    have "\<exists>i \<le> n. stop_returned (path (Suc 0)) (path (Suc i))"
      using Suc.IH [of "\<lambda>i. path (Suc i)"] w Suc.prems(2,3) by simp
    then obtain i where i: "i \<le> n" "stop_returned (path 1) (path (Suc i))" by auto
    with w have "stop_returned (path 0) (path (Suc i))" by (auto simp: stop_returned_def log_after_def)
    with i(1) show ?thesis by (intro exI [of _ "Suc i"]) simp
  next
    case 2
    then show ?thesis using stop_will_work_main [OF 2 Suc.prems(1)] by (intro exI [of _ 1]) simp
  qed
qed simp

text \<open>
  C19. A stop whose post the worker's wait can still take ends the worker promptly. From such a
  state every run of the two threads returns from \<^verbatim>\<open>slideshow_stop\<close> within five steps, with the
  worker gone and at most the fetch it was already about to make, and no run can get stuck. That is
  so wherever the worker is when the stop is posted, except while it drains the semaphore.
\<close>

theorem slideshow_stop_returns:
  assumes "fresh_slides sl" and "slide_reachable sl s" and "slide_main s = M_Stop_Flagged"
    and "slide_worker s \<noteq> S_Drain"
    and "path 0 = s\<lparr>slides := (slides s)\<lparr>wake_sem := wake_sem (slides s) + 1\<rparr>, slide_main := M_Joining\<rparr>"
    and "\<forall>i < 5. slide_step (path i) (path (Suc i))"
  shows "(\<exists>i \<le> 5. stop_returned s (path i))
    \<and> (\<forall>t. rtranclp slide_step (path 0) t \<longrightarrow> (\<exists>u. slide_step t u))"
proof -
  have inv: "slide_inv s" by (rule slide_inv_reachable [OF assms(1,2)])
  then have "slide_worker s \<noteq> S_None" using assms(3) by (auto simp: slide_inv_def)
  then have work: "stop_will_work (path 0)"
    using inv assms(3,4) unfolding assms(5) stop_will_work_def waiting_for_skip_def slide_inv_def
    by (cases "slide_worker s") auto
  have "steps_to_exit (slide_worker (path 0)) < 5" by (cases "slide_worker (path 0)") auto
  from stop_path [OF work assms(6) this] obtain i where "i \<le> 5" "stop_returned (path 0) (path i)" by blast
  then have "\<exists>i \<le> 5. stop_returned s (path i)" unfolding assms(5) by (auto simp: stop_returned_def log_after_def)
  moreover have "\<exists>u. slide_step t u" if "rtranclp slide_step (path 0) t" for t
  proof -
    have "slide_step s (path 0)" using stop_post [OF assms(3)] unfolding assms(5) slide_step_def by blast
    then have "slide_reachable sl t"
      using assms(2) that unfolding slide_reachable_def by (meson rtranclp.rtrancl_into_rtrancl rtranclp_trans)
    then show ?thesis using slide_progress slide_inv_reachable [OF assms(1)] by blast
  qed
  ultimately show ?thesis by blast
qed

definition stop_is_lost :: "slide_sys \<Rightarrow> bool" where
  "stop_is_lost s \<longleftrightarrow> slide_main s = M_Joining
     \<and> (slide_worker s = S_Drain
        \<or> wake_sem (slides s) = 0 \<and> slide_worker s \<noteq> S_Woken \<and> slide_worker s \<noteq> S_Exited)"

lemma stop_is_lost_worker: "slide_worker_step s t \<Longrightarrow> stop_is_lost s \<Longrightarrow> stop_is_lost t"
  by (induction rule: slide_worker_step.induct) (auto simp: stop_is_lost_def worker_round_keeps)

lemma stop_is_lost_main: "slide_main_step s t \<Longrightarrow> stop_is_lost s \<Longrightarrow> stop_is_lost t"
  by (induction rule: slide_main_step.induct) (auto simp: stop_is_lost_def)

lemma stop_is_lost_run:
  assumes "stop_is_lost s" and "rtranclp slide_step s t"
  shows "stop_is_lost t"
  using assms(2,1)
  by (induction rule: rtranclp_induct)
    (auto simp: slide_step_def dest: stop_is_lost_worker stop_is_lost_main)

text \<open>
  A stop that is posted while the worker drains the semaphore at the top of its loop is
  lost: the drain swallows the post, the stop flag is read only after a wait that a post ends,
  and \<^verbatim>\<open>slideshow_stop\<close> waits in the join for ever, with the whole D-Bus loop behind it.
\<close>

theorem slideshow_stop_lost_while_draining:
  assumes "fresh_slides sl" and "slide_reachable sl s" and "slide_main s = M_Joining"
    and "slide_worker s = S_Drain" and "rtranclp slide_step s t"
  shows "slide_main t = M_Joining \<and> worker_running (slides t)"
proof -
  have "stop_is_lost s" using assms(3,4) by (simp add: stop_is_lost_def)
  from stop_is_lost_run [OF this assms(5)] have lost: "slide_main t = M_Joining"
    by (simp add: stop_is_lost_def)
  have "slide_reachable sl t" using assms(2,5) unfolding slide_reachable_def by (rule rtranclp_trans)
  from slide_inv_reachable [OF assms(1) this] lost show ?thesis by (auto simp: slide_inv_def)
qed

section \<open>A press can be undone\<close>

text \<open>A slideshow that runs: where the threads are, the semaphore, the stop flag, the counter.\<close>

definition running :: "slideshow \<Rightarrow> slide_worker_pc \<Rightarrow> slide_main_pc \<Rightarrow> nat \<Rightarrow> bool \<Rightarrow> i32
    \<Rightarrow> slide_event list \<Rightarrow> slide_sys" where
  "running sl w m sem stop skip l =
     \<lparr>slides = sl\<lparr>worker_running := True, wake_sem := sem, stop_requested := stop, skip_count := skip\<rparr>,
      slide_worker = w, slide_main = m, slide_log = l\<rparr>"

lemma worker_stepI: "slide_worker_step s t' \<Longrightarrow> t' = t \<Longrightarrow> slide_step s t"
  by (simp add: slide_step_def)

lemma main_stepI: "slide_main_step s t' \<Longrightarrow> t' = t \<Longrightarrow> slide_step s t"
  by (simp add: slide_step_def)

lemma run_drained:
  "slide_step (running sl S_Drain m 0 stop skip l) (running sl S_Exchange m 0 stop skip l)"
  by (rule worker_stepI [OF drained]) (simp_all add: running_def)

lemma run_take_none:
  "slide_step (running sl S_Exchange m sem stop 0 l) (running sl (S_Fetch GetPhoto) m sem stop 0 (Fetched GetPhoto # l))"
  by (rule worker_stepI [OF exchange [OF _ refl]]) (simp_all add: running_def)

lemma run_take_prev:
  "slide_step (running sl S_Exchange m sem stop (-1) l)
     (running sl (S_Fetch GetPrevPhoto) m sem stop 0 (Fetched GetPrevPhoto # l))"
  by (rule worker_stepI [OF exchange [OF _ refl]]) (simp_all add: running_def)

lemma run_round:
  "slide_step (running sl (S_Fetch d) m sem stop skip l) (running sl S_Wait m sem stop skip l)"
  by (rule worker_stepI [OF round [OF _ failing_round_possible]]) (simp_all add: running_def)

lemma run_time_out:
  "slide_step (running sl S_Wait m 0 stop skip l) (running sl S_Drain m 0 stop skip (Timed_Out # l))"
  by (rule worker_stepI [OF time_out]) (simp_all add: running_def)

lemma run_wake:
  "slide_step (running sl S_Wait m 1 stop skip l) (running sl S_Woken m 0 stop skip l)"
  by (rule worker_stepI [OF wake]) (simp_all add: running_def)

lemma run_go:
  "slide_step (running sl S_Woken m sem False skip l) (running sl S_Drain m sem False skip l)"
  by (rule worker_stepI [OF woken_go]) (simp_all add: running_def)

lemma run_exit:
  "slide_step (running sl S_Woken m sem True skip l) (running sl S_Exited m sem True skip l)"
  by (rule worker_stepI [OF woken_stop]) (simp_all add: running_def)

lemma run_prev:
  "slide_step (running sl w M_Idle sem stop skip l) (running sl w M_Counted sem stop (skip - 1) (Pressed (-1) # l))"
  by (rule main_stepI [OF prev_count]) (simp_all add: running_def)

lemma run_post:
  "slide_step (running sl w M_Counted sem stop skip l) (running sl w M_Idle (sem + 1) stop skip l)"
  by (rule main_stepI [OF skip_post]) (simp_all add: running_def)

lemma run_flag:
  "slide_step (running sl w M_Idle sem False skip l) (running sl w M_Stop_Flagged sem True skip l)"
  by (rule main_stepI [OF stop_flag]) (simp_all add: running_def)

lemma run_stop_post:
  "slide_step (running sl w M_Stop_Flagged sem stop skip l) (running sl w M_Joining (sem + 1) stop skip l)"
  by (rule main_stepI [OF stop_post]) (simp_all add: running_def)

lemmas running_steps = run_drained run_take_none run_take_prev run_round run_time_out run_wake run_go
  run_exit run_prev run_post run_flag run_stop_post

lemma run_start:
  assumes "fresh_slides sl"
  shows "slide_step (slide_init sl) (running sl S_Drain M_Idle 0 False 0 [Started])"
  by (rule main_stepI [OF start]) (simp_all add: slide_init_def running_def fresh_slides_fields [OF assms])

lemma slide_reachable_step: "slide_reachable sl s \<Longrightarrow> slide_step s t \<Longrightarrow> slide_reachable sl t"
  unfolding slide_reachable_def by (rule rtranclp.rtrancl_into_rtrancl)

lemma slide_reachable_start:
  "fresh_slides sl \<Longrightarrow> slide_reachable sl (running sl S_Drain M_Idle 0 False 0 [Started])"
  using run_start slide_reachable_step [of sl "slide_init sl"] by (simp add: slide_reachable_def)

lemma prev_undone_run:
  assumes "fresh_slides sl"
  shows "slide_reachable sl (running sl (S_Fetch GetPhoto) M_Idle 0 False 0
     [Fetched GetPhoto, Fetched GetPrevPhoto, Pressed (-1), Timed_Out, Fetched GetPhoto, Started])"
proof -
  note go = slide_reachable_step
  have "slide_reachable sl (running sl S_Drain M_Idle 0 False 0 [Timed_Out, Fetched GetPhoto, Started])"
    by (rule go [OF go [OF go [OF go [OF slide_reachable_start [OF assms] run_drained] run_take_none]
          run_round] run_time_out])
  then have "slide_reachable sl (running sl S_Exchange M_Counted 0 False (0 - 1)
      [Pressed (-1), Timed_Out, Fetched GetPhoto, Started])"
    by (rule go [OF go [OF _ run_prev] run_drained])
  then have "slide_reachable sl (running sl (S_Fetch GetPrevPhoto) M_Idle (0 + 1) False 0
      [Fetched GetPrevPhoto, Pressed (-1), Timed_Out, Fetched GetPhoto, Started])"
    unfolding diff_0 by (rule go [OF go [OF _ run_take_prev] run_post])
  then have "slide_reachable sl (running sl S_Wait M_Idle 1 False 0
      [Fetched GetPrevPhoto, Pressed (-1), Timed_Out, Fetched GetPhoto, Started])"
    unfolding add_0 by (rule go [OF _ run_round])
  then show ?thesis
    by (rule go [OF go [OF go [OF go [OF _ run_wake] run_go] run_drained] run_take_none])
qed

text \<open>
  A press of \<^verbatim>\<open>Prev\<close> can be undone at once. The press is counted before it is posted; when
  the worker comes round by itself in between, it takes the count and fetches the previous
  photo, and the post then ends the wait at once: the next photo is fetched although nothing
  was pressed and the transition time did not pass.
\<close>

theorem slideshow_prev_undone:
  assumes "fresh_slides sl"
  shows "\<exists>s h. slide_reachable sl s
    \<and> slide_log s = [Fetched GetPhoto, Fetched GetPrevPhoto, Pressed (-1)] @ Timed_Out # h
    \<and> net_presses h = 0"
  using prev_undone_run [OF assms] by (fastforce simp: running_def)

section \<open>Descriptors and connection\<close>

lemma render_fallback_ok:
  assumes "jpeg_env_ok jenv" and "target_ok (fb_width (fbi s))" and "target_ok (fb_height (fbi s))"
    and "opened \<noteq> Some f"
  shows "\<exists>effs. render_fallback s jenv opened = Some effs \<and> count_list effs (Close f) = 0
    \<and> (\<forall>i m. Show_Photo i \<notin> set effs \<and> Emit_Displaying m \<notin> set effs)"
proof (cases "fallback_image s")
  case None
  then show ?thesis by (simp add: render_fallback_def)
next
  case path: (Some path)
  show ?thesis
  proof (cases opened)
    case None
    then show ?thesis using path by (simp add: render_fallback_def jpeg_load_def)
  next
    case (Some g)
    with assms(4) have "g \<noteq> f" by simp
    from jpeg_load_file_fits [OF assms(1-3) refl, of g] obtain img
      where "jpeg_load_file jenv g (fb_width (fbi s)) (fb_height (fbi s)) = Some (img, [g])" by blast
    with path Some \<open>g \<noteq> f\<close> show ?thesis
      by (auto simp: render_fallback_def jpeg_load_def split: option.splits)
  qed
qed

text \<open>
  Every photo's descriptor is closed twice: the decoder takes ownership of it and closes
  it, whether or not it decodes, and the round closes the same number again at its end, when
  another thread may already have opened a file under it. Otherwise the round does what it
  should: it never leaves a pixel block and announces the photo exactly when it showed one.
\<close>

theorem slideshow_round_closes_twice:
  assumes "fetch_one (fetching env) s = (Some (f, meta), closes, s1)"
    and "jpeg_env_ok (photo_jpeg env)" and "jpeg_env_ok (fallback_jpeg env)"
    and "target_ok (fb_width (fbi s))" and "target_ok (fb_height (fbi s))"
    and "fallback_opened env \<noteq> Some f"
  shows "\<exists>effs. worker_round env s = Some (effs, s1) \<and> count_list effs (Close f) = 2
    \<and> (Emit_Displaying meta \<in> set effs \<longleftrightarrow> (\<exists>i. Show_Photo i \<in> set effs))"
proof -
  have "s1 = s\<lparr>worker_bus := worker_bus s1\<rparr>" by (rule fetch_one_frame [OF assms(1)])
  then have "fbi s1 = fbi (s\<lparr>worker_bus := worker_bus s1\<rparr>)" by metis
  then have fb: "fbi s1 = fbi s" by simp
  have closes: "closes = []" using assms(1) by (auto simp: fetch_one_def Let_def split: prod.splits if_splits)
  have load: "\<exists>img. jpeg_load_fd (photo_jpeg env) (photo_fdopen_ok env) f (fb_width (fbi s1)) (fb_height (fbi s1))
      = Some (img, [f])"
    using jpeg_load_file_fits [OF assms(2,4,5) refl, of f] by (auto simp: jpeg_load_fd_def fb)
  from render_fallback_ok [OF assms(3), of s1 "fallback_opened env" f] assms(4-6)
  obtain fe where fe: "render_fallback s1 (fallback_jpeg env) (fallback_opened env) = Some fe"
    "count_list fe (Close f) = 0" "\<forall>i m. Show_Photo i \<notin> set fe \<and> Emit_Displaying m \<notin> set fe"
    by (auto simp: fb)
  from load obtain img where "jpeg_load_fd (photo_jpeg env) (photo_fdopen_ok env) f
      (fb_width (fbi s1)) (fb_height (fbi s1)) = Some (img, [f])" by blast
  with assms(1) closes fe show ?thesis
    by (cases img) (auto simp: worker_round_def render_fd_def render_meta_def)
qed

fun fetch_all :: "fetch_env list \<Rightarrow> slideshow \<Rightarrow> (fd \<times> string) option list" where
  "fetch_all [] s = []"
| "fetch_all (env # envs) s = (case fetch_one env s of (r, _, s1) \<Rightarrow> r # fetch_all envs s1)"

definition null_bus_refused :: "fetch_env \<Rightarrow> bool" where
  "null_bus_refused env \<longleftrightarrow> (\<forall>n. call_result env False n < 0 \<and> call_result env False n \<noteq> - ENOTCONN)"

lemma fetch_without_bus:
  assumes "\<not> worker_bus s" and "null_bus_refused env"
  shows "fetch_one env s = (None, [], s)"
  using assms by (simp add: fetch_one_def null_bus_refused_def)

lemma fetch_all_without_bus:
  "\<not> worker_bus s \<Longrightarrow> \<forall>env \<in> set envs. null_bus_refused env \<Longrightarrow> fetch_all envs s = replicate (length envs) None"
  by (induction envs) (simp_all add: fetch_without_bus)

text \<open>
  One failed reconnection ends the slideshow for good. When the worker's connection drops
  and cannot be reopened at once, the null pointer stays: the bus library refuses a call on it
  with an error other than \<^verbatim>\<open>ENOTCONN\<close>, so no later fetch tries to reconnect and every one fails.
\<close>

theorem slideshow_bus_never_recovers:
  assumes "call_result env (worker_bus s) 0 = - ENOTCONN" and "\<not> reconnect_ok env"
    and "\<forall>e \<in> set envs. null_bus_refused e"
  shows "fetch_all (env # envs) s = replicate (Suc (length envs)) None"
proof -
  have "fetch_one env s = (None, [], s\<lparr>worker_bus := False\<rparr>)"
    using assms(1,2) by (simp add: fetch_one_def connect_worker_bus_def)
  then show ?thesis using fetch_all_without_bus [of "s\<lparr>worker_bus := False\<rparr>" envs] assms(3) by simp
qed

section \<open>A concrete slideshow\<close>

definition slides_example :: slideshow where
  "slides_example =
     \<lparr>fbi = \<lparr>fb_width = 1024, fb_height = 600, fb_stride = 4096, fb_format = 0x34325258, fb_size = 2457600\<rparr>, compose_buf_size = 2457600,
      transition_time_s = 30, rot = ROT_90, want_w = 600, want_h = 1024, show_qr = True,
      worker_bus = True, worker_running = False, wake_sem = 0, stop_requested = False, skip_count = 0,
      has_eink_meta = False, fallback_image = None\<rparr>"

definition setup_example :: setup_env where
  "setup_example = \<lparr>struct_ok = True, compose_ok = True, sem_ok = True, bus_ok = True, eink_ok = False,
     startup_jpeg = jpeg_example, startup_opened = None, size_call = 0, qr_call = 0\<rparr>"

lemma slides_example_init:
  "slideshow_init \<lparr>fb_width = 1024, fb_height = 600, fb_stride = 4096, fb_format = 0x34325258, fb_size = 2457600\<rparr> 30 90 True True (Some []) setup_example
     = Some (Some slides_example, [], [SetTargetSize 600 1024, SetEmbedQr True])"
  by (simp add: slideshow_init_def rotation_of_def setup_example_def slides_example_def render_fallback_def
      push_initial_config_def Let_def)

lemma slides_example_fresh: "fresh_slides slides_example"
  unfolding fresh_slides_def using slides_example_init by blast

theorem slideshow_presses_honoured_witness:
  "slide_reachable slides_example (running slides_example (S_Fetch GetPhoto) M_Idle 0 False 0
      [Fetched GetPhoto, Fetched GetPrevPhoto, Pressed (-1), Timed_Out, Fetched GetPhoto, Started])
    \<and> (GetPrevPhoto = GetPrevPhoto \<longleftrightarrow> net_presses [Pressed (-1), Timed_Out, Fetched GetPhoto, Started] < 0)"
proof (rule conjI)
  let ?log = "[Fetched GetPhoto, Fetched GetPrevPhoto, Pressed (-1), Timed_Out, Fetched GetPhoto, Started]"
  let ?s = "running slides_example (S_Fetch GetPhoto) M_Idle 0 False 0 ?log"
  show r: "slide_reachable slides_example ?s" by (rule prev_undone_run [OF slides_example_fresh])
  have "slide_log ?s = [Fetched GetPhoto] @ Fetched GetPrevPhoto # [Pressed (-1), Timed_Out, Fetched GetPhoto, Started]"
    by (simp add: running_def)
  moreover have "\<bar>net_presses [Pressed (-1), Timed_Out, Fetched GetPhoto, Started]\<bar> < 2 ^ 31" by simp
  ultimately show "GetPrevPhoto = GetPrevPhoto \<longleftrightarrow> net_presses [Pressed (-1), Timed_Out, Fetched GetPhoto, Started] < 0"
    using slideshow_presses_honoured [OF slides_example_fresh r] by blast
qed

lemma stop_flagged_waiting:
  "slide_reachable slides_example (running slides_example S_Wait M_Stop_Flagged 0 True 0 [Fetched GetPhoto, Started])"
  by (rule slide_reachable_step [OF slide_reachable_step [OF slide_reachable_step [OF slide_reachable_step
      [OF slide_reachable_start [OF slides_example_fresh] run_drained] run_take_none] run_round] run_flag])

text \<open>The worker waits, is woken, exits; the join returns; then the slideshow is started again.\<close>

definition stop_run :: "nat \<Rightarrow> slide_sys" where
  "stop_run i =
     (let l = [Fetched GetPhoto, Started];
          stopped = (slide_init slides_example)\<lparr>slide_log := Stopped # l\<rparr>
      in if i = 0 then running slides_example S_Wait M_Joining 1 True 0 l
         else if i = 1 then running slides_example S_Woken M_Joining 0 True 0 l
         else if i = 2 then running slides_example S_Exited M_Joining 0 True 0 l
         else if i = 3 then stopped
         else if i = 4 then running slides_example S_Drain M_Idle 0 False 0 (Started # Stopped # l)
         else running slides_example S_Exchange M_Idle 0 False 0 (Started # Stopped # l))"

lemma stop_run_steps: "i < 5 \<Longrightarrow> slide_step (stop_run i) (stop_run (Suc i))"
proof -
  let ?l = "[Fetched GetPhoto, Started]"
  assume "i < 5"
  then consider "i = 0" | "i = 1" | "i = 2" | "i = 3" | "i = 4" by linarith
  then show ?thesis
  proof cases
    case 1
    then show ?thesis using run_wake by (simp add: stop_run_def)
  next
    case 2
    then show ?thesis using run_exit by (simp add: stop_run_def)
  next
    case 3
    then show ?thesis
      by (intro main_stepI [OF stop_join])
        (simp_all add: stop_run_def running_def slide_init_def slides_example_def)
  next
    case 4
    then show ?thesis
      by (intro main_stepI [OF start])
        (simp_all add: stop_run_def running_def slide_init_def slides_example_def)
  next
    case 5
    then show ?thesis using run_drained by (simp add: stop_run_def)
  qed
qed

theorem slideshow_stop_returns_witness:
  "\<exists>i \<le> 5. stop_returned (running slides_example S_Wait M_Stop_Flagged 0 True 0 [Fetched GetPhoto, Started]) (stop_run i)"
proof -
  let ?s = "running slides_example S_Wait M_Stop_Flagged 0 True 0 [Fetched GetPhoto, Started]"
  have "slide_main ?s = M_Stop_Flagged" "slide_worker ?s \<noteq> S_Drain" by (simp_all add: running_def)
  moreover have "stop_run 0 = ?s\<lparr>slides := (slides ?s)\<lparr>wake_sem := wake_sem (slides ?s) + 1\<rparr>, slide_main := M_Joining\<rparr>"
    by (simp add: stop_run_def running_def)
  ultimately show ?thesis
    using slideshow_stop_returns [OF slides_example_fresh stop_flagged_waiting] stop_run_steps by blast
qed

lemma stop_posted_draining:
  "slide_reachable slides_example (running slides_example S_Drain M_Joining (0 + 1) True 0 [Started])"
  by (rule slide_reachable_step [OF slide_reachable_step
      [OF slide_reachable_start [OF slides_example_fresh] run_flag] run_stop_post])

theorem slideshow_stop_lost_while_draining_witness:
  "\<exists>s. slide_reachable slides_example s \<and> slide_main s = M_Joining
     \<and> (\<forall>t. rtranclp slide_step s t \<longrightarrow> slide_main t = M_Joining)"
  using slideshow_stop_lost_while_draining [OF slides_example_fresh stop_posted_draining]
    stop_posted_draining
  by (intro exI [of _ "running slides_example S_Drain M_Joining (0 + 1) True 0 [Started]"])
    (simp add: running_def)

theorem slideshow_prev_undone_witness:
  "\<exists>s h. slide_reachable slides_example s
     \<and> slide_log s = [Fetched GetPhoto, Fetched GetPrevPhoto, Pressed (-1)] @ Timed_Out # h \<and> net_presses h = 0"
  by (rule slideshow_prev_undone [OF slides_example_fresh])

definition round_example :: round_env where
  "round_example =
     \<lparr>fetching = \<lparr>call_result = (\<lambda>b n. if b then 1 else -22), reconnect_ok = False, read_result = 1,
                  dup_result = 9, seek_result = 0, reply_meta = Some ''{}''\<rparr>,
      photo_fdopen_ok = True, photo_jpeg = jpeg_example, fallback_opened = None,
      fallback_jpeg = jpeg_example\<rparr>"

theorem slideshow_round_closes_twice_witness:
  "\<exists>effs. worker_round round_example slides_example = Some (effs, slides_example) \<and> count_list effs (Close 9) = 2"
proof -
  have f: "fetch_one (fetching round_example) slides_example = (Some (9, ''{}''), [], slides_example)"
    by (simp add: fetch_one_def round_example_def ENOTCONN_def slides_example_def)
  have j: "jpeg_env_ok (photo_jpeg round_example)" "jpeg_env_ok (fallback_jpeg round_example)"
    using jpeg_example_ok by (simp_all add: round_example_def)
  have t: "target_ok (fb_width (fbi slides_example))" "target_ok (fb_height (fbi slides_example))"
    by (simp_all add: target_ok_def slides_example_def)
  have "fallback_opened round_example \<noteq> Some 9" by (simp add: round_example_def)
  from slideshow_round_closes_twice [OF f j t this] show ?thesis by blast
qed

theorem slideshow_bus_never_recovers_witness:
  "fetch_all
     [(fetching round_example)\<lparr>call_result := (\<lambda>_ _. - ENOTCONN)\<rparr>, fetching round_example, fetching round_example]
     slides_example = [None, None, None]"
proof -
  let ?e = "(fetching round_example)\<lparr>call_result := (\<lambda>_ _. - ENOTCONN)\<rparr>"
  have "call_result ?e (worker_bus slides_example) 0 = - ENOTCONN" "\<not> reconnect_ok ?e"
    "\<forall>e \<in> set [fetching round_example, fetching round_example]. null_bus_refused e"
    by (simp_all add: round_example_def null_bus_refused_def ENOTCONN_def)
  from slideshow_bus_never_recovers [OF this] show ?thesis by simp
qed

end
