(* ===== verification/Text_Layout.thy ===== *)
theory Text_Layout
  imports Prelude Complex_Main
begin

text \<open>
  Word wrapping of the text shown on the e-ink panel (\<^verbatim>\<open>lib/eink/cairo_helpers.c\<close>). Cairo is not
  part of the repository: the extents it reports for a text under the selected font are the
  parameter \<open>text_font\<close>. A text is its characters without the terminating NUL, and a read
  beyond that NUL is the value \<open>Overrun\<close>.
\<close>

section \<open>The code\<close>

record text_font =
  ext_width :: "string \<Rightarrow> real"
  ext_height :: "string \<Rightarrow> real"
  surface_width :: int

datatype overrun = Overrun

definition MARGIN :: int where
  "MARGIN = 5"

definition isspace :: "char \<Rightarrow> bool" where
  "isspace ch \<longleftrightarrow> ch = CHR '' '' \<or> (9 \<le> (of_char ch :: nat) \<and> (of_char ch :: nat) \<le> 13)"

text \<open>\<open>text[i]\<close>.\<close>

definition text_char :: "string \<Rightarrow> nat \<Rightarrow> char option" where
  "text_char t i = (if i < length t then Some (t ! i) else if i = length t then Some (CHR 0x00) else None)"

text \<open>What \<open>strncpy\<close> copies into the buffer of \<open>fits\<close> and \<open>cairo_println\<close>.\<close>

definition line_of :: "string \<Rightarrow> nat \<Rightarrow> nat \<Rightarrow> string" where
  "line_of t i f = take (f - i) (drop i t)"

definition max_width :: "text_font \<Rightarrow> size_t" where
  "max_width c = of_int (surface_width c - MARGIN)"

definition fits :: "text_font \<Rightarrow> string \<Rightarrow> nat \<Rightarrow> nat \<Rightarrow> bool" where
  "fits c t i f \<longleftrightarrow> ext_width c (line_of t i f) \<le> real (unat (max_width c))"

definition get_ln_height :: "text_font \<Rightarrow> real" where
  "get_ln_height c = ext_height c ''HOLA''"

definition cairo_println :: "real \<Rightarrow> string \<Rightarrow> nat \<Rightarrow> nat \<Rightarrow> real \<times> real \<times> string" where
  "cairo_println y t i f = (of_int MARGIN, y, line_of t i f)"

text \<open>The inner loop: on to the next blank or the end.\<close>

function word_end :: "string \<Rightarrow> nat \<Rightarrow> nat" where
  "word_end t i = (if i < length t \<and> \<not> isspace (t ! i) then word_end t (Suc i) else i)"
  by pat_completeness auto
termination by (relation "measure (\<lambda>(t, i). length t - i)") auto

declare word_end.simps [simp del]

text \<open>
  The outer loop, over the positions \<open>ln_start\<close>, \<open>prev_space_pos\<close>, \<open>next_space_pos\<close> and the
  lines printed so far.
\<close>

partial_function (option) wrap_loop ::
  "text_font \<Rightarrow> string \<Rightarrow> nat \<Rightarrow> nat \<Rightarrow> nat \<Rightarrow> (nat \<times> nat) list \<Rightarrow> (overrun + (nat \<times> nat) list) option" where
  "wrap_loop c t ln_start prev_space next_space out =
     (case text_char t next_space of
        None \<Rightarrow> Some (Inl Overrun)
      | Some ch \<Rightarrow>
          if ch = CHR 0x00 then Some (Inr out)
          else
            let e = word_end t next_space
            in if fits c t ln_start e
               then if e < length t
                    then wrap_loop c t ln_start e (e + 1) out
                    else wrap_loop c t ln_start prev_space e (out @ [(ln_start, e)])
               else
                 let b = (if prev_space = ln_start then e else prev_space)
                 in wrap_loop c t (b + 1) (b + 1) (b + 1) (out @ [(ln_start, b)]))"

text \<open>The lines with the places where they are drawn; the code returns how many there are.\<close>

definition cairo_render_text ::
  "text_font \<Rightarrow> string \<Rightarrow> nat \<Rightarrow> (overrun + (real \<times> real \<times> string) list) option" where
  "cairo_render_text c text ln_offset =
     (let t = c_string text;
          ln_height = get_ln_height c + of_int MARGIN
      in map_option (map_sum id
           (\<lambda>out. map (\<lambda>(k, i, f). cairo_println (real (k + ln_offset) * ln_height) t i f) (enumerate 0 out)))
         (wrap_loop c t 0 0 0 []))"

section \<open>Blanks and words\<close>

definition no_blank_inside :: "string \<Rightarrow> nat \<Rightarrow> nat \<Rightarrow> bool" where
  "no_blank_inside t i f \<longleftrightarrow> (\<forall>k. i < k \<and> k < f \<longrightarrow> \<not> isspace (t ! k))"

lemma word_end_bounds: "i \<le> length t \<Longrightarrow> i \<le> word_end t i \<and> word_end t i \<le> length t"
proof (induction t i rule: word_end.induct)
  case (1 t i)
  then show ?case
    by (cases "i < length t \<and> \<not> isspace (t ! i)") (auto simp: word_end.simps [of t i])
qed

lemma word_end_nonblank: "i \<le> k \<Longrightarrow> k < word_end t i \<Longrightarrow> \<not> isspace (t ! k)"
proof (induction t i rule: word_end.induct)
  case (1 t i)
  then show ?case
    by (cases "i < length t \<and> \<not> isspace (t ! i)"; cases "k = i")
      (auto simp: word_end.simps [of t i])
qed

lemma word_end_blank: "word_end t i < length t \<Longrightarrow> isspace (t ! word_end t i)"
proof (induction t i rule: word_end.induct)
  case (1 t i)
  then show ?case
    by (cases "i < length t \<and> \<not> isspace (t ! i)") (auto simp: word_end.simps [of t i])
qed

lemma not_isspace_NUL [simp]: "\<not> isspace (CHR 0x00)"
  by (simp add: isspace_def)

lemma text_char_inside: "i < length t \<Longrightarrow> text_char t i = Some (t ! i)"
  by (simp add: text_char_def)

lemma text_char_end [simp]: "text_char t (length t) = Some (CHR 0x00)"
  by (simp add: text_char_def)

lemma wrap_loop_end: "wrap_loop c t ls p (length t) out = Some (Inr out)"
  by (subst wrap_loop.simps) simp

lemma wrap_loop_beyond: "length t < n \<Longrightarrow> wrap_loop c t ls p n out = Some (Inl Overrun)"
  by (subst wrap_loop.simps) (simp add: text_char_def)

section \<open>The lines printed\<close>

text \<open>
  A finished line ends at a blank; it fits, or no blank could have broken it; and with one more
  word it would not have fitted.
\<close>

definition line_ok :: "text_font \<Rightarrow> string \<Rightarrow> nat \<times> nat \<Rightarrow> bool" where
  "line_ok c t s \<longleftrightarrow>
     (let (i, f) = s
      in i \<le> f \<and> f < length t \<and> isspace (t ! f) \<and> (fits c t i f \<or> no_blank_inside t i f) \<and>
         (fits c t i f \<longrightarrow> \<not> fits c t i (word_end t (Suc f))))"

definition lines_chained :: "(nat \<times> nat) list \<Rightarrow> nat \<Rightarrow> bool" where
  "lines_chained out ls \<longleftrightarrow> map fst out @ [ls] = 0 # map (Suc \<circ> snd) out"

lemma lines_chained_Nil [simp]: "lines_chained [] ls \<longleftrightarrow> ls = 0"
  by (simp add: lines_chained_def)

lemma lines_chained_snoc:
  "lines_chained (out @ [(i, f)]) ls \<longleftrightarrow> lines_chained out i \<and> ls = Suc f"
  by (auto simp: lines_chained_def)

definition wrap_inv :: "text_font \<Rightarrow> string \<Rightarrow> nat \<Rightarrow> nat \<Rightarrow> nat \<Rightarrow> (nat \<times> nat) list \<Rightarrow> bool" where
  "wrap_inv c t ls p n out \<longleftrightarrow>
     ls \<le> p \<and> p \<le> length t \<and>
     (n = p \<and> p = ls \<or> n = Suc p \<and> p < length t \<and> isspace (t ! p) \<and> fits c t ls p) \<and>
     lines_chained out ls \<and> (\<forall>s\<in>set out. line_ok c t s)"

text \<open>How the loop may end: past the NUL, with every line printed, or stopped by a last blank.\<close>

fun wrap_post :: "text_font \<Rightarrow> string \<Rightarrow> overrun + (nat \<times> nat) list \<Rightarrow> bool" where
  "wrap_post c t (Inl _) = (\<exists>i<length t. no_blank_inside t i (length t) \<and> \<not> fits c t i (length t))"
| "wrap_post c t (Inr out) =
     (t = [] \<and> out = [] \<or> t \<noteq> [] \<and> isspace (last t) \<or>
      (\<exists>out0 ls. out = out0 @ [(ls, length t)] \<and> ls \<le> length t \<and> lines_chained out0 ls \<and>
         fits c t ls (length t) \<and> (\<forall>s\<in>set out0. line_ok c t s)))"



lemma wrap_post_beyond:
  assumes "wrap_inv c t ls ls n out" "n < length t" "word_end t n = length t"
    and "\<not> fits c t ls (length t)"
  shows "wrap_post c t (Inl Overrun)"
proof -
  have "ls < length t" using assms(1,2) by (auto simp: wrap_inv_def)
  moreover have "no_blank_inside t ls (length t)"
    using assms(1,3) word_end_nonblank [of n _ t]
    by (auto simp: wrap_inv_def no_blank_inside_def)
  ultimately show ?thesis using assms(4) by auto
qed

lemma wrap_inv_fits:
  assumes "wrap_inv c t ls p n out" "n < length t" "fits c t ls (word_end t n)"
    and "word_end t n < length t"
  shows "wrap_inv c t ls (word_end t n) (Suc (word_end t n)) out"
  using assms word_end_bounds [of n t] word_end_blank [of t n]
  by (auto simp: wrap_inv_def)

lemma wrap_inv_break_word:
  assumes "wrap_inv c t ls ls n out" "n < length t" "\<not> fits c t ls (word_end t n)"
    and "word_end t n < length t"
  defines "e \<equiv> word_end t n"
  shows "wrap_inv c t (Suc e) (Suc e) (Suc e) (out @ [(ls, e)])"
proof -
  have "no_blank_inside t ls e"
    using assms(1) word_end_nonblank [of n _ t] unfolding e_def
    by (auto simp: wrap_inv_def no_blank_inside_def)
  then show ?thesis
    using assms(1-4) word_end_bounds [of n t] word_end_blank [of t n] unfolding e_def
    by (auto simp: wrap_inv_def lines_chained_snoc line_ok_def)
qed

lemma wrap_inv_break_line:
  assumes "wrap_inv c t ls p n out" "p \<noteq> ls" "\<not> fits c t ls (word_end t n)"
  shows "wrap_inv c t (Suc p) (Suc p) (Suc p) (out @ [(ls, p)])"
  using assms by (auto simp: wrap_inv_def lines_chained_snoc line_ok_def)

lemma wrap_inv_end_blank:
  assumes "wrap_inv c t ls p (length t) out" "t \<noteq> []"
  shows "isspace (last t)"
proof (cases "p = length t")
  case True
  then have "ls = length t" using assms(1) by (auto simp: wrap_inv_def)
  then obtain out0 i f where out: "out = out0 @ [(i, f)]"
    using assms by (cases out rule: rev_cases) (auto simp: wrap_inv_def)
  then have "line_ok c t (i, f)" "length t = Suc f"
    using assms(1) \<open>ls = length t\<close> by (auto simp: wrap_inv_def lines_chained_snoc)
  then show ?thesis by (auto simp: line_ok_def last_conv_nth assms(2))
next
  case False
  then have "length t = Suc p" "isspace (t ! p)" using assms(1) by (auto simp: wrap_inv_def)
  then show ?thesis by (simp add: last_conv_nth assms(2))
qed

lemma wrap_loop_result:
  assumes "CHR 0x00 \<notin> set t" "wrap_inv c t ls p n out"
  shows "\<exists>r. wrap_loop c t ls p n out = Some r \<and> wrap_post c t r"
  using assms(2)
proof (induction "(length t - ls, length t - n)" arbitrary: ls p n out
    rule: wf_induct_rule [OF wf_lex_prod [OF wf_less_than wf_less_than]])
  case 1
  note inv = 1(2)
  then have "n \<le> length t" by (auto simp: wrap_inv_def)
  show ?case
  proof (cases "n = length t")
    case True
    then have "wrap_loop c t ls p n out = Some (Inr out)" by (simp add: wrap_loop_end)
    moreover have "wrap_post c t (Inr out)"
    proof (cases "t = []")
      case True
      then show ?thesis using inv by (cases out) (auto simp: wrap_inv_def line_ok_def)
    next
      case False
      then show ?thesis using wrap_inv_end_blank inv \<open>n = length t\<close> by auto
    qed
    ultimately show ?thesis by blast
  next
    case False
    with \<open>n \<le> length t\<close> have n: "n < length t" by simp
    then have ch: "text_char t n = Some (t ! n)" "t ! n \<noteq> CHR 0x00"
      using assms(1) by (auto simp: text_char_inside) (metis nth_mem)
    define e where "e = word_end t n"
    have e: "n \<le> e" "e \<le> length t" using n word_end_bounds [of n t] by (auto simp: e_def)
    have ls: "ls \<le> n" "ls < length t" using inv n by (auto simp: wrap_inv_def)
    consider (goes_on) "fits c t ls e" "e < length t" | (last) "fits c t ls e" "e = length t"
      | (beyond) "\<not> fits c t ls e" "p = ls" "e = length t"
      | (word) "\<not> fits c t ls e" "p = ls" "e < length t" | (line) "\<not> fits c t ls e" "p \<noteq> ls"
      using e(2) by linarith
    then show ?thesis
    proof cases
      case goes_on
      have "wrap_loop c t ls p n out = wrap_loop c t ls e (Suc e) out"
        by (subst wrap_loop.simps) (simp add: ch goes_on flip: e_def)
      then show ?thesis
        using 1(1) [of ls "Suc e" e out] wrap_inv_fits [OF inv n] goes_on n e by (auto simp: e_def)
    next
      case last
      have "wrap_loop c t ls p n out = Some (Inr (out @ [(ls, length t)]))"
        using last by (subst wrap_loop.simps) (simp add: ch Let_def wrap_loop_end flip: e_def)
      moreover have "wrap_post c t (Inr (out @ [(ls, length t)]))"
        using inv last by (auto simp: wrap_inv_def)
      ultimately show ?thesis by blast
    next
      case beyond
      have "wrap_loop c t ls p n out = Some (Inl Overrun)"
        using beyond by (subst wrap_loop.simps) (simp add: ch Let_def wrap_loop_beyond flip: e_def)
      then show ?thesis using wrap_post_beyond [of c t ls n out] inv n beyond by (auto simp: e_def)
    next
      case word
      have "wrap_loop c t ls p n out = wrap_loop c t (Suc e) (Suc e) (Suc e) (out @ [(ls, e)])"
        by (subst wrap_loop.simps) (simp add: ch word flip: e_def)
      moreover have "length t - Suc e < length t - ls" using ls e word by linarith
      ultimately show ?thesis
        using 1(1) [of "Suc e" "Suc e" "Suc e" "out @ [(ls, e)]"] wrap_inv_break_word [of c t ls n out] inv n word e ls
        by (auto simp: e_def)
    next
      case line
      have "wrap_loop c t ls p n out = wrap_loop c t (Suc p) (Suc p) (Suc p) (out @ [(ls, p)])"
        by (subst wrap_loop.simps) (simp add: ch line flip: e_def)
      moreover have "ls < p" using inv line by (auto simp: wrap_inv_def)
      moreover have "length t - Suc p < length t - ls" using ls \<open>ls < p\<close> by linarith
      ultimately show ?thesis
        using 1(1) [of "Suc p" "Suc p" "Suc p" "out @ [(ls, p)]"] wrap_inv_break_line [OF inv] line ls
        by (auto simp: e_def)
    qed
  qed
qed


section \<open>The lines as texts\<close>

definition blank_of :: "char \<Rightarrow> char" where
  "blank_of ch = (if isspace ch then CHR '' '' else ch)"

fun join_lines :: "string list \<Rightarrow> string" where
  "join_lines [] = []"
| "join_lines [l] = map blank_of l"
| "join_lines (l # ls) = map blank_of l @ CHR '' '' # join_lines ls"

lemma join_lines_snoc:
  "ls \<noteq> [] \<Longrightarrow> join_lines (ls @ [l]) = join_lines ls @ CHR '' '' # map blank_of l"
  by (induction ls rule: join_lines.induct) auto

text \<open>What is wanted of two lines that follow each other: the second did not fit on the first.\<close>

definition too_wide :: "text_font \<Rightarrow> string \<Rightarrow> bool" where
  "too_wide c l \<longleftrightarrow> real (unat (max_width c)) < ext_width c l"

definition greedy_break :: "text_font \<Rightarrow> string \<Rightarrow> string \<Rightarrow> bool" where
  "greedy_break c l m \<longleftrightarrow>
     too_wide c l \<or> (\<exists>b. isspace b \<and> too_wide c (l @ b # takeWhile (\<lambda>ch. \<not> isspace ch) m))"

abbreviation texts_of :: "string \<Rightarrow> (nat \<times> nat) list \<Rightarrow> string list" where
  "texts_of t \<equiv> map (\<lambda>(i, f). line_of t i f)"

lemma line_of_split:
  assumes "i \<le> f" "f \<le> g"
  shows "line_of t i g = line_of t i f @ line_of t f g"
proof -
  have "g - i = (f - i) + (g - f)" using assms by simp
  then have "line_of t i g = take (f - i) (drop i t) @ take (g - f) (drop (f - i) (drop i t))"
    unfolding line_of_def by (simp only: take_add)
  then show ?thesis using assms by (simp add: line_of_def)
qed

lemma lines_joined:
  assumes "lines_chained out i" "\<forall>s\<in>set out. line_ok c t s" "out \<noteq> []" "t' = map blank_of t"
  shows "i \<le> length t \<and> join_lines (texts_of t out) @ [CHR '' ''] = take i t'"
  using assms(1-3)
proof (induction out arbitrary: i rule: rev_induct)
  case (snoc s out)
  obtain j f where s: "s = (j, f)" by (cases s)
  have f: "j \<le> f" "f < length t" "isspace (t ! f)" "i = Suc f"
    using snoc.prems by (auto simp: s line_ok_def lines_chained_snoc)
  have l: "map blank_of (line_of t j f) = drop j (take f t')"
    by (simp add: line_of_def assms(4) drop_take drop_map take_map)
  have b: "take (Suc f) t' = take f t' @ [CHR '' '']"
    using f by (simp add: take_Suc_conv_app_nth assms(4) blank_of_def)
  show ?case
  proof (cases "out = []")
    case True
    then show ?thesis using snoc.prems f l b by (simp add: s lines_chained_def)
  next
    case False
    then have "join_lines (texts_of t out) @ [CHR '' ''] = take j t'"
      using snoc.IH [of j] snoc.prems by (simp add: s lines_chained_snoc)
    then have "join_lines (texts_of t (out @ [s])) = take j t' @ drop j (take f t')"
      using False l by (simp add: s join_lines_snoc)
    moreover have "take j t' @ drop j (take f t') = take f t'"
      using append_take_drop_id [of j "take f t'"] f(1) by simp
    ultimately show ?thesis using f b by (simp add: s)
  qed
qed simp


lemma word_end_takeWhile:
  "i \<le> length t \<Longrightarrow> line_of t i (word_end t i) = takeWhile (\<lambda>ch. \<not> isspace ch) (drop i t)"
proof (induction t i rule: word_end.induct)
  case (1 t i)
  show ?case
  proof (cases "i < length t \<and> \<not> isspace (t ! i)")
    case True
    then have "line_of t i (word_end t i) = t ! i # line_of t (Suc i) (word_end t (Suc i))"
      using word_end_bounds [of "Suc i" t]
      by (simp add: line_of_def word_end.simps [of t i] take_Cons' Cons_nth_drop_Suc [symmetric])
    then show ?thesis using True 1 by (simp flip: Cons_nth_drop_Suc)
  next
    case False
    then show ?thesis using "1.prems"
      by (cases "i < length t") (auto simp: line_of_def word_end.simps [of t i] simp flip: Cons_nth_drop_Suc)
  qed
qed

lemma first_word_of_line:
  assumes "i \<le> length t" "word_end t i \<le> g" "g \<le> length t"
  shows "takeWhile (\<lambda>ch. \<not> isspace ch) (line_of t i g) = line_of t i (word_end t i)"
proof -
  have e: "i \<le> word_end t i" "word_end t i \<le> length t" using word_end_bounds assms(1) by auto
  have all: "\<forall>ch\<in>set (line_of t i (word_end t i)). \<not> isspace ch"
    using word_end_takeWhile [OF assms(1)] by (auto dest: set_takeWhileD)
  have "line_of t i g = line_of t i (word_end t i) @ line_of t (word_end t i) g"
    using line_of_split e(1) assms(2) by blast
  moreover have "takeWhile (\<lambda>ch. \<not> isspace ch) (line_of t (word_end t i) g) = []"
  proof (cases "word_end t i < g")
    case True
    then have "isspace (t ! word_end t i)" using word_end_blank assms(3) by simp
    then show ?thesis using True assms(3)
      by (cases "g - word_end t i") (simp_all add: line_of_def Cons_nth_drop_Suc [symmetric])
  qed (simp add: line_of_def)
  ultimately show ?thesis using all by (simp add: takeWhile_append2)
qed


lemma line_ok_greedy:
  assumes "line_ok c t (i, f)" "word_end t (Suc f) \<le> g" "g \<le> length t"
  shows "greedy_break c (line_of t i f) (line_of t (Suc f) g)"
proof (cases "fits c t i f")
  case True
  have f: "i \<le> f" "f < length t" "isspace (t ! f)" "\<not> fits c t i (word_end t (Suc f))"
    using assms(1) True by (auto simp: line_ok_def)
  have e: "Suc f \<le> word_end t (Suc f)" using word_end_bounds [of "Suc f" t] f(2) by auto
  have "line_of t i (word_end t (Suc f)) = line_of t i f @ line_of t f (word_end t (Suc f))"
    by (rule line_of_split) (use f e in auto)
  moreover have "line_of t f (word_end t (Suc f))
      = line_of t f (Suc f) @ line_of t (Suc f) (word_end t (Suc f))"
    by (rule line_of_split) (use e in auto)
  moreover have "line_of t f (Suc f) = [t ! f]"
    using f(2) by (simp add: line_of_def take_Suc_conv_app_nth)
  ultimately have "line_of t i (word_end t (Suc f))
      = line_of t i f @ t ! f # takeWhile (\<lambda>ch. \<not> isspace ch) (line_of t (Suc f) g)"
    using first_word_of_line [of "Suc f" t g] assms(2,3) f(2) by simp
  then show ?thesis using f(3,4) by (auto simp: greedy_break_def too_wide_def fits_def not_le)
qed (auto simp: greedy_break_def too_wide_def fits_def)

lemma line_ok_word_end: "line_ok c t (j, g) \<Longrightarrow> word_end t j \<le> g"
  using word_end_nonblank [of j g t] by (fastforce simp: line_ok_def not_le)

lemma lines_greedy:
  assumes "lines_chained out i" "\<forall>s\<in>set out. line_ok c t s" "i \<le> length t"
    and "Suc k < length (out @ [(i, length t)])"
  defines "ls \<equiv> texts_of t (out @ [(i, length t)])"
  shows "greedy_break c (ls ! k) (ls ! Suc k)"
proof -
  let ?out = "out @ [(i, length t)]"
  obtain j f where s: "out ! k = (j, f)" by (cases "out ! k")
  obtain j' g where s': "?out ! Suc k = (j', g)" by (cases "?out ! Suc k")
  have k: "k < length out" using assms(4) by simp
  then have ok: "line_ok c t (j, f)" using assms(2) s by (metis nth_mem)
  have "map fst ?out ! Suc k = map (Suc \<circ> snd) out ! k"
    using assms(1) by (simp add: lines_chained_def)
  then have j': "j' = Suc f"
    using k s s' assms(4) by (simp add: nth_map del: map_append)
  have "word_end t j' \<le> g \<and> g \<le> length t"
  proof (cases "Suc k < length out")
    case True
    then have "line_ok c t (j', g)" using assms(2) s' by (metis nth_append nth_mem)
    then show ?thesis using line_ok_word_end by (auto simp: line_ok_def)
  next
    case False
    then have "(j', g) = (i, length t)" using s' k by (simp add: nth_append)
    then show ?thesis using assms(3) word_end_bounds by auto
  qed
  then show ?thesis
    using line_ok_greedy [OF ok] k s s' j' by (simp add: ls_def nth_append split: if_splits)
qed

definition drawn_lines :: "text_font \<Rightarrow> nat \<Rightarrow> string list \<Rightarrow> (real \<times> real \<times> string) list" where
  "drawn_lines c off ls =
     map (\<lambda>(k, l). (5, real (k + off) * (ext_height c ''HOLA'' + 5), l)) (enumerate 0 ls)"

lemma enumerate_map2: "enumerate n (map f xs) = map (\<lambda>(k, x). (k, f x)) (enumerate n xs)"
  by (induction xs arbitrary: n) auto

lemma cairo_render_text_drawn:
  "wrap_loop c (c_string text) 0 0 0 [] = Some (Inr out) \<Longrightarrow>
     cairo_render_text c text off = Some (Inr (drawn_lines c off (texts_of (c_string text) out)))"
  by (auto simp: cairo_render_text_def Let_def drawn_lines_def enumerate_map2 cairo_println_def
      get_ln_height_def MARGIN_def)

lemma NUL_notin_c_string [simp]: "CHR 0x00 \<notin> set (c_string s)"
  by (auto simp: c_string_def dest: set_takeWhileD)

lemma wrap_inv_start: "wrap_inv c t 0 0 0 []"
  by (simp add: wrap_inv_def)

lemma tl_line_of: "f \<le> length t \<Longrightarrow> no_blank_inside t i f \<Longrightarrow> ch \<in> set (tl (line_of t i f)) \<Longrightarrow> \<not> isspace ch"
  by (auto simp: in_set_conv_nth nth_tl line_of_def no_blank_inside_def)

lemma line_ok_width:
  "line_ok c t (i, f) \<Longrightarrow>
     \<not> too_wide c (line_of t i f) \<or> (\<forall>ch\<in>set (tl (line_of t i f)). \<not> isspace ch)"
  using tl_line_of [of f t i] by (auto simp: line_ok_def too_wide_def fits_def)

text \<open>The condition under which the code stays inside the text.\<close>

definition tail_fits :: "text_font \<Rightarrow> string \<Rightarrow> bool" where
  "tail_fits c t \<longleftrightarrow> (\<forall>i<length t. no_blank_inside t i (length t) \<longrightarrow> fits c t i (length t))"

lemma cairo_render_text_returns:
  assumes "tail_fits c (c_string msg)"
  shows "\<exists>ls. cairo_render_text c msg off = Some (Inr (drawn_lines c off ls))"
proof -
  obtain r where r: "wrap_loop c (c_string msg) 0 0 0 [] = Some r" "wrap_post c (c_string msg) r"
    using wrap_loop_result [OF _ wrap_inv_start, of "c_string msg" c] by auto
  then obtain out where "r = Inr out" using assms by (cases r) (auto simp: tail_fits_def)
  then show ?thesis using cairo_render_text_drawn r(1) by blast
qed

text \<open>
  C26. The text is laid out. Let the text be neither empty nor end in a blank, and let every end of
  it that has no blank after its first character fit the width of the surface: the last word, its
  ends, and the last word together with the blank before it (for \<^verbatim>\<open>aaaa  bbbb\<close> on a surface where only
  the bare word fits, the code reads past the end of the text). Then the function returns without
  reading past the end of the text; the lines drawn, one line height apart, are the text cut at blanks,
  nothing lost or doubled; a line wider than the surface has no blank it could be cut at; and no
  line ends while the next word still fits.
\<close>

theorem text_laid_out:
  fixes msg :: string
  defines "t \<equiv> c_string msg"
  assumes "t \<noteq> []" "\<not> isspace (last t)"
    and "tail_fits c t"
  shows "\<exists>ls. cairo_render_text c msg off = Some (Inr (drawn_lines c off ls)) \<and>
      join_lines ls = map blank_of t \<and>
      (\<forall>l\<in>set ls. \<not> too_wide c l \<or> (\<forall>ch\<in>set (tl l). \<not> isspace ch)) \<and>
      (\<forall>k. Suc k < length ls \<longrightarrow> greedy_break c (ls ! k) (ls ! Suc k))"
proof -
  obtain r where r: "wrap_loop c t 0 0 0 [] = Some r" "wrap_post c t r"
    using wrap_loop_result [OF _ wrap_inv_start, of t c] by (auto simp: t_def)
  then obtain out i where out: "r = Inr (out @ [(i, length t)])" "i \<le> length t" "lines_chained out i"
      "fits c t i (length t)" "\<forall>s\<in>set out. line_ok c t s"
    using assms(2-4) by (cases r) (auto simp: tail_fits_def)
  let ?ls = "texts_of t (out @ [(i, length t)])"
  have "join_lines ?ls = map blank_of t"
  proof (cases "out = []")
    case True
    then show ?thesis using out(3) by (simp add: line_of_def)
  next
    case False
    have "join_lines ?ls = (join_lines (texts_of t out) @ [CHR '' '']) @ map blank_of (line_of t i (length t))"
      using False by (simp add: join_lines_snoc)
    also have "\<dots> = take i (map blank_of t) @ drop i (map blank_of t)"
      using lines_joined [OF out(3,5) False refl] by (simp only: line_of_def) (simp add: drop_map)
    finally have "join_lines ?ls = take i (map blank_of t) @ drop i (map blank_of t)" .
    then show ?thesis by simp
  qed
  moreover have "\<forall>l\<in>set ?ls. \<not> too_wide c l \<or> (\<forall>ch\<in>set (tl l). \<not> isspace ch)"
  proof
    fix l assume "l \<in> set ?ls"
    then consider "l = line_of t i (length t)" | j f where "l = line_of t j f" "line_ok c t (j, f)"
      using out(5) by auto
    then show "\<not> too_wide c l \<or> (\<forall>ch\<in>set (tl l). \<not> isspace ch)"
      using out(4) line_ok_width by cases (auto simp: fits_def too_wide_def)
  qed
  moreover have "\<forall>k. Suc k < length ?ls \<longrightarrow> greedy_break c (?ls ! k) (?ls ! Suc k)"
    using lines_greedy [OF out(3,5,2)] by simp
  ultimately show ?thesis
    using cairo_render_text_drawn [of c msg] r(1) out(1) by (metis t_def)
qed


text \<open>A font ten units wide and twelve high on the panel, for the concrete instances.\<close>

definition mono_font :: "int \<Rightarrow> text_font" where
  "mono_font w = \<lparr>ext_width = (\<lambda>s. 10 * real (length s)), ext_height = (\<lambda>_. 12), surface_width = w\<rparr>"

text \<open>That the bare last word fits is not enough.\<close>

lemma two_blanks_overrun:
  "fits (mono_font 45) ''bbbb'' 0 4" "cairo_render_text (mono_font 45) ''aaaa  bbbb'' 1 = Some (Inl Overrun)"
proof -
  let ?t = "''aaaa  bbbb''" and ?c = "mono_font 45"
  have e: "word_end ?t 0 = 4" "word_end ?t 5 = 5" "word_end ?t 6 = 10" by code_simp+
  have f: "fits ?c ?t 0 4" "\<not> fits ?c ?t 0 5" "fits ?c ?t 5 5" "\<not> fits ?c ?t 5 10" "fits ?c ''bbbb'' 0 4"
    by (simp_all add: fits_def mono_font_def line_of_def max_width_def MARGIN_def)
  have ch: "text_char ?t 0 = Some (CHR ''a'')" "text_char ?t 5 = Some (CHR '' '')" "text_char ?t 6 = Some (CHR ''b'')"
    by (simp_all add: text_char_def)
  have "wrap_loop ?c ?t 0 0 0 [] = wrap_loop ?c ?t 0 4 5 []" using e f ch by (subst wrap_loop.simps) (simp add: Let_def)
  also have "\<dots> = wrap_loop ?c ?t 5 5 5 [(0, 4)]" using e f ch by (subst wrap_loop.simps) (simp add: Let_def)
  also have "\<dots> = wrap_loop ?c ?t 5 5 6 [(0, 4)]" using e f ch by (subst wrap_loop.simps) (simp add: Let_def)
  also have "\<dots> = wrap_loop ?c ?t 11 11 11 [(0, 4), (5, 10)]" using e f ch by (subst wrap_loop.simps) (simp add: Let_def)
  also have "\<dots> = Some (Inl Overrun)" by (rule wrap_loop_beyond) simp
  finally show "cairo_render_text ?c ?t 1 = Some (Inl Overrun)" by (simp add: cairo_render_text_def c_string_def)
  show "fits ?c ''bbbb'' 0 4" by (rule f(5))
qed

theorem text_laid_out_witness:
  "\<exists>ls. cairo_render_text (mono_font 105) ''Tallinn, 2019'' 1
      = Some (Inr (drawn_lines (mono_font 105) 1 ls)) \<and> join_lines ls = ''Tallinn, 2019''"
proof -
  let ?t = "''Tallinn, 2019''"
  have t: "c_string ?t = ?t" by (simp add: c_string_def)
  have "map blank_of ?t = ?t" by (simp add: blank_of_def isspace_def)
  moreover have "tail_fits (mono_font 105) ?t"
    unfolding tail_fits_def
  proof (intro allI impI)
    fix i assume i: "i < length ?t" "no_blank_inside ?t i (length ?t)"
    have "isspace (?t ! 8)" by (simp add: isspace_def)
    then have "8 \<le> i" using i(2) by (auto simp: no_blank_inside_def not_le)
    then show "fits (mono_font 105) ?t i (length ?t)" using i(1)
      by (simp add: fits_def mono_font_def line_of_def max_width_def MARGIN_def)
  qed
  moreover have "\<not> isspace (last ?t)" by (simp add: isspace_def)
  ultimately show ?thesis
    using text_laid_out [of ?t "mono_font 105" 1] unfolding t by fastforce
qed

section \<open>Where the layout goes wrong\<close>

text \<open>
  A single word too wide for the surface makes the code read beyond the NUL that ends the
  text: the position after it becomes the next one to look at.
\<close>

lemma overrun_single_word:
  assumes "CHR 0x00 \<notin> set w" "w \<noteq> []" "\<forall>ch\<in>set w. \<not> isspace ch" "too_wide c w"
  shows "cairo_render_text c w off = Some (Inl Overrun)"
proof -
  have w: "c_string w = w" using assms(1) by (auto simp: c_string_def takeWhile_eq_all_conv)
  have e: "word_end w 0 = length w"
  proof (rule ccontr)
    assume "word_end w 0 \<noteq> length w"
    then have "word_end w 0 < length w" using word_end_bounds [of 0 w] by simp
    then show False using word_end_blank [of w 0] assms(3) nth_mem by blast
  qed
  have NUL: "w ! 0 \<noteq> CHR 0x00" using assms(1,2) by (metis length_greater_0_conv nth_mem)
  have "wrap_loop c w 0 0 0 [] = Some (Inl Overrun)"
    using assms(2,4) NUL
    by (subst wrap_loop.simps)
      (simp add: text_char_inside Let_def e wrap_loop_beyond fits_def line_of_def too_wide_def)
  then show ?thesis by (simp add: cairo_render_text_def w)
qed

text \<open>A text that ends in a blank and would fit on one line is not printed at all.\<close>

lemma wrap_loop_trailing_blank:
  assumes "\<forall>e. fits c t 0 e" "CHR 0x00 \<notin> set t" "isspace (last t)" "n \<le> length t" "t \<noteq> []"
  shows "wrap_loop c t 0 p n [] = Some (Inr [])"
  using assms(4)
proof (induction "length t - n" arbitrary: p n rule: less_induct)
  case less
  show ?case
  proof (cases "n = length t")
    case False
    then have n: "n < length t" using less.prems by simp
    then have ch: "text_char t n = Some (t ! n)" "t ! n \<noteq> CHR 0x00"
      using assms(2) by (auto simp: text_char_inside) (metis nth_mem)
    have e: "n \<le> word_end t n" "word_end t n \<le> length t" using n word_end_bounds [of n t] by auto
    have "word_end t n \<noteq> length t"
    proof
      assume "word_end t n = length t"
      then have "\<not> isspace (t ! (length t - 1))" using word_end_nonblank [of n "length t - 1" t] n by linarith
      then show False using assms(3,5) by (simp add: last_conv_nth)
    qed
    then have e': "word_end t n < length t" using e by simp
    have "wrap_loop c t 0 p n [] = wrap_loop c t 0 (word_end t n) (Suc (word_end t n)) []"
      using e' assms(1) by (subst wrap_loop.simps) (simp add: ch Let_def)
    then show ?thesis using less.hyps [of "Suc (word_end t n)"] e e' n by simp
  qed (simp add: wrap_loop_end)
qed

lemma text_trailing_blank_lost:
  assumes "\<forall>e. \<not> too_wide c (take e (c_string msg))" "isspace (last (c_string msg))" "c_string msg \<noteq> []"
  shows "cairo_render_text c msg off = Some (Inr [])"
proof -
  have "\<forall>e. fits c (c_string msg) 0 e" using assms(1) by (auto simp: fits_def line_of_def too_wide_def not_less)
  then have "wrap_loop c (c_string msg) 0 0 0 [] = Some (Inr [])"
    using wrap_loop_trailing_blank assms(2,3) by simp
  then show ?thesis by (simp add: cairo_render_text_def)
qed

end
