(* ===== verification/Ambience.thy ===== *)
theory Ambience
  imports Slideshow Text_Layout
begin

text \<open>
  The rest of the ambience service: the display controller that follows the occupancy signals
  and the forced overrides (\<^verbatim>\<open>ambience/display.c\<close>), the watch on a bus name
  (\<^verbatim>\<open>dbus_helpers.c\<close>), the D-Bus methods (\<^verbatim>\<open>dbus.c\<close>), the configuration (\<^verbatim>\<open>config.c\<close>), and
  the callbacks that tie them to the slideshow, with the announcement drawn over the next photo
  (\<^verbatim>\<open>main.c\<close>). Results of D-Bus calls are inputs of the operations.
\<close>

section \<open>Display controller\<close>

record display =
  occupied :: bool
  distance :: int
  force_off_latched :: bool
  requested_state :: int

datatype panel_effect = Call_On | Call_Off | Turned_On | Turned_Off

definition display_calloc :: display where
  "display_calloc = \<lparr>occupied = False, distance = 0, force_off_latched = False, requested_state = 0\<rparr>"

definition display_free :: "panel_effect list" where
  "display_free = [Call_Off]"

text \<open>A failed subscription frees the controller, which switches the panel off.\<close>

definition display_init :: "bool \<Rightarrow> int \<Rightarrow> display option \<times> panel_effect list" where
  "display_init alloc_ok match_result =
     (if \<not> alloc_ok then (None, [])
      else if match_result < 0 then (None, display_free)
      else (Some display_calloc, []))"

definition update_display_state :: "display \<Rightarrow> int \<Rightarrow> display \<times> panel_effect list" where
  "update_display_state d r =
     (if occupied d \<and> requested_state d = 1 then (d, [])
      else if \<not> occupied d \<and> requested_state d = 0 then (d, [])
      else
        let call = (if occupied d then Call_On else Call_Off) in
        if r < 0 then (d\<lparr>requested_state := -1\<rparr>, [call])
        else (d\<lparr>requested_state := (if occupied d then 1 else 0)\<rparr>,
              [call, if occupied d then Turned_On else Turned_Off]))"

text \<open>\<open>rd\<close> is what reading the signal's arguments returned.\<close>

definition on_occupancy_state_changed :: "display \<Rightarrow> int \<Rightarrow> int \<Rightarrow> u32 \<Rightarrow> int \<Rightarrow> display \<times> panel_effect list" where
  "on_occupancy_state_changed d rd occupied_raw dst r =
     (if rd < 0 then (d, [])
      else
        let occ = occupied_raw \<noteq> 0 in
        if force_off_latched d \<and> occ then (d, [])
        else
          let d1 = (if \<not> occ then d\<lparr>force_off_latched := False\<rparr> else d)
          in update_display_state (d1\<lparr>occupied := occ, distance := sint dst\<rparr>) r)"

definition on_occupancy_name_owner_changed :: "display \<Rightarrow> bool \<Rightarrow> int \<Rightarrow> display \<times> panel_effect list" where
  "on_occupancy_name_owner_changed d up r =
     (if up then (d, [])
      else update_display_state (d\<lparr>force_off_latched := False, occupied := False, distance := 0\<rparr>) r)"

definition display_force_on :: "display \<Rightarrow> int \<Rightarrow> display \<times> panel_effect list" where
  "display_force_on d r =
     update_display_state (d\<lparr>force_off_latched := False, occupied := True, distance := 0\<rparr>) r"

definition display_force_off :: "display \<Rightarrow> int \<Rightarrow> display \<times> panel_effect list" where
  "display_force_off d r =
     update_display_state (d\<lparr>force_off_latched := True, occupied := False, distance := 0\<rparr>) r"

section \<open>Watching a bus name\<close>

text \<open>\<^verbatim>\<open>service_updown_trampoline\<close>: what the callback is told, if it is called.\<close>

definition service_updown_trampoline :: "int \<Rightarrow> string \<Rightarrow> string \<Rightarrow> bool option" where
  "service_updown_trampoline rd old_owner new_owner =
     (if rd < 0 then None
      else if new_owner = [] then Some False
      else if old_owner = [] then Some True
      else None)"

definition is_service_up :: "int \<Rightarrow> bool" where
  "is_service_up r = (\<not> r < 0)"

definition updown_match :: "string \<Rightarrow> string" where
  "updown_match svc =
     take 255 (''type='' @ [CHR 0x27] @ ''signal'' @ [CHR 0x27] @ '',sender='' @ [CHR 0x27]
       @ ''org.freedesktop.DBus'' @ [CHR 0x27] @ '',interface='' @ [CHR 0x27] @ ''org.freedesktop.DBus''
       @ [CHR 0x27] @ '',member='' @ [CHR 0x27] @ ''NameOwnerChanged'' @ [CHR 0x27] @ '',arg0=''
       @ [CHR 0x27] @ svc @ [CHR 0x27])"

section \<open>The service\<close>

text \<open>\<open>active_signals\<close> are the \<^verbatim>\<open>SlideshowActive\<close> signals sent, the latest first.\<close>

record ambience_ctx =
  panel :: display
  slideshow_on :: bool
  active_signals :: "bool list"
  announcement_pending :: bool
  announcement :: "string option"

text \<open>The two callbacks; \<open>thread_ok\<close> is whether the worker thread could be created.\<close>

definition on_display_turned_on :: "bool \<Rightarrow> ambience_ctx \<Rightarrow> ambience_ctx" where
  "on_display_turned_on thread_ok c =
     c\<lparr>slideshow_on := slideshow_on c \<or> thread_ok, active_signals := True # active_signals c\<rparr>"

definition on_display_turned_off :: "ambience_ctx \<Rightarrow> ambience_ctx" where
  "on_display_turned_off c = c\<lparr>slideshow_on := False, active_signals := False # active_signals c\<rparr>"

fun run_effects :: "bool \<Rightarrow> panel_effect list \<Rightarrow> ambience_ctx \<Rightarrow> ambience_ctx" where
  "run_effects thread_ok [] c = c"
| "run_effects thread_ok (Turned_On # es) c = run_effects thread_ok es (on_display_turned_on thread_ok c)"
| "run_effects thread_ok (Turned_Off # es) c = run_effects thread_ok es (on_display_turned_off c)"
| "run_effects thread_ok (_ # es) c = run_effects thread_ok es c"

text \<open>What reaches the main thread and moves the display.\<close>

datatype display_event =
    Bad_Report
  | Report bool u32
  | Service_Changed bool
  | Force_On
  | Force_Off

record outcome =
  call_rc :: int
  thread_created :: bool

definition display_event_step :: "display \<Rightarrow> display_event \<Rightarrow> int \<Rightarrow> display \<times> panel_effect list" where
  "display_event_step d e r =
     (case e of
        Bad_Report \<Rightarrow> on_occupancy_state_changed d (-1) 0 0 r
      | Report occ dst \<Rightarrow> on_occupancy_state_changed d 1 (if occ then 1 else 0) dst r
      | Service_Changed up \<Rightarrow> on_occupancy_name_owner_changed d up r
      | Force_On \<Rightarrow> display_force_on d r
      | Force_Off \<Rightarrow> display_force_off d r)"

definition ambience_display_step :: "ambience_ctx \<Rightarrow> display_event \<times> outcome \<Rightarrow> ambience_ctx" where
  "ambience_display_step c eo =
     (case eo of (e, out) \<Rightarrow>
        case display_event_step (panel c) e (call_rc out) of (d, effs) \<Rightarrow>
          run_effects (thread_created out) effs (c\<lparr>panel := d\<rparr>))"

definition ambience_start :: ambience_ctx where
  "ambience_start = \<lparr>panel = display_calloc, slideshow_on = False, active_signals = [],
     announcement_pending = False, announcement = None\<rparr>"

definition ambience_run :: "(display_event \<times> outcome) list \<Rightarrow> ambience_ctx" where
  "ambience_run evs = foldl ambience_display_step ambience_start evs"

section \<open>The display follows the policy\<close>

text \<open>
  The policy, over the history of events with the latest first. Reports of presence do not
  decide by themselves: the latest other event does. After a forced off nothing but that event
  counts; after a forced on the display is wanted; after a report of absence or the loss of the
  sensor service (or at the start) it is wanted as soon as presence was reported since.
\<close>

definition counts :: "display_event \<Rightarrow> bool" where
  "counts e \<longleftrightarrow> e \<noteq> Bad_Report \<and> e \<noteq> Service_Changed True"

definition presence :: "display_event \<Rightarrow> bool" where
  "presence e \<longleftrightarrow> (\<exists>dst. e = Report True dst)"

definition decider :: "display_event list \<Rightarrow> display_event option" where
  "decider h = find (\<lambda>e. counts e \<and> \<not> presence e) h"

definition presence_since :: "display_event list \<Rightarrow> bool" where
  "presence_since h \<longleftrightarrow> (\<exists>e \<in> set (takeWhile (\<lambda>e. \<not> (counts e \<and> \<not> presence e)) h). presence e)"

definition display_wanted :: "display_event list \<Rightarrow> bool" where
  "display_wanted h \<longleftrightarrow>
     decider h = Some Force_On \<or> (decider h \<noteq> Some Force_Off \<and> presence_since h)"

definition heeded :: "display_event list \<Rightarrow> display_event \<Rightarrow> bool" where
  "heeded h e \<longleftrightarrow> counts e \<and> \<not> (presence e \<and> decider h = Some Force_Off)"

lemma policy_simps:
  "decider (e # h) = (if counts e \<and> \<not> presence e then Some e else decider h)"
  "presence_since (e # h) = (if counts e \<and> \<not> presence e then False else presence e \<or> presence_since h)"
  "presence_since [] = False" "decider [] = None"
  by (auto simp: decider_def presence_since_def)

definition follows :: "display_event list \<Rightarrow> ambience_ctx \<Rightarrow> bool" where
  "follows h c \<longleftrightarrow>
     occupied (panel c) = display_wanted h
     \<and> force_off_latched (panel c) = (decider h = Some Force_Off)
     \<and> (requested_state (panel c) = -1
        \<or> requested_state (panel c) = (if display_wanted h then 1 else 0)
          \<and> slideshow_on c = display_wanted h)"

definition in_step :: "display_event list \<Rightarrow> ambience_ctx \<Rightarrow> bool" where
  "in_step h c \<longleftrightarrow> requested_state (panel c) = (if display_wanted h then 1 else 0) \<and> slideshow_on c = display_wanted h"

lemma update_keeps:
  "update_display_state d r = (d', es) \<Longrightarrow>
     occupied d' = occupied d \<and> force_off_latched d' = force_off_latched d"
  by (auto simp: update_display_state_def Let_def split: if_splits)

lemma update_follows:
  assumes "update_display_state d (call_rc out) = (d', es)" and "thread_created out"
    and "requested_state d = -1 \<or> requested_state d = (if slideshow_on c then 1 else 0)"
  shows "(requested_state d' = -1
      \<or> requested_state d' = (if occupied d then 1 else 0)
        \<and> slideshow_on (run_effects (thread_created out) es (c\<lparr>panel := x\<rparr>)) = occupied d)
    \<and> (0 \<le> call_rc out \<longrightarrow> requested_state d' = (if occupied d then 1 else 0))
    \<and> panel (run_effects (thread_created out) es (c\<lparr>panel := x\<rparr>)) = x"
  using assms
  by (auto simp: update_display_state_def Let_def on_display_turned_on_def on_display_turned_off_def
      split: if_splits)

lemma heeded_updates:
  assumes "follows h c" and "heeded h e"
  shows "\<exists>d. (\<forall>r. display_event_step (panel c) e r = update_display_state d r)
      \<and> occupied d = display_wanted (e # h) \<and> force_off_latched d = (decider (e # h) = Some Force_Off)
      \<and> requested_state d = requested_state (panel c)"
proof (cases e)
  case (Report occ dst)
  note policy = display_wanted_def policy_simps counts_def presence_def heeded_def
  have "\<not> (occ \<and> force_off_latched (panel c))" using assms Report by (auto simp: follows_def policy)
  with Report assms(1) show ?thesis
    by (intro exI [of _ "(if occ then panel c else (panel c)\<lparr>force_off_latched := False\<rparr>)
          \<lparr>occupied := occ, distance := sint dst\<rparr>"])
      (auto simp: display_event_step_def on_occupancy_state_changed_def follows_def policy)
qed (use assms in \<open>auto simp: display_event_step_def on_occupancy_name_owner_changed_def display_force_on_def
    display_force_off_def display_wanted_def policy_simps counts_def presence_def heeded_def intro!: exI\<close>)

lemma ignored_event:
  assumes "follows h c" and "\<not> heeded h e"
  shows "display_event_step (panel c) e r = (panel c, [])"
  using assms
  by (cases e) (auto simp: display_event_step_def on_occupancy_state_changed_def on_occupancy_name_owner_changed_def
      follows_def heeded_def counts_def presence_def)

lemma display_step_follows:
  assumes "follows h c" and "thread_created out"
  shows "follows (e # h) (ambience_display_step c (e, out))
    \<and> (0 \<le> call_rc out \<and> heeded h e \<longrightarrow> in_step (e # h) (ambience_display_step c (e, out)))
    \<and> (\<not> heeded h e \<longrightarrow> ambience_display_step c (e, out) = c)"
proof -
  have rs: "requested_state (panel c) = -1 \<or> requested_state (panel c) = (if slideshow_on c then 1 else 0)"
    using assms(1) by (auto simp: follows_def split: if_splits)
  have upd: "follows (e # h) (ambience_display_step c (e, out))
      \<and> (0 \<le> call_rc out \<longrightarrow> in_step (e # h) (ambience_display_step c (e, out)))"
    if "display_event_step (panel c) e (call_rc out) = update_display_state d (call_rc out)"
      and "occupied d = display_wanted (e # h)" and "force_off_latched d = (decider (e # h) = Some Force_Off)"
      and "requested_state d = requested_state (panel c)" for d
  proof -
    obtain d' es where u: "update_display_state d (call_rc out) = (d', es)" by fastforce
    from that(4) rs have "requested_state d = -1 \<or> requested_state d = (if slideshow_on c then 1 else 0)" by simp
    note f = update_follows [OF u assms(2) this, of d']
    have s: "ambience_display_step c (e, out) = run_effects (thread_created out) es (c\<lparr>panel := d'\<rparr>)"
      using that(1) u by (simp add: ambience_display_step_def)
    show ?thesis using f update_keeps [OF u] that(2,3) unfolding s follows_def in_step_def
      by (auto split: if_splits)
  qed
  note policy = display_wanted_def policy_simps counts_def presence_def heeded_def
  have keep: "follows (e # h) c" if "\<not> heeded h e"
    using assms(1) that by (auto simp: follows_def policy)
  show ?thesis
  proof (cases "heeded h e")
    case False
    then have "ambience_display_step c (e, out) = c"
      using ignored_event [OF assms(1)] by (simp add: ambience_display_step_def)
    with keep [OF False] False show ?thesis by simp
  next
    case True
    from upd heeded_updates [OF assms(1) True] True show ?thesis by blast
  qed
qed

lemma ambience_run_snoc: "ambience_run (evs @ [eo]) = ambience_display_step (ambience_run evs) eo"
  by (simp add: ambience_run_def)

lemma ambience_run_follows:
  assumes "\<forall>eo \<in> set evs. thread_created (snd eo)"
  shows "follows (rev (map fst evs)) (ambience_run evs)
    \<and> ((\<forall>eo \<in> set evs. 0 \<le> call_rc (snd eo)) \<longrightarrow> in_step (rev (map fst evs)) (ambience_run evs))"
  using assms
proof (induction evs rule: rev_induct)
  case Nil
  then show ?case
    by (simp add: ambience_run_def ambience_start_def display_calloc_def follows_def in_step_def
        display_wanted_def policy_simps)
next
  case (snoc eo evs)
  let ?h = "rev (map fst evs)"
  have IH: "follows ?h (ambience_run evs)"
    "(\<forall>eo \<in> set evs. 0 \<le> call_rc (snd eo)) \<Longrightarrow> in_step ?h (ambience_run evs)"
    using snoc by simp_all
  have s: "follows (fst eo # ?h) (ambience_run (evs @ [eo]))"
    "0 \<le> call_rc (snd eo) \<and> heeded ?h (fst eo) \<Longrightarrow> in_step (fst eo # ?h) (ambience_run (evs @ [eo]))"
    "\<not> heeded ?h (fst eo) \<Longrightarrow> ambience_run (evs @ [eo]) = ambience_run evs"
    using display_step_follows [OF IH(1), of "snd eo" "fst eo"] snoc.prems
    by (simp_all add: ambience_run_snoc)
  have "display_wanted (fst eo # ?h) = display_wanted ?h" if "\<not> heeded ?h (fst eo)"
    using that by (auto simp: heeded_def display_wanted_def policy_simps counts_def presence_def)
  with IH s show ?case by (cases "heeded ?h (fst eo)") (auto simp: in_step_def)
qed

text \<open>
  The panel and the slideshow follow the policy, latch included, as the README describes it. The
  controller's beliefs are what the policy says of the history; an event that counts and whose
  call succeeds brings panel and slideshow in step, also after earlier calls failed; events
  the policy ignores change nothing; and when no call fails, the slideshow is always in step.
\<close>

theorem display_follows_latch:
  assumes "\<forall>eo \<in> set (evs @ [(e, out)]). thread_created (snd eo)" and "h = rev (map fst evs)"
  shows "occupied (panel (ambience_run evs)) = display_wanted h
    \<and> force_off_latched (panel (ambience_run evs)) = (decider h = Some Force_Off)
    \<and> (0 \<le> call_rc out \<and> heeded h e \<longrightarrow> in_step (e # h) (ambience_run (evs @ [(e, out)])))
    \<and> (\<not> heeded h e \<longrightarrow> ambience_run (evs @ [(e, out)]) = ambience_run evs)
    \<and> ((\<forall>eo \<in> set evs. 0 \<le> call_rc (snd eo)) \<longrightarrow> in_step h (ambience_run evs))"
proof -
  have run: "follows h (ambience_run evs)"
    "(\<forall>eo \<in> set evs. 0 \<le> call_rc (snd eo)) \<Longrightarrow> in_step h (ambience_run evs)"
    using ambience_run_follows [of evs] assms by simp_all
  have "thread_created out" using assms(1) by simp
  from display_step_follows [OF run(1) this, of e] run show ?thesis
    by (simp add: ambience_run_snoc follows_def)
qed







section \<open>D-Bus methods and announcements\<close>

definition EINVAL :: int where "EINVAL = 22"
definition EBUSY :: int where "EBUSY = 16"

definition on_announce_requested_cb :: "ambience_ctx \<Rightarrow> u32 \<Rightarrow> string \<Rightarrow> int \<times> ambience_ctx" where
  "on_announce_requested_cb c timeout msg =
     (if timeout \<le> 5 \<or> timeout \<ge> 30 then (- EINVAL, c)
      else if announcement_pending c then (- EBUSY, c)
      else (0, c\<lparr>announcement := Some msg, announcement_pending := True\<rparr>))"

text \<open>The reply: an error number with its message, or success.\<close>

definition method_announce_requested :: "ambience_ctx \<Rightarrow> int \<Rightarrow> u32 \<Rightarrow> string \<Rightarrow> (int \<times> string) option \<times> ambience_ctx" where
  "method_announce_requested c rd timeout msg =
     (if rd < 0 then (Some (rd, []), c)
      else case on_announce_requested_cb c timeout msg of
        (r, c') \<Rightarrow>
          if r < 0
          then (Some (r, if r = - EINVAL then ''invalid timeout''
                         else if r = - EBUSY then ''announcement already active'' else ''unknown error''), c')
          else (None, c'))"

definition method_set_transition_time :: "slideshow \<Rightarrow> int \<Rightarrow> u32 \<Rightarrow> int \<times> slideshow" where
  "method_set_transition_time s rd seconds =
     (if rd < 0 then (rd, s)
      else case slideshow_set_transition_time_s s seconds of
        (ok, s') \<Rightarrow> if ok then (0, s') else (- EINVAL, s'))"

text \<open>
  \<^verbatim>\<open>on_overlay\<close> draws the announcement, if one is pending, and then fills a box in the corner;
  the buffer is a list of pixels, and a write outside it is \<open>None\<close>.
\<close>

fun fill_rows :: "u32 \<Rightarrow> u32 \<Rightarrow> nat \<Rightarrow> nat \<Rightarrow> u32 list \<Rightarrow> u32 list option" where
  "fill_rows stride w y 0 buf = Some buf"
| "fill_rows stride w y (Suc n) buf =
     (case write_bytes buf (unat (of_nat y * stride) div 4) (replicate (unat w) 0x00FF00FF) of
        None \<Rightarrow> None
      | Some buf' \<Rightarrow> fill_rows stride w (Suc y) n buf')"

text \<open>
  What Cairo does for the overlay: whether the surface over the pixels is usable, the extents
  of the announcement's font on it, and what dimming the picture and drawing the lines does to
  the pixels. Reading beyond the text and following its null pointer are \<open>None\<close>.
\<close>

record overlay_env =
  surface_usable :: bool
  overlay_font :: text_font
  paint_text :: "(real \<times> real \<times> string) list \<Rightarrow> u32 list \<Rightarrow> u32 list"

definition draw_announcement :: "overlay_env \<Rightarrow> string option \<Rightarrow> u32 list \<Rightarrow> u32 list option" where
  "draw_announcement env ann buf =
     (if \<not> surface_usable env then Some buf
      else case ann of
        None \<Rightarrow> None
      | Some msg \<Rightarrow>
          (case cairo_render_text (overlay_font env) msg 1 of
             Some (Inr lines) \<Rightarrow> Some (paint_text env lines buf)
           | _ \<Rightarrow> None))"

definition on_overlay :: "ambience_ctx \<Rightarrow> u32 list \<Rightarrow> u32 \<Rightarrow> u32 \<Rightarrow> u32
    \<Rightarrow> overlay_env \<Rightarrow> (u32 list \<times> ambience_ctx) option" where
  "on_overlay c buf width height stride env =
     (case (if announcement_pending c
            then map_option (\<lambda>b. (b, c\<lparr>announcement_pending := False\<rparr>)) (draw_announcement env (announcement c) buf)
            else Some (buf, c)) of
        None \<Rightarrow> None
      | Some (buf1, c1) \<Rightarrow>
          (let w = (if 100 < width then 100 else width);
               h = (if 100 < height then 100 else height)
           in map_option (\<lambda>b. (b, c1)) (fill_rows stride w 0 (unat h) buf1)))"

lemma write_bytes_length: "write_bytes b i xs = Some b' \<Longrightarrow> length b' = length b"
  by (auto simp: write_bytes_def split: if_splits)

lemma fill_rows_fits:
  assumes "unat stride = 4 * k" and "unat w \<le> k" and "(y + n) * (4 * k) < 2 ^ 32" and "(y + n) * k \<le> length buf"
  shows "\<exists>b. fill_rows stride w y n buf = Some b \<and> length b = length buf"
  using assms(3,4)
proof (induction n arbitrary: y buf)
  case (Suc n)
  show ?case
  proof (cases "k = 0")
    case True
    then have "w = 0" using assms(2) by (simp add: unat_eq_zero)
    then have "write_bytes buf (unat (of_nat y * stride) div 4) (replicate (unat w) 0xFF00FF) = Some buf"
      if "unat (of_nat y * stride) = 0" using that by (simp add: write_bytes_def)
    moreover have "stride = 0" using True assms(1) by (simp add: unat_eq_zero)
    ultimately show ?thesis using Suc.IH [of "Suc y" buf] Suc.prems by simp
  next
    case False
    have "y * (4 * k) \<le> (y + Suc n) * (4 * k)" by (rule mult_le_mono1) simp
    with Suc.prems(1) have "y * (4 * k) < 2 ^ 32" by (rule le_less_trans [rotated])
    moreover have "y * 1 \<le> y * (4 * k)" using False by (intro mult_le_mono2) simp
    ultimately have "y * (4 * k) < 2 ^ 32" "y < 2 ^ 32" by linarith+
    then have off: "unat (of_nat y * stride) div 4 = y * k"
      by (simp add: unat_word_ariths unat_of_nat_small assms(1) mult.left_commute)
    have "y * k + unat w \<le> Suc y * k" using assms(2) by simp
    also have "\<dots> \<le> (y + Suc n) * k" by (intro mult_le_mono1) simp
    finally have "y * k + unat w \<le> length buf" using Suc.prems(2) by linarith
    then obtain b where "write_bytes buf (y * k) (replicate (unat w) 0xFF00FF) = Some b"
      by (simp add: write_bytes_def)
    moreover from this have "length b = length buf" by (rule write_bytes_length)
    ultimately show ?thesis using Suc.IH [of "Suc y" b] Suc.prems off by simp
  qed
qed simp

section \<open>An announcement is shown once, and not while it changes\<close>











end
