(* ===== verification/Config_Files.thy ===== *)
theory Config_Files
  imports Ambience Photo_Cache Www_Session
begin

text \<open>
  The configuration loaders of the ambience service, the photo provider and the MQTT bridge
  (their \<^verbatim>\<open>config.c\<close>). json-c is not part of the repository: \<open>json_api\<close> holds its
  conversions of a value, and a parsed file is a look-up of keys. A result \<open>None\<close> is a null
  pointer handed to \<^verbatim>\<open>strncpy\<close>; otherwise the result is \<^verbatim>\<open>-1\<close> or the configuration.
\<close>

section \<open>json-c\<close>

text \<open>A JSON null has no string; numbers are 32-bit integers read with \<open>sint\<close>.\<close>

record 'j json_api =
  get_boolean :: "'j \<Rightarrow> bool"
  get_string :: "'j \<Rightarrow> string option"
  get_int :: "'j \<Rightarrow> i32"

type_synonym 'j json_file = "(string \<Rightarrow> 'j option) option"

definition bool_key :: "'j json_api \<Rightarrow> (string \<Rightarrow> 'j option) \<Rightarrow> string \<Rightarrow> bool \<Rightarrow> bool" where
  "bool_key api get k d = (case get k of None \<Rightarrow> d | Some v \<Rightarrow> get_boolean api v)"

definition u32_key :: "'j json_api \<Rightarrow> (string \<Rightarrow> 'j option) \<Rightarrow> string \<Rightarrow> u32 \<Rightarrow> u32" where
  "u32_key api get k d = (case get k of None \<Rightarrow> d | Some v \<Rightarrow> get_int api v)"

text \<open>A string copied by \<^verbatim>\<open>strncpy\<close> into an array of \<open>n\<close> bytes that keeps its last byte zero.\<close>

definition string_key :: "'j json_api \<Rightarrow> (string \<Rightarrow> 'j option) \<Rightarrow> string \<Rightarrow> nat \<Rightarrow> string \<Rightarrow> string option" where
  "string_key api get k n d =
     (case get k of None \<Rightarrow> Some d | Some v \<Rightarrow> map_option (take (n - 1)) (get_string api v))"

section \<open>The ambience service\<close>

record ambience_config =
  cfg_transition_time_s :: u32
  cfg_rotation :: u32
  cfg_embed_qr :: bool
  cfg_use_eink :: bool
  cfg_fallback_image :: string

text \<open>\<open>readable\<close> is the answer of \<^verbatim>\<open>access\<close>.\<close>

definition ambience_config_load :: "'j json_api \<Rightarrow> (string \<Rightarrow> bool) \<Rightarrow> 'j json_file \<Rightarrow> ambience_config option" where
  "ambience_config_load api readable doc =
     (case doc of
        None \<Rightarrow> None
      | Some get \<Rightarrow>
          let secs = (case get ''transition_time_s'' of
                        None \<Rightarrow> 30
                      | Some v \<Rightarrow> if sint (get_int api v) < 1 then 1 else get_int api v);
              deg = u32_key api get ''rotation'' 0
          in if get ''rotation'' \<noteq> None \<and> deg \<noteq> 0 \<and> deg \<noteq> 90 \<and> deg \<noteq> 180 \<and> deg \<noteq> 270 then None
             else Some
               \<lparr>cfg_transition_time_s = secs, cfg_rotation = deg,
                cfg_embed_qr = bool_key api get ''embed_qr'' False,
                cfg_use_eink = bool_key api get ''use_eink_for_metadata'' False,
                cfg_fallback_image =
                  (case get ''fallback_image'' of
                     None \<Rightarrow> []
                   | Some v \<Rightarrow>
                       (case get_string api v of
                          None \<Rightarrow> []
                        | Some s \<Rightarrow> if s \<noteq> [] \<and> readable s then take 254 s else []))\<rparr>)"

section \<open>The photo provider\<close>

record pp_config =
  server_url :: string
  cfg_target_w :: u32
  cfg_target_h :: u32
  pp_embed_qr :: bool
  cache_depth :: u32
  history_depth :: u32
  cfg_dump_to_disk :: bool
  dump_dir :: string
  cfg_connect_timeout_s :: u32
  cfg_request_timeout_s :: u32

definition pp_config_load :: "'j json_api \<Rightarrow> 'j json_file \<Rightarrow> pp_config option option" where
  "pp_config_load api doc =
     (case doc of
        None \<Rightarrow> Some None
      | Some get \<Rightarrow> do {
          url \<leftarrow> string_key api get ''server_url'' 256 ''http://homeboard.local:8080'';
          dir \<leftarrow> string_key api get ''dump_dir'' 256 ''/tmp/photo-provider'';
          Some (Some
            \<lparr>server_url = url,
             cfg_target_w = u32_key api get ''target_size_w'' 1920,
             cfg_target_h = u32_key api get ''target_size_h'' 1080,
             pp_embed_qr = bool_key api get ''embed_qr'' True,
             cache_depth = (case get ''cache_depth'' of
                              None \<Rightarrow> 2
                            | Some v \<Rightarrow> if sint (get_int api v) < 1 then 1 else get_int api v),
             history_depth = (case get ''history_depth'' of
                                None \<Rightarrow> 8
                              | Some v \<Rightarrow> if sint (get_int api v) < 0 then 0 else get_int api v),
             cfg_dump_to_disk = bool_key api get ''dump_to_disk'' False,
             dump_dir = dir,
             cfg_connect_timeout_s = u32_key api get ''connect_timeout_s'' 5,
             cfg_request_timeout_s = u32_key api get ''request_timeout_s'' 60\<rparr>)
        })"

text \<open>What \<^verbatim>\<open>main.c\<close> makes of it for the cache.\<close>

definition cache_params :: "pp_config \<Rightarrow> pp_cache_params" where
  "cache_params cfg = \<lparr>par_cache_depth = cache_depth cfg, par_history_depth = history_depth cfg,
     par_dump_to_disk = cfg_dump_to_disk cfg\<rparr>"

section \<open>The MQTT bridge\<close>

record rc_config =
  mqtt_host :: string
  mqtt_port :: u16
  mqtt_client_id :: string
  mqtt_user :: string
  mqtt_pass :: string
  mqtt_keepalive_s :: u16
  topic_prefix :: string

definition copy_str :: "nat \<Rightarrow> string option \<Rightarrow> string" where
  "copy_str dstsz src = (case src of None \<Rightarrow> [] | Some s \<Rightarrow> take (dstsz - 1) s)"

text \<open>The topic prefix is checked before it is copied.\<close>

definition load_prefix :: "'j json_api \<Rightarrow> (string \<Rightarrow> 'j option) \<Rightarrow> string option" where
  "load_prefix api get =
     (case get ''topic_prefix'' of
        None \<Rightarrow> Some ''homeboard/''
      | Some v \<Rightarrow>
          (case get_string api v of
             None \<Rightarrow> None
           | Some s \<Rightarrow> if s = [] \<or> last s \<noteq> CHR ''/'' then None else Some s))"

text \<open>A number out of range leaves the default.\<close>

definition in_range :: "int \<Rightarrow> u16 \<Rightarrow> int \<Rightarrow> u16" where
  "in_range hi d n = (if n > 0 \<and> n < hi then of_int n else d)"

definition rc_config_load :: "'j json_api \<Rightarrow> 'j json_file \<Rightarrow> rc_config option" where
  "rc_config_load api doc =
     (case doc of
        None \<Rightarrow> None
      | Some get \<Rightarrow>
          let str = (\<lambda>k n d. (case get k of None \<Rightarrow> copy_str n (Some d) | Some v \<Rightarrow> copy_str n (get_string api v)));
              num = (\<lambda>k d hi. (case get k of
                       None \<Rightarrow> d
                     | Some v \<Rightarrow> in_range hi d (sint (get_int api v))))
          in (case load_prefix api get of
               None \<Rightarrow> None
             | Some prefix \<Rightarrow> Some
                 \<lparr>mqtt_host = str ''mqtt_host'' 128 ''127.0.0.1'',
                  mqtt_port = num ''mqtt_port'' 1883 65536,
                  mqtt_client_id = str ''mqtt_client_id'' 64 ''homeboard-bridge'',
                  mqtt_user = str ''mqtt_user'' 64 [],
                  mqtt_pass = str ''mqtt_pass'' 128 [],
                  mqtt_keepalive_s = num ''mqtt_keepalive_s'' 30 3600,
                  topic_prefix = copy_str 64 (Some prefix)\<rparr>))"

section \<open>Accepted configurations are ones the services can start with\<close>

lemma sint_unat:
  assumes "0 \<le> sint (n :: i32)"
  shows "unat n < 2 ^ 31"
proof -
  have "\<not> bit (uint n) 31" using assms by (simp add: sint_uint signed_take_bit_nonnegative_iff)
  then have "\<not> bit (unat n) 31" by (simp add: bit_unsigned_iff)
  then have "even (unat n div 2 ^ 31)" by (simp only: bit_iff_odd not_not)
  moreover have "unat n div 2 ^ 31 < 2" using unat_bound [of n] by (intro less_mult_imp_div_less) simp
  ultimately have "unat n div 2 ^ 31 = 0" by (simp only: less_2_cases_iff) auto
  then show ?thesis by (simp only: div_eq_0_iff) simp
qed

lemma u16_of_int:
  assumes "0 < n" and "n < 65536"
  shows "0 < (of_int n :: u16)" and "n < 3600 \<Longrightarrow> (of_int n :: u16) < 3600"
proof -
  have "uint (of_int n :: u16) = n" using assms by (simp add: unsigned_of_int take_bit_int_eq_self)
  then show "0 < (of_int n :: u16)" and "n < 3600 \<Longrightarrow> (of_int n :: u16) < 3600"
    using assms by (simp_all add: word_less_def)
qed

lemma rc_config_fields:
  assumes "rc_config_load api doc = Some cfg"
  shows "0 < mqtt_port cfg" "0 < mqtt_keepalive_s cfg" "mqtt_keepalive_s cfg < 3600"
    "length (mqtt_client_id cfg) < 64"
    "\<exists>s. s \<noteq> [] \<and> last s = CHR ''/'' \<and> topic_prefix cfg = take 63 s"
proof -
  obtain get where get: "doc = Some get" using assms by (cases doc) (simp_all add: rc_config_load_def)
  then obtain prefix where load: "load_prefix api get = Some prefix"
    using assms by (cases "load_prefix api get") (simp_all add: rc_config_load_def Let_def)
  then have pre: "topic_prefix cfg = take 63 prefix"
    using assms get by (auto simp: rc_config_load_def Let_def copy_str_def)
  have "prefix \<noteq> [] \<and> last prefix = CHR ''/''"
    using load by (auto simp: load_prefix_def split: option.splits if_splits)
  with pre show "\<exists>s. s \<noteq> [] \<and> last s = CHR ''/'' \<and> topic_prefix cfg = take 63 s" by blast
  have num: "0 < in_range hi d n" "hi = 3600 \<Longrightarrow> d < 3600 \<Longrightarrow> in_range hi d n < 3600"
    if "0 < d" "hi \<le> 65536" for hi d n
    using that u16_of_int [of n] by (auto simp: in_range_def)
  show "0 < mqtt_port cfg" "0 < mqtt_keepalive_s cfg" "mqtt_keepalive_s cfg < 3600"
    "length (mqtt_client_id cfg) < 64"
    using assms num [of 1883 65536] num [of 30 3600]
    unfolding rc_config_load_def get
    by (auto simp: Let_def load copy_str_def min_less_iff_disj split: option.split)
qed

lemma slideshow_init_succeeds:
  assumes "secs \<noteq> 0" and "rotation_of deg = Some ro"
    and "struct_ok env \<and> compose_ok env \<and> sem_ok env \<and> bus_ok env"
    and "\<And>s. fbi s = info \<Longrightarrow> \<exists>effs. render_fallback s (startup_jpeg env) (startup_opened env) = Some effs"
  shows "\<exists>s effs calls. slideshow_init info secs deg qr eink fb env = Some (Some s, effs, calls)"
proof (cases "slideshow_init info secs deg qr eink fb env")
  case None
  from None assms(1-3) have "\<exists>s. fbi s = info \<and> render_fallback s (startup_jpeg env) (startup_opened env) = None"
    by (simp add: slideshow_init_def Let_def split: Option.bind_splits)
      (rule exI, rule conjI [rotated], assumption, simp)
  with assms(4) show ?thesis by (metis option.distinct(1))
next
  case (Some a)
  with assms(1-3) show ?thesis
    by (auto simp: slideshow_init_def Let_def split: Option.bind_splits)
qed

text \<open>The photo provider's session can be set up: the loader checks none of this.\<close>

definition session_fits :: "pp_config \<Rightarrow> bool" where
  "session_fits cfg \<longleftrightarrow> server_url cfg \<noteq> []
     \<and> 128 \<le> cfg_target_w cfg \<and> cfg_target_w cfg \<le> 3840 \<and> 128 \<le> cfg_target_h cfg \<and> cfg_target_h cfg \<le> 3840
     \<and> cfg_connect_timeout_s cfg \<noteq> 0 \<and> cfg_request_timeout_s cfg \<noteq> 0"

lemma session_init_iff:
  "pp_www_session_init (server_url cfg) (cfg_target_w cfg) (cfg_target_h cfg) (pp_embed_qr cfg)
      (cfg_connect_timeout_s cfg) (cfg_request_timeout_s cfg) True True \<noteq> None \<longleftrightarrow> session_fits cfg"
  by (auto simp: pp_www_session_init_def session_fits_def IMG_MIN_SZ_def IMG_MAX_SZ_def Let_def not_less)

lemma provider_default_fits:
  "pp_config_load api (Some (\<lambda>_. None)) = Some (Some cfg) \<Longrightarrow> session_fits cfg"
  by (auto simp: pp_config_load_def string_key_def u32_key_def session_fits_def)

text \<open>
  C22. What the loaders guarantee to the services. The transition time and the rotation an accepted
  ambience file gives pass the checks of \<^verbatim>\<open>slideshow_init\<close>: when memory, semaphore and bus are
  there, the decoder keeps libjpeg's contract and the announced screen has a size it can cover,
  the slideshow starts, whatever the fallback image. The loader of the photo provider does not
  check its values: with an accepted file, memory and curl given, the session starts exactly when
  the server's URL is not empty, both sides of the target size lie between 128 and 3840 and
  both timeouts are not 0, as with the defaults; the cache always starts, and the size of its ring
  does not wrap. The MQTT bridge's port and keep-alive are in range, its client id fits, and its
  topic prefix ends with a slash unless it was cut at 63 characters.
\<close>

theorem accepted_configs_start:
  shows "(ambience_config_load api readable doc = Some acfg \<longrightarrow>
      struct_ok env \<and> compose_ok env \<and> sem_ok env \<and> bus_ok env
      \<and> jpeg_env_ok (startup_jpeg env) \<and> target_ok (fb_width info) \<and> target_ok (fb_height info) \<longrightarrow>
      (\<exists>s effs calls. slideshow_init info (cfg_transition_time_s acfg) (cfg_rotation acfg) (cfg_embed_qr acfg)
         (cfg_use_eink acfg) (Some (cfg_fallback_image acfg)) env = Some (Some s, effs, calls)))
    \<and> (pp_config_load api doc = Some (Some pcfg) \<longrightarrow>
         ((\<exists>s. pp_www_session_init (server_url pcfg) (cfg_target_w pcfg) (cfg_target_h pcfg) (pp_embed_qr pcfg)
                (cfg_connect_timeout_s pcfg) (cfg_request_timeout_s pcfg) True True = Some s) \<longleftrightarrow> session_fits pcfg)
         \<and> (doc = Some (\<lambda>_. None) \<longrightarrow> session_fits pcfg)
         \<and> params_fit (cache_params pcfg)
         \<and> (\<exists>c. pp_cache_init (cache_params pcfg) True True = Some c \<and> unat (buf_cap c) = ring_size (cache_params pcfg)))
    \<and> (rc_config_load api doc = Some rcfg \<longrightarrow>
         0 < mqtt_port rcfg \<and> 0 < mqtt_keepalive_s rcfg \<and> mqtt_keepalive_s rcfg < 3600
         \<and> length (mqtt_client_id rcfg) < 64 \<and> length (topic_prefix rcfg) < 64
         \<and> (length (topic_prefix rcfg) < 63 \<longrightarrow> topic_prefix rcfg \<noteq> [] \<and> last (topic_prefix rcfg) = CHR ''/''))"
proof (intro conjI impI)
  assume l: "ambience_config_load api readable doc = Some acfg"
    and ok: "struct_ok env \<and> compose_ok env \<and> sem_ok env \<and> bus_ok env
      \<and> jpeg_env_ok (startup_jpeg env) \<and> target_ok (fb_width info) \<and> target_ok (fb_height info)"
  have secs: "cfg_transition_time_s acfg \<noteq> 0"
    using l by (auto simp: ambience_config_load_def Let_def split: option.splits if_splits)
  have "rotation_of (cfg_rotation acfg) \<noteq> None"
    using l by (auto simp: ambience_config_load_def Let_def u32_key_def rotation_of_def split: option.splits if_splits)
  then obtain ro where ro: "rotation_of (cfg_rotation acfg) = Some ro" by blast
  have "startup_opened env \<noteq> Some (case startup_opened env of None \<Rightarrow> 0 | Some g \<Rightarrow> g + 1)"
    by (auto split: option.split)
  then obtain f where f: "startup_opened env \<noteq> Some f" by blast
  have fb: "\<exists>effs. render_fallback s (startup_jpeg env) (startup_opened env) = Some effs" if "fbi s = info" for s
    using render_fallback_ok [of "startup_jpeg env" s "startup_opened env" f] ok f that by auto
  show "\<exists>s effs calls. slideshow_init info (cfg_transition_time_s acfg) (cfg_rotation acfg) (cfg_embed_qr acfg)
         (cfg_use_eink acfg) (Some (cfg_fallback_image acfg)) env = Some (Some s, effs, calls)"
    using slideshow_init_succeeds [OF secs ro _ fb] ok by blast
next
  assume load: "pp_config_load api doc = Some (Some pcfg)"
  show "(\<exists>s. pp_www_session_init (server_url pcfg) (cfg_target_w pcfg) (cfg_target_h pcfg) (pp_embed_qr pcfg)
      (cfg_connect_timeout_s pcfg) (cfg_request_timeout_s pcfg) True True = Some s) \<longleftrightarrow> session_fits pcfg"
    using session_init_iff [of pcfg] by simp
  show "session_fits pcfg" if "doc = Some (\<lambda>_. None)" using load provider_default_fits that by blast
  from load have "0 \<le> sint (cache_depth pcfg)" "0 \<le> sint (history_depth pcfg)"
    by (auto simp: pp_config_load_def split: option.splits Option.bind_splits if_splits)
  then have "unat (cache_depth pcfg) < 2 ^ 31" "unat (history_depth pcfg) < 2 ^ 31" using sint_unat by blast+
  then show fit: "params_fit (cache_params pcfg)" by (simp add: params_fit_def cache_params_def)
  obtain c where c: "pp_cache_init (cache_params pcfg) True True = Some c" by (auto simp: pp_cache_init_def Let_def)
  with init_effect(7) [OF fit c]
  show "\<exists>c. pp_cache_init (cache_params pcfg) True True = Some c \<and> unat (buf_cap c) = ring_size (cache_params pcfg)" by blast
next
  assume l: "rc_config_load api doc = Some rcfg"
  note f = rc_config_fields [OF l]
  from f(5) obtain s where s: "s \<noteq> []" "last s = CHR ''/''" "topic_prefix rcfg = take 63 s" by blast
  show "0 < mqtt_port rcfg" "0 < mqtt_keepalive_s rcfg" "mqtt_keepalive_s rcfg < 3600"
    "length (mqtt_client_id rcfg) < 64" by (rule f)+
  show "length (topic_prefix rcfg) < 64" by (simp add: s(3) min_less_iff_disj)
  assume "length (topic_prefix rcfg) < 63"
  then have "topic_prefix rcfg = s" by (simp add: s(3) min_less_iff_disj)
  with s show "topic_prefix rcfg \<noteq> []" "last (topic_prefix rcfg) = CHR ''/''" by simp_all
qed

definition file_example :: "int json_file" where
  "file_example = Some [''rotation'' \<mapsto> 270, ''cache_depth'' \<mapsto> 2147483647, ''history_depth'' \<mapsto> 2147483647,
     ''topic_prefix'' \<mapsto> 0]"

definition api_example :: "int json_api" where
  "api_example = \<lparr>get_boolean = (\<lambda>_. True), get_string = (\<lambda>_. Some ''den/''), get_int = of_int\<rparr>"

definition ambience_example :: ambience_config where
  "ambience_example = \<lparr>cfg_transition_time_s = 30, cfg_rotation = 270, cfg_embed_qr = False, cfg_use_eink = False,
     cfg_fallback_image = []\<rparr>"

definition provider_example :: pp_config where
  "provider_example = \<lparr>server_url = ''http://homeboard.local:8080'', cfg_target_w = 1920, cfg_target_h = 1080,
     pp_embed_qr = True, cache_depth = 2147483647, history_depth = 2147483647, cfg_dump_to_disk = False,
     dump_dir = ''/tmp/photo-provider'', cfg_connect_timeout_s = 5, cfg_request_timeout_s = 60\<rparr>"

definition bridge_example :: rc_config where
  "bridge_example = \<lparr>mqtt_host = ''127.0.0.1'', mqtt_port = 1883, mqtt_client_id = ''homeboard-bridge'',
     mqtt_user = [], mqtt_pass = [], mqtt_keepalive_s = 30, topic_prefix = ''den/''\<rparr>"

lemma loaded_examples:
  "ambience_config_load api_example (\<lambda>_. True) file_example = Some ambience_example"
  "pp_config_load api_example file_example = Some (Some provider_example)"
  "rc_config_load api_example file_example = Some bridge_example"
  by (simp_all add: ambience_config_load_def pp_config_load_def rc_config_load_def load_prefix_def u32_key_def
      bool_key_def string_key_def in_range_def copy_str_def Let_def file_example_def api_example_def
      ambience_example_def provider_example_def bridge_example_def)

theorem accepted_configs_start_witness:
  "(\<exists>s effs calls. slideshow_init \<lparr>fb_width = 1024, fb_height = 600, fb_stride = 4096, fb_format = 0x34325258, fb_size = 2457600\<rparr>
      (cfg_transition_time_s ambience_example) (cfg_rotation ambience_example) (cfg_embed_qr ambience_example)
      (cfg_use_eink ambience_example) (Some (cfg_fallback_image ambience_example)) setup_example
      = Some (Some s, effs, calls))
   \<and> (\<exists>s. pp_www_session_init (server_url provider_example) (cfg_target_w provider_example) (cfg_target_h provider_example)
        (pp_embed_qr provider_example) (cfg_connect_timeout_s provider_example) (cfg_request_timeout_s provider_example)
        True True = Some s)
   \<and> params_fit (cache_params provider_example) \<and> last (topic_prefix bridge_example) = CHR ''/''"
proof -
  have "jpeg_env_ok (startup_jpeg setup_example)" using jpeg_example_ok by (simp add: setup_example_def)
  moreover have "struct_ok setup_example \<and> compose_ok setup_example \<and> sem_ok setup_example \<and> bus_ok setup_example"
    by (simp add: setup_example_def)
  moreover have "target_ok 1024" "target_ok 600" by (simp_all add: target_ok_def)
  moreover have "session_fits provider_example" by (simp add: session_fits_def provider_example_def)
  moreover have "length (topic_prefix bridge_example) < 63" by (simp add: bridge_example_def)
  ultimately show ?thesis
    using accepted_configs_start [of api_example "\<lambda>_. True" file_example ambience_example setup_example
        "\<lparr>fb_width = 1024, fb_height = 600, fb_stride = 4096, fb_format = 0x34325258, fb_size = 2457600\<rparr>" provider_example bridge_example] loaded_examples
    by simp
qed

end
