(* ===== verification/Display_Mgr.thy ===== *)
theory Display_Mgr
  imports Prelude "HOL-Library.Monad_Syntax"
begin

text \<open>
  The display manager (\<^verbatim>\<open>display-mgr\<close>): start-up of the graphics device and power of its
  outputs (\<^verbatim>\<open>drm.c\<close>), the D-Bus methods with the lease of the frame buffer (\<^verbatim>\<open>dbus.c\<close>), start-up
  and shutdown (\<^verbatim>\<open>main.c\<close>). The kernel is a parameter: \<open>scanout\<close> is the buffer each CRTC shows
  (0 when it is off), and \<open>accepts\<close> tells which settings the driver carries out.
\<close>

section \<open>The device\<close>

definition MAX_OUTS :: nat where "MAX_OUTS = 4"

record crtc =
  mode_valid :: bool
  hdisplay :: u32
  vdisplay :: u32

record drm_output =
  conn_id :: u32
  crtc_id :: u32
  saved_crtc :: "crtc option"

record drm_fb_info =
  info_width :: u32
  info_height :: u32
  info_stride :: u32
  info_format :: u32
  info_size :: u32

record drm_state =
  drm_fd :: fd
  fb_handle :: u32
  fb_id :: u32
  dmabuf_fd :: fd
  info :: drm_fb_info
  outputs :: "drm_output list"

text \<open>A connector as the kernel reports it; \<open>encoder_crtc\<close> is \<open>None\<close> without an encoder.\<close>

record connector =
  connector_id :: u32
  connected :: bool
  encoder_crtc :: "u32 option"

type_synonym scanout = "u32 \<Rightarrow> u32"

text \<open>What is given back, in the order of \<^verbatim>\<open>drm_free\<close>.\<close>

datatype drm_release = Free_Crtc u32 | Rm_FB u32 | Close_Fd fd | Destroy_Dumb u32 | Drop_Master fd

definition drm_free :: "drm_state \<Rightarrow> drm_release list" where
  "drm_free s =
     concat (map (\<lambda>out. if saved_crtc out \<noteq> None then [Free_Crtc (crtc_id out)] else []) (outputs s))
     @ (if fb_id s \<noteq> 0 then [Rm_FB (fb_id s)] else [])
     @ (if dmabuf_fd s \<ge> 0 then [Close_Fd (dmabuf_fd s)] else [])
     @ (if fb_handle s \<noteq> 0 then [Destroy_Dumb (fb_handle s)] else [])
     @ (if drm_fd s \<ge> 0 then [Drop_Master (drm_fd s), Close_Fd (drm_fd s)] else [])"

text \<open>The loop over the connectors: the outputs found so far are kept in an array of four.\<close>

fun find_outputs :: "(u32 \<Rightarrow> crtc option) \<Rightarrow> connector option list \<Rightarrow> drm_output list \<Rightarrow> drm_output list" where
  "find_outputs get_crtc [] outs = outs"
| "find_outputs get_crtc (c # cs) outs =
     (if length outs \<ge> MAX_OUTS then outs
      else (case c of
        None \<Rightarrow> find_outputs get_crtc cs outs
      | Some conn \<Rightarrow>
          if \<not> connected conn then find_outputs get_crtc cs outs
          else (case encoder_crtc conn of
            None \<Rightarrow> find_outputs get_crtc cs outs
          | Some k \<Rightarrow>
              find_outputs get_crtc cs
                (outs @ [\<lparr>conn_id = connector_id conn, crtc_id = k, saved_crtc = get_crtc k\<rparr>]))))"

record drm_env =
  alloc_drm_ok :: bool
  open_card0 :: fd
  open_card1 :: fd
  set_master :: int
  resources :: "connector option list option"
  get_crtc :: "u32 \<Rightarrow> crtc option"

definition drm_calloc :: drm_state where
  "drm_calloc = \<lparr>drm_fd = -1, fb_handle = 0, fb_id = 0, dmabuf_fd = -1,
     info = \<lparr>info_width = 0, info_height = 0, info_stride = 0, info_format = 0, info_size = 0\<rparr>, outputs = []\<rparr>"

definition drm_init :: "drm_env \<Rightarrow> drm_state option \<times> drm_release list" where
  "drm_init env =
     (if \<not> alloc_drm_ok env then (None, [])
      else
        let s = drm_calloc\<lparr>drm_fd := (if open_card0 env < 0 then open_card1 env else open_card0 env)\<rparr> in
        if drm_fd s < 0 then (None, drm_free s)
        else if set_master env < 0 then (None, drm_free s)
        else (case resources env of
          None \<Rightarrow> (None, drm_free s)
        | Some conns \<Rightarrow>
            let s1 = s\<lparr>outputs := find_outputs (get_crtc env) conns []\<rparr> in
            if outputs s1 = [] then (None, drm_free s1) else (Some s1, [])))"

section \<open>Power of the outputs\<close>

text \<open>\<^verbatim>\<open>drmModeSetCrtc\<close> of a buffer on a CRTC.\<close>

definition set_crtc :: "(u32 \<Rightarrow> u32 \<Rightarrow> bool) \<Rightarrow> u32 \<Rightarrow> u32 \<Rightarrow> scanout \<Rightarrow> scanout" where
  "set_crtc accepts crtc buf k = (if accepts crtc buf then k(crtc := buf) else k)"

definition has_mode :: "drm_output \<Rightarrow> bool" where
  "has_mode out = (case saved_crtc out of None \<Rightarrow> False | Some c \<Rightarrow> mode_valid c)"

definition drm_display_off :: "(u32 \<Rightarrow> u32 \<Rightarrow> bool) \<Rightarrow> drm_state \<Rightarrow> scanout \<Rightarrow> scanout" where
  "drm_display_off accepts s k = foldl (\<lambda>k out. set_crtc accepts (crtc_id out) 0 k) k (outputs s)"

definition drm_display_on :: "(u32 \<Rightarrow> u32 \<Rightarrow> bool) \<Rightarrow> drm_state \<Rightarrow> scanout \<Rightarrow> scanout" where
  "drm_display_on accepts s k =
     foldl (\<lambda>k out. if has_mode out then set_crtc accepts (crtc_id out) (fb_id s) k else k) k (outputs s)"

text \<open>\<open>readable\<close> tells which CRTCs can be read back.\<close>

fun any_active :: "(u32 \<Rightarrow> bool) \<Rightarrow> scanout \<Rightarrow> drm_output list \<Rightarrow> bool" where
  "any_active readable k [] = False"
| "any_active readable k (out # outs) =
     (if readable (crtc_id out) \<and> k (crtc_id out) \<noteq> 0 then True else any_active readable k outs)"

definition drm_is_display_on :: "(u32 \<Rightarrow> bool) \<Rightarrow> drm_state \<Rightarrow> scanout \<Rightarrow> bool" where
  "drm_is_display_on readable s k = any_active readable k (outputs s)"

section \<open>The frame buffer\<close>

text \<open>The pixel format code of the kernel's interface.\<close>

definition DRM_FORMAT_XRGB8888 :: u32 where "DRM_FORMAT_XRGB8888 = 0x34325258"

record fb_env =
  create_dumb :: "(u32 \<times> u32 \<times> u32) option"
  add_fb :: "u32 option"
  prime_fd :: "fd option"

text \<open>Handle, pitch and size of the created buffer, its id and its descriptor. A failure leaves
  behind what was created, for \<^verbatim>\<open>drm_free\<close>.\<close>

definition drm_create_framebuffer :: "(u32 \<Rightarrow> u32 \<Rightarrow> bool) \<Rightarrow> fb_env \<Rightarrow> drm_state \<Rightarrow> scanout
    \<Rightarrow> int \<times> drm_state \<times> scanout" where
  "drm_create_framebuffer accepts env s k =
     (case (case outputs s of [] \<Rightarrow> None | out # _ \<Rightarrow> saved_crtc out) of
        None \<Rightarrow> (-1, s, k)
      | Some c \<Rightarrow>
          if \<not> mode_valid c then (-1, s, k)
          else (case create_dumb env of
            None \<Rightarrow> (-1, s, k)
          | Some (handle, pitch, sz) \<Rightarrow>
              let s1 = s\<lparr>fb_handle := handle\<rparr> in
              (case add_fb env of
                None \<Rightarrow> (-1, s1, k)
              | Some fb \<Rightarrow>
                  let s2 = s1\<lparr>fb_id := fb\<rparr> in
                  (case prime_fd env of
                    None \<Rightarrow> (-1, s2, k)
                  | Some f \<Rightarrow>
                      let s3 = s2\<lparr>dmabuf_fd := f,
                                  info := \<lparr>info_width = hdisplay c, info_height = vdisplay c,
                                           info_stride = pitch, info_format = DRM_FORMAT_XRGB8888,
                                           info_size = sz\<rparr>\<rparr>
                      in (0, s3, drm_display_on accepts s3 k)))))"

section \<open>The D-Bus service\<close>

text \<open>
  \<open>lease\<close> is the unique bus name the lease is tracked for, \<open>state_signals\<close> the
  \<^verbatim>\<open>StateChanged\<close> signals sent, the latest first.
\<close>

record display_mgr =
  drm :: drm_state
  kms :: scanout
  display_on :: bool
  lease :: "string option"
  lease_pid :: int
  state_signals :: "bool list"

definition dbus_init :: "(u32 \<Rightarrow> bool) \<Rightarrow> drm_state \<Rightarrow> scanout \<Rightarrow> display_mgr" where
  "dbus_init readable s k = \<lparr>drm = s, kms = k, display_on = drm_is_display_on readable s k,
     lease = None, lease_pid = 0, state_signals = []\<rparr>"

definition set_display_on :: "(u32 \<Rightarrow> u32 \<Rightarrow> bool) \<Rightarrow> bool \<Rightarrow> display_mgr \<Rightarrow> display_mgr" where
  "set_display_on accepts on m =
     (if display_on m = on then m
      else m\<lparr>kms := (if on then drm_display_on accepts (drm m) (kms m)
                     else drm_display_off accepts (drm m) (kms m)),
             display_on := on, state_signals := on # state_signals m\<rparr>)"

datatype lease_reply =
    No_Sender
  | Lease_Held
  | Track_Failed int
  | Granted fd drm_fb_info
  | Not_Holder
  | Released

text \<open>The results of creating the track and of adding the sender to it are inputs.\<close>

definition method_acquire_lease :: "string option \<Rightarrow> int \<Rightarrow> int \<Rightarrow> int \<Rightarrow> display_mgr \<Rightarrow> lease_reply \<times> display_mgr" where
  "method_acquire_lease sender pid track_new track_add m =
     (case sender of
        None \<Rightarrow> (No_Sender, m)
      | Some name \<Rightarrow>
          let granted = Granted (dmabuf_fd (drm m)) (info (drm m)) in
          if lease m \<noteq> None \<and> lease m \<noteq> Some name then (Lease_Held, m)
          else if lease m = None
          then (if track_new < 0 then (Track_Failed track_new, m)
                else if track_add < 0 then (Track_Failed track_add, m)
                else (granted, m\<lparr>lease := Some name, lease_pid := pid\<rparr>))
          else (granted, m))"

definition method_release_lease :: "string option \<Rightarrow> display_mgr \<Rightarrow> lease_reply \<times> display_mgr" where
  "method_release_lease sender m =
     (if lease m = None \<or> sender = None \<or> lease m \<noteq> sender then (Not_Holder, m)
      else (Released, m\<lparr>lease := None, lease_pid := 0\<rparr>))"

definition on_lease_track_drop :: "display_mgr \<Rightarrow> display_mgr" where
  "on_lease_track_drop m = m\<lparr>lease := None, lease_pid := 0\<rparr>"

text \<open>What the bus delivers: a peer's name vanishing reaches the daemon if it is the tracked one.\<close>

datatype mgr_event =
    On
  | Off
  | Acquire "string option" int int int
  | Release "string option"
  | Vanished string

fun mgr_step :: "(u32 \<Rightarrow> u32 \<Rightarrow> bool) \<Rightarrow> display_mgr \<Rightarrow> mgr_event \<Rightarrow> lease_reply option \<times> display_mgr" where
  "mgr_step accepts m On = (None, set_display_on accepts True m)"
| "mgr_step accepts m Off = (None, set_display_on accepts False m)"
| "mgr_step accepts m (Acquire sender pid tn ta) =
     (case method_acquire_lease sender pid tn ta m of (r, m') \<Rightarrow> (Some r, m'))"
| "mgr_step accepts m (Release sender) =
     (case method_release_lease sender m of (r, m') \<Rightarrow> (Some r, m'))"
| "mgr_step accepts m (Vanished name) =
     (None, if lease m = Some name then on_lease_track_drop m else m)"

text \<open>The log pairs each event with its reply, the latest first.\<close>

fun mgr_run :: "(u32 \<Rightarrow> u32 \<Rightarrow> bool) \<Rightarrow> display_mgr \<Rightarrow> mgr_event list
    \<Rightarrow> (mgr_event \<times> lease_reply option) list \<times> display_mgr" where
  "mgr_run accepts m [] = ([], m)"
| "mgr_run accepts m (e # es) =
     (case mgr_run accepts m es of (l, m1) \<Rightarrow>
        case mgr_step accepts m1 e of (r, m2) \<Rightarrow> ((e, r) # l, m2))"

text \<open>\<^verbatim>\<open>main\<close>: start-up, the events served (the latest first), and the restoration at the end.\<close>

definition mgr_main :: "(u32 \<Rightarrow> u32 \<Rightarrow> bool) \<Rightarrow> (u32 \<Rightarrow> bool) \<Rightarrow> drm_env \<Rightarrow> fb_env \<Rightarrow> scanout \<Rightarrow> mgr_event list
    \<Rightarrow> int \<times> scanout \<times> drm_release list" where
  "mgr_main accepts readable env fenv k0 events =
     (case drm_init env of
        (None, rel) \<Rightarrow> (1, k0, rel)
      | (Some s, _) \<Rightarrow>
          (case drm_create_framebuffer accepts fenv s k0 of (r, s1, k1) \<Rightarrow>
             if r < 0 then (1, k1, drm_free s1)
             else
               let on_at_startup = drm_is_display_on readable s1 k1;
                   m = snd (mgr_run accepts (dbus_init readable s1 k1) events)
               in (0, if on_at_startup then drm_display_on accepts s1 (kms m)
                      else drm_display_off accepts s1 (kms m), drm_free s1)))"

section \<open>The lease\<close>

type_synonym mgr_log = "(mgr_event \<times> lease_reply option) list"

text \<open>
  The abstract lease: the client the replies so far leave in possession, and the reply a
  client is owed in each situation.
\<close>

fun holder :: "mgr_log \<Rightarrow> string option" where
  "holder [] = None"
| "holder ((Acquire (Some x) _ _ _, Some (Granted _ _)) # l) = Some x"
| "holder ((Release _, Some Released) # l) = None"
| "holder ((Vanished x, _) # l) = (if holder l = Some x then None else holder l)"
| "holder (_ # l) = holder l"

fun reply_due :: "lease_reply \<Rightarrow> string option \<Rightarrow> mgr_event \<Rightarrow> lease_reply option" where
  "reply_due buffer h (Acquire None _ _ _) = Some No_Sender"
| "reply_due buffer h (Acquire (Some y) _ tn ta) =
     Some (if h = Some y then buffer
           else if h \<noteq> None then Lease_Held
           else if tn < 0 then Track_Failed tn
           else if ta < 0 then Track_Failed ta
           else buffer)"
| "reply_due buffer h (Release s) = Some (if h \<noteq> None \<and> s = h then Released else Not_Holder)"
| "reply_due buffer h _ = None"

definition the_buffer :: "display_mgr \<Rightarrow> lease_reply" where
  "the_buffer m = Granted (dmabuf_fd (drm m)) (info (drm m))"

lemma set_display_on_keeps [simp]:
  "lease (set_display_on accepts on m) = lease m" "drm (set_display_on accepts on m) = drm m"
  by (simp_all add: set_display_on_def)

lemma mgr_step_drm: "mgr_step accepts m e = (r, m') \<Longrightarrow> drm m' = drm m"
  by (cases e) (auto simp: method_acquire_lease_def method_release_lease_def on_lease_track_drop_def Let_def
      split: option.splits if_splits)

lemma mgr_run_drm: "mgr_run accepts m es = (l, m') \<Longrightarrow> drm m' = drm m"
  by (induction es arbitrary: l m') (auto split: prod.splits dest!: mgr_step_drm)

lemma mgr_step_lease:
  assumes "mgr_step accepts m e = (r, m')" and "lease m = holder l"
  shows "r = reply_due (the_buffer m) (holder l) e \<and> lease m' = holder ((e, r) # l)"
  using assms
  by (cases e; cases "holder l")
    (auto simp: method_acquire_lease_def method_release_lease_def on_lease_track_drop_def the_buffer_def Let_def
      split: option.splits if_splits)

lemma mgr_run_lease:
  assumes "mgr_run accepts m es = (l, m')" and "lease m = None"
  shows "lease m' = holder l
    \<and> (\<forall>newer e r older. l = newer @ (e, r) # older \<longrightarrow> r = reply_due (the_buffer m) (holder older) e)"
  using assms(1)
proof (induction es arbitrary: l m')
  case Nil
  then show ?case using assms(2) by simp
next
  case (Cons e es)
  obtain l1 m1 where run: "mgr_run accepts m es = (l1, m1)" by fastforce
  obtain r m2 where step: "mgr_step accepts m1 e = (r, m2)" by fastforce
  have l: "l = (e, r) # l1" "m' = m2" using Cons.prems run step by simp_all
  have IH: "lease m1 = holder l1"
    "\<forall>newer e r older. l1 = newer @ (e, r) # older \<longrightarrow> r = reply_due (the_buffer m) (holder older) e"
    using Cons.IH [OF run] by simp_all
  have "the_buffer m1 = the_buffer m" using mgr_run_drm [OF run] by (simp add: the_buffer_def)
  with mgr_step_lease [OF step IH(1)] have s: "r = reply_due (the_buffer m) (holder l1) e" "lease m2 = holder ((e, r) # l1)"
    by simp_all
  show ?case unfolding l
  proof (intro conjI allI impI)
    show "lease m2 = holder ((e, r) # l1)" by (rule s(2))
    fix newer e' r' older
    assume "(e, r) # l1 = newer @ (e', r') # older"
    then show "r' = reply_due (the_buffer m) (holder older) e'"
      using s(1) IH(2) by (cases newer) auto
  qed
qed

text \<open>
  C23. The lease is exclusive. In every sequence of calls, departures and power switches, every
  reply is the one the abstract lease owes: the buffer is granted to a client exactly when no
  other client is in possession (and tracking it succeeds), a second request by its holder is
  granted again, a release succeeds exactly for the holder, and the lease falls free when its
  holder leaves the bus; the daemon's own record is always the abstract holder.
\<close>

theorem lease_exclusive:
  assumes "mgr_run accepts m es = (l, m')" and "lease m = None"
  shows "lease m' = holder l
    \<and> (\<forall>newer e r older. l = newer @ (e, r) # older \<longrightarrow> r = reply_due (the_buffer m) (holder older) e)"
  using mgr_run_lease [OF assms] .

section \<open>Power\<close>

lemma scanout_fold:
  assumes "\<forall>c b. accepts c b"
  shows "foldl (\<lambda>k out. if P out then set_crtc accepts (crtc_id out) b k else k) k outs
    = (\<lambda>c. if \<exists>out \<in> set outs. P out \<and> crtc_id out = c then b else k c)"
  by (induction outs arbitrary: k) (auto simp: set_crtc_def assms fun_eq_iff)

lemma display_on_scanout:
  assumes "\<forall>c b. accepts c b"
  shows "drm_display_on accepts s k = (\<lambda>c. if \<exists>out \<in> set (outputs s). has_mode out \<and> crtc_id out = c then fb_id s else k c)"
  unfolding drm_display_on_def by (rule scanout_fold [OF assms])

lemma display_off_scanout:
  assumes "\<forall>c b. accepts c b"
  shows "drm_display_off accepts s k = (\<lambda>c. if \<exists>out \<in> set (outputs s). crtc_id out = c then 0 else k c)"
  unfolding drm_display_off_def using scanout_fold [OF assms, of "\<lambda>_. True" 0 k "outputs s"] by simp

definition lit :: "drm_state \<Rightarrow> scanout \<Rightarrow> bool" where
  "lit s k \<longleftrightarrow> (\<forall>out \<in> set (outputs s). has_mode out \<longrightarrow> k (crtc_id out) = fb_id s)"

definition dark :: "drm_state \<Rightarrow> scanout \<Rightarrow> bool" where
  "dark s k \<longleftrightarrow> (\<forall>out \<in> set (outputs s). k (crtc_id out) = 0)"

definition truthful :: "display_mgr \<Rightarrow> bool" where
  "truthful m \<longleftrightarrow> (if display_on m then lit (drm m) (kms m) else dark (drm m) (kms m))"

text \<open>The last switch asked for, and the changes there were on the way, from an initial state.\<close>

fun asked :: "bool \<Rightarrow> mgr_event list \<Rightarrow> bool" where
  "asked b [] = b"
| "asked b (On # es) = True"
| "asked b (Off # es) = False"
| "asked b (_ # es) = asked b es"

fun changes :: "bool \<Rightarrow> mgr_event list \<Rightarrow> bool list" where
  "changes b [] = []"
| "changes b (e # es) = (if asked b (e # es) = asked b es then changes b es else asked b (e # es) # changes b es)"

lemma set_display_on_truthful:
  assumes "\<forall>c b. accepts c b" and "truthful m"
  shows "truthful (set_display_on accepts on m)"
  using assms(2)
  by (auto simp: truthful_def set_display_on_def display_on_scanout [OF assms(1)] display_off_scanout [OF assms(1)]
      lit_def dark_def)

lemma set_display_on_fields:
  "display_on (set_display_on accepts on m) = on"
  "state_signals (set_display_on accepts on m) = (if display_on m = on then state_signals m else on # state_signals m)"
  by (simp_all add: set_display_on_def)

lemma mgr_step_power:
  assumes "mgr_step accepts m e = (r, m')"
  shows "e = On \<and> m' = set_display_on accepts True m \<or> e = Off \<and> m' = set_display_on accepts False m
    \<or> e \<noteq> On \<and> e \<noteq> Off \<and> display_on m' = display_on m \<and> state_signals m' = state_signals m
      \<and> truthful m' = truthful m"
  using assms
  by (cases e) (auto simp: method_acquire_lease_def method_release_lease_def on_lease_track_drop_def
      truthful_def Let_def split: option.splits if_splits)

lemma mgr_run_power:
  assumes "\<forall>c b. accepts c b" and "truthful m" and "state_signals m = []"
  shows "truthful (snd (mgr_run accepts m es)) \<and> display_on (snd (mgr_run accepts m es)) = asked (display_on m) es
    \<and> state_signals (snd (mgr_run accepts m es)) = changes (display_on m) es"
proof (induction es)
  case Nil
  then show ?case using assms(2,3) by simp
next
  case (Cons e es)
  obtain l1 m1 where run: "mgr_run accepts m es = (l1, m1)" by fastforce
  obtain r m2 where step: "mgr_step accepts m1 e = (r, m2)" by fastforce
  have m2: "snd (mgr_run accepts m (e # es)) = m2" using run step by simp
  have IH: "truthful m1" "display_on m1 = asked (display_on m) es" "state_signals m1 = changes (display_on m) es"
    using Cons run by simp_all
  from mgr_step_power [OF step]
  have "truthful m2 \<and> display_on m2 = asked (display_on m) (e # es) \<and> state_signals m2 = changes (display_on m) (e # es)"
  proof (elim disjE conjE)
    assume "e \<noteq> On" "e \<noteq> Off" and keep: "display_on m2 = display_on m1" "state_signals m2 = state_signals m1"
      "truthful m2 = truthful m1"
    then have "asked (display_on m) (e # es) = asked (display_on m) es" by (cases e) auto
    with keep IH show ?thesis by simp
  qed (use IH set_display_on_truthful [OF assms(1) IH(1)] in \<open>simp_all add: set_display_on_fields\<close>)
  then show ?case unfolding m2 .
qed

text \<open>What start-up leaves: at most four outputs, the first with a mode, and the buffer on all of them.\<close>

lemma find_outputs_bound: "length outs \<le> MAX_OUTS \<Longrightarrow> length (find_outputs g cs outs) \<le> MAX_OUTS"
  by (induction g cs outs rule: find_outputs.induct) (auto split: option.splits)

lemma drm_init_outputs:
  assumes "drm_init env = (Some s, rel)"
  shows "0 < length (outputs s)" "length (outputs s) \<le> MAX_OUTS"
  using assms find_outputs_bound [of "[]"]
  by (auto simp: drm_init_def Let_def split: if_splits option.splits)

lemma create_framebuffer_lit:
  assumes "\<forall>c b. accepts c b" and "drm_create_framebuffer accepts fenv s k = (0, s1, k1)"
  shows "lit s1 k1" "outputs s1 = outputs s" "add_fb fenv = Some (fb_id s1)"
    "\<exists>out outs. outputs s = out # outs \<and> has_mode out"
proof -
  have r: "k1 = drm_display_on accepts s1 k \<and> outputs s1 = outputs s \<and> add_fb fenv = Some (fb_id s1)
      \<and> (\<exists>out outs. outputs s = out # outs \<and> has_mode out)"
    using assms(2)
    by (auto simp: drm_create_framebuffer_def Let_def has_mode_def split: option.splits if_splits list.splits prod.splits)
  then show "lit s1 k1" by (auto simp: lit_def display_on_scanout [OF assms(1)])
  from r show "outputs s1 = outputs s" "add_fb fenv = Some (fb_id s1)"
    "\<exists>out outs. outputs s = out # outs \<and> has_mode out" by simp_all
qed

lemma lit_is_on:
  assumes "lit s k" and "out \<in> set (outputs s)" and "has_mode out" and "fb_id s \<noteq> 0" and "readable (crtc_id out)"
  shows "drm_is_display_on readable s k"
proof -
  have "k (crtc_id out) \<noteq> 0" using assms by (simp add: lit_def)
  moreover have "any_active readable k outs" if "out \<in> set outs" "k (crtc_id out) \<noteq> 0" for outs
    using that assms(5) by (induction outs) auto
  ultimately show ?thesis using assms(2) by (simp add: drm_is_display_on_def)
qed

lemma started_on:
  assumes "\<forall>c b. accepts c b" and "drm_create_framebuffer accepts fenv s k0 = (0, s1, k1)"
    and "fb_id s1 \<noteq> 0" and "readable (crtc_id (hd (outputs s)))"
  shows "drm_is_display_on readable s1 k1"
proof -
  note fb = create_framebuffer_lit [OF assms(1,2)]
  from fb(4) have "hd (outputs s) \<in> set (outputs s1)" "has_mode (hd (outputs s))" unfolding fb(2) by auto
  then show ?thesis using lit_is_on [OF fb(1) _ _ assms(3)] assms(4) by blast
qed

text \<open>
  At shutdown the outputs are left on: what \<^verbatim>\<open>main\<close> restores is the state it reads after its own
  frame buffer has lit them, not the one before (the README speaks of the state at start-up).
\<close>

lemma shutdown_leaves_lit:
  assumes "\<forall>c b. accepts c b" "drm_init env = (Some s, rel)" "drm_create_framebuffer accepts fenv s k0 = (0, s1, k1)"
    and "fb_id s1 \<noteq> 0" and "readable (crtc_id (hd (outputs s)))"
  shows "\<exists>k. mgr_main accepts readable env fenv k0 es = (0, k, drm_free s1) \<and> lit s1 k"
  using started_on [where readable = readable, OF assms(1,3-5)] assms(2,3)
  by (auto simp: mgr_main_def lit_def display_on_scanout [OF assms(1)])

text \<open>
  C24. The daemon tells the truth about the panel. Let the driver carry out every setting of an
  output, let the first output, which is known to have a mode once the buffer is there, be one that
  can be read back, and let the kernel's id of the frame buffer not be 0. Then the daemon
  starts with the panel on, and after any sequence of calls its state is the last power switch
  asked for, every output with a mode shows the buffer when that is on and every output is dark
  when it is off, the signals sent are exactly the changes, and at most four outputs are driven.
\<close>

theorem display_power_truthful:
  assumes "\<forall>c b. accepts c b"
    and "drm_init env = (Some s, rel)" and "drm_create_framebuffer accepts fenv s k0 = (0, s1, k1)"
    and "fb_id s1 \<noteq> 0" and "readable (crtc_id (hd (outputs s)))"
    and m: "m = snd (mgr_run accepts (dbus_init readable s1 k1) es)"
  shows "display_on m = asked True es
    \<and> (if display_on m then lit (drm m) (kms m) else dark (drm m) (kms m)) \<and> state_signals m = changes True es
    \<and> length (outputs s1) \<le> MAX_OUTS"
proof -
  let ?m0 = "dbus_init readable s1 k1"
  have "truthful ?m0" "display_on ?m0" "state_signals ?m0 = []"
    using create_framebuffer_lit(1) [OF assms(1,3)] started_on [where readable = readable, OF assms(1,3-5)]
    by (simp_all add: dbus_init_def truthful_def)
  with mgr_run_power [OF assms(1), of ?m0 es]
  have "truthful m" "display_on m = asked True es" "state_signals m = changes True es" unfolding m by simp_all
  then show ?thesis
    using drm_init_outputs [OF assms(2)] create_framebuffer_lit(2) [OF assms(1,3)] by (simp add: truthful_def)
qed

definition panel_env :: drm_env where
  "panel_env = \<lparr>alloc_drm_ok = True, open_card0 = -1, open_card1 = 4, set_master = 0,
     resources = Some [None, Some \<lparr>connector_id = 31, connected = False, encoder_crtc = None\<rparr>,
       Some \<lparr>connector_id = 33, connected = True, encoder_crtc = Some 50\<rparr>],
     get_crtc = (\<lambda>c. Some \<lparr>mode_valid = True, hdisplay = 1024, vdisplay = 600\<rparr>)\<rparr>"

definition panel_fb_env :: fb_env where
  "panel_fb_env = \<lparr>create_dumb = Some (1, 4096, 2457600), add_fb = Some 7, prime_fd = Some 9\<rparr>"

definition panel_state :: drm_state where
  "panel_state = \<lparr>drm_fd = 4, fb_handle = 0, fb_id = 0, dmabuf_fd = -1,
     info = \<lparr>info_width = 0, info_height = 0, info_stride = 0, info_format = 0, info_size = 0\<rparr>,
     outputs = [\<lparr>conn_id = 33, crtc_id = 50, saved_crtc = Some \<lparr>mode_valid = True, hdisplay = 1024, vdisplay = 600\<rparr>\<rparr>]\<rparr>"

definition panel_started :: drm_state where
  "panel_started = panel_state\<lparr>fb_handle := 1, fb_id := 7, dmabuf_fd := 9,
     info := \<lparr>info_width = 1024, info_height = 600, info_stride = 4096, info_format = DRM_FORMAT_XRGB8888,
       info_size = 2457600\<rparr>\<rparr>"

lemma panel_init: "drm_init panel_env = (Some panel_state, [])"
  by (simp add: drm_init_def panel_env_def panel_state_def drm_calloc_def MAX_OUTS_def Let_def)

lemma panel_create:
  "drm_create_framebuffer (\<lambda>_ _. True) panel_fb_env panel_state (\<lambda>_. 0) = (0, panel_started, (\<lambda>_. 0)(50 := 7))"
  by (simp add: drm_create_framebuffer_def panel_fb_env_def panel_state_def panel_started_def
      drm_display_on_def has_mode_def set_crtc_def Let_def)

definition panel_mgr :: display_mgr where
  "panel_mgr = dbus_init (\<lambda>_. True) panel_started ((\<lambda>_. 0)(50 := 7))"

theorem lease_exclusive_witness:
  "fst (mgr_run (\<lambda>_ _. True) panel_mgr
      [Acquire (Some '':1.9'') 12 0 0, Vanished '':1.4'', Acquire (Some '':1.9'') 12 0 0, Acquire (Some '':1.4'') 10 0 0])
   = [(Acquire (Some '':1.9'') 12 0 0, Some (Granted 9 (info panel_started))), (Vanished '':1.4'', None),
      (Acquire (Some '':1.9'') 12 0 0, Some Lease_Held),
      (Acquire (Some '':1.4'') 10 0 0, Some (Granted 9 (info panel_started)))]"
proof -
  let ?es = "[Acquire (Some '':1.9'') 12 0 0, Vanished '':1.4'', Acquire (Some '':1.9'') 12 0 0, Acquire (Some '':1.4'') 10 0 0]"
  obtain l m' where run: "mgr_run (\<lambda>_ _. True) panel_mgr ?es = (l, m')" by fastforce
  have "lease panel_mgr = None" by (simp add: panel_mgr_def dbus_init_def)
  note due = lease_exclusive [OF run this, THEN conjunct2, rule_format]
  have buf: "the_buffer panel_mgr = Granted 9 (info panel_started)"
    by (simp add: the_buffer_def panel_mgr_def dbus_init_def panel_started_def)
  from run obtain r1 r2 r3 r4 where l: "l = zip ?es [r1, r2, r3, r4]"
    by (auto split: prod.splits)
  have "r4 = Some (Granted 9 (info panel_started))"
    using due [of "zip (take 3 ?es) [r1, r2, r3]" "?es ! 3" r4 "[]"] by (simp add: l buf)
  moreover from this have "r3 = Some Lease_Held"
    using due [of "zip (take 2 ?es) [r1, r2]" "?es ! 2" r3 "zip (drop 3 ?es) [r4]"] by (simp add: l buf)
  moreover have "r2 = None"
    using due [of "zip (take 1 ?es) [r1]" "?es ! 1" r2 "zip (drop 2 ?es) [r3, r4]"] by (simp add: l buf)
  ultimately have "r1 = Some (Granted 9 (info panel_started))"
    using due [of "[]" "?es ! 0" r1 "zip (drop 1 ?es) [r2, r3, r4]"] by (simp add: l buf)
  then show ?thesis using run l \<open>r2 = None\<close> \<open>r3 = Some Lease_Held\<close> \<open>r4 = _\<close> by simp
qed

theorem display_power_truthful_witness:
  "(\<lambda>m. display_on m \<and> lit (drm m) (kms m) \<and> state_signals m = [True, False])
     (snd (mgr_run (\<lambda>_ _. True) panel_mgr [On, On, Off]))
   \<and> dark (drm (snd (mgr_run (\<lambda>_ _. True) panel_mgr [Off]))) (kms (snd (mgr_run (\<lambda>_ _. True) panel_mgr [Off])))"
proof -
  have id: "fb_id panel_started \<noteq> 0" by (simp add: panel_started_def)
  let ?m = "\<lambda>es. snd (mgr_run (\<lambda>_ _. True) panel_mgr es)"
  have p: "display_on (?m es) = asked True es \<and> (if display_on (?m es) then lit (drm (?m es)) (kms (?m es))
      else dark (drm (?m es)) (kms (?m es))) \<and> state_signals (?m es) = changes True es" for es
    unfolding panel_mgr_def
    using display_power_truthful [OF _ panel_init panel_create id _ refl, where readable = "\<lambda>_. True" and es = es] by blast
  have "asked True [On, On, Off]" "changes True [On, On, Off] = [True, False]" "\<not> asked True [Off]" by simp_all
  with p [of "[On, On, Off]"] p [of "[Off]"] show ?thesis by presburger
qed

end
