(* ===== verification/C_Strings.thy ===== *)
theory C_Strings
  imports Prelude
begin

text \<open>
  The character classes and the number parser of the C library, in the C locale and with the
  32-bit \<^verbatim>\<open>unsigned long\<close> of the target, as the bridge and the command line tools use them, and
  that they read back what was printed in decimal.
\<close>

section \<open>Numbers in C strings\<close>

definition c_isspace :: "char \<Rightarrow> bool" where
  "c_isspace ch \<longleftrightarrow> ch = CHR '' '' \<or> (9 \<le> (of_char ch :: nat) \<and> (of_char ch :: nat) \<le> 13)"

definition c_isdigit :: "char \<Rightarrow> bool" where
  "c_isdigit ch \<longleftrightarrow> 48 \<le> (of_char ch :: nat) \<and> (of_char ch :: nat) \<le> 57"

definition c_tolower :: "char \<Rightarrow> char" where
  "c_tolower ch = (if 65 \<le> (of_char ch :: nat) \<and> (of_char ch :: nat) \<le> 90 then char_of ((of_char ch :: nat) + 32) else ch)"

text \<open>The digits read so far are worth \<open>acc\<close>.\<close>

fun digits_value :: "nat \<Rightarrow> string \<Rightarrow> nat" where
  "digits_value acc [] = acc"
| "digits_value acc (ch # s) = digits_value (10 * acc + (of_char ch - 48)) s"

text \<open>
  \<^verbatim>\<open>strtoul\<close> in base ten: the value and what is left. A value too large is the largest
  \<^verbatim>\<open>unsigned long\<close>, which has 32 bits; a minus sign negates modulo 2^32; without a digit
  nothing is read.
\<close>

definition strtoul :: "string \<Rightarrow> u32 \<times> string" where
  "strtoul s =
     (let s1 = dropWhile c_isspace s;
          neg = (s1 \<noteq> [] \<and> hd s1 = CHR ''-'');
          s2 = (if s1 \<noteq> [] \<and> (hd s1 = CHR ''-'' \<or> hd s1 = CHR ''+'') then tl s1 else s1);
          ds = takeWhile c_isdigit s2;
          n = digits_value 0 ds
      in if ds = [] then (0, s)
         else (if n > 4294967295 then 4294967295 else if neg then - of_nat n else of_nat n,
               dropWhile c_isdigit s2))"

text \<open>
  \<^verbatim>\<open>strtol\<close> in base ten without the end pointer: a value that does not fit a \<^verbatim>\<open>long\<close> of 32 bits is the
  nearest one that does. \<^verbatim>\<open>atoi\<close> is the same function.
\<close>

definition strtol :: "string \<Rightarrow> int" where
  "strtol s =
     (let s1 = dropWhile c_isspace s;
          neg = (s1 \<noteq> [] \<and> hd s1 = CHR ''-'');
          s2 = (if s1 \<noteq> [] \<and> (hd s1 = CHR ''-'' \<or> hd s1 = CHR ''+'') then tl s1 else s1);
          n = int (digits_value 0 (takeWhile c_isdigit s2))
      in if neg then max (- 2147483648) (- n) else min 2147483647 n)"

definition atoi :: "string \<Rightarrow> int" where
  "atoi s = strtol s"

section \<open>Command lines\<close>

text \<open>
  \<^verbatim>\<open>getopt\<close> over the arguments after the program's name: the options found, an unknown one or one
  whose argument is missing as \<open>?\<close>, and the operands, which the library moves behind the options.
  \<open>opts c\<close> is whether the option \<open>c\<close> takes an argument, if it is an option.
\<close>

type_synonym option_spec = "char \<Rightarrow> bool option"

fun getopt_cluster :: "option_spec \<Rightarrow> string \<Rightarrow> string list \<Rightarrow> (char \<times> string) list \<times> string list" where
  "getopt_cluster opts [] rest = ([], rest)"
| "getopt_cluster opts (c # cs) rest =
     (case opts c of
        None \<Rightarrow> (case getopt_cluster opts cs rest of (found, rest') \<Rightarrow> ((CHR ''?'', []) # found, rest'))
      | Some False \<Rightarrow> (case getopt_cluster opts cs rest of (found, rest') \<Rightarrow> ((c, []) # found, rest'))
      | Some True \<Rightarrow>
          if cs \<noteq> [] then ([(c, cs)], rest)
          else (case rest of [] \<Rightarrow> ([(CHR ''?'', [])], []) | a # rest' \<Rightarrow> ([(c, a)], rest')))"

lemma getopt_cluster_shorter: "length (snd (getopt_cluster opts cs rest)) \<le> length rest"
  by (induction opts cs rest rule: getopt_cluster.induct) (auto split: option.splits bool.splits list.splits prod.splits)

function getopt :: "option_spec \<Rightarrow> string list \<Rightarrow> (char \<times> string) list \<times> string list" where
  "getopt opts [] = ([], [])"
| "getopt opts (a # args) =
     (if a = ''--'' then ([], args)
      else if 2 \<le> length a \<and> hd a = CHR ''-'' then
        (case getopt opts (snd (getopt_cluster opts (tl a) args)) of
           (found, operands) \<Rightarrow> (fst (getopt_cluster opts (tl a) args) @ found, operands))
      else (case getopt opts args of (found, operands) \<Rightarrow> (found, a # operands)))"
  by pat_completeness auto
termination
  by (relation "measure (\<lambda>(opts, args). length args)") (auto simp: le_imp_less_Suc getopt_cluster_shorter)

text \<open>Arguments that do not start with a dash are operands, in their order.\<close>

lemma getopt_operands:
  "\<forall>a \<in> set args. a = [] \<or> hd a \<noteq> CHR ''-'' \<Longrightarrow> getopt opts args = ([], args)"
  by (induction args) auto

lemma getopt_after_dashes: "getopt opts (''--'' # args) = ([], args)"
  by simp

section \<open>Printing and parsing\<close>

definition is_number :: "string \<Rightarrow> bool" where
  "is_number s \<longleftrightarrow> s \<noteq> [] \<and> list_all c_isdigit s"

lemma digit_char: "d < 10 \<Longrightarrow> c_isdigit (char_of (48 + d)) \<and> (of_char (char_of (48 + d) :: char) :: nat) = 48 + d"
  by (simp add: c_isdigit_def)

lemma decimal_is_number: "is_number (decimal n)"
proof (induction n rule: decimal.induct)
  case (1 n)
  then show ?case using digit_char [of n] digit_char [of "n mod 10"]
    by (subst decimal.simps) (auto simp: is_number_def)
qed

lemma digits_value_append: "digits_value acc (s @ t) = digits_value (digits_value acc s) t"
  by (induction s arbitrary: acc) simp_all

lemma digits_value_decimal: "digits_value 0 (decimal n) = n"
proof (induction n rule: decimal.induct)
  case (1 n)
  then show ?case using digit_char [of n] digit_char [of "n mod 10"]
    by (subst decimal.simps) (auto simp: digits_value_append)
qed

text \<open>A digit is no space, no sign, no NUL and no \<^verbatim>\<open>x\<close>.\<close>

lemma digit_is_plain:
  assumes "c_isdigit ch"
  shows "\<not> c_isspace ch" "ch \<noteq> CHR ''-''" "ch \<noteq> CHR ''+''" "ch \<noteq> CHR 0x00" "ch \<noteq> CHR ''x''"
  using assms by (auto simp: c_isdigit_def c_isspace_def)

lemma strtoul_number:
  assumes "is_number s" and "digits_value 0 s \<le> 4294967295"
  shows "strtoul s = (of_nat (digits_value 0 s), [])"
proof -
  obtain ch r where s: "s = ch # r" using assms(1) by (cases s) (auto simp: is_number_def)
  then have ch: "c_isdigit ch" using assms(1) by (simp add: is_number_def)
  have all: "list_all c_isdigit s" using assms(1) by (simp add: is_number_def)
  then have "takeWhile c_isdigit s = s" "dropWhile c_isdigit s = []"
    by (simp_all add: list_all_iff takeWhile_eq_all_conv)
  moreover have "dropWhile c_isspace s = s" using digit_is_plain(1) [OF ch] by (simp add: s)
  ultimately show ?thesis using assms digit_is_plain [OF ch]
    by (simp add: strtoul_def Let_def s)
qed

lemma strtoul_number_then:
  assumes "is_number s" and "digits_value 0 s \<le> 4294967295" and "\<not> c_isdigit ch"
  shows "strtoul (s @ ch # t) = (of_nat (digits_value 0 s), ch # t)"
proof -
  obtain d r where s: "s = d # r" using assms(1) by (cases s) (auto simp: is_number_def)
  then have d: "c_isdigit d" using assms(1) by (simp add: is_number_def)
  have all: "\<forall>x \<in> set s. c_isdigit x" using assms(1) by (simp add: is_number_def list_all_iff)
  have "takeWhile c_isdigit (s @ ch # t) = s @ takeWhile c_isdigit (ch # t)"
    "dropWhile c_isdigit (s @ ch # t) = dropWhile c_isdigit (ch # t)"
    using all by (simp_all add: takeWhile_append2 dropWhile_append2)
  then have "takeWhile c_isdigit (s @ ch # t) = s" "dropWhile c_isdigit (s @ ch # t) = ch # t"
    using assms(3) by simp_all
  moreover have "dropWhile c_isspace (s @ ch # t) = s @ ch # t" using digit_is_plain(1) [OF d] by (simp add: s)
  ultimately show ?thesis using assms digit_is_plain [OF d]
    by (simp add: strtoul_def Let_def s)
qed

lemma strtol_number:
  assumes "is_number s"
  shows "strtol s = min 2147483647 (int (digits_value 0 s))"
proof -
  obtain ch r where s: "s = ch # r" using assms by (cases s) (auto simp: is_number_def)
  then have ch: "c_isdigit ch" using assms by (simp add: is_number_def)
  have "takeWhile c_isdigit s = s" using assms by (simp add: is_number_def list_all_iff takeWhile_eq_all_conv)
  moreover have "dropWhile c_isspace s = s" using digit_is_plain(1) [OF ch] by (simp add: s)
  ultimately show ?thesis using digit_is_plain [OF ch] by (simp add: strtol_def Let_def s)
qed

lemma number_c_string: "is_number s \<Longrightarrow> c_string s = s"
  unfolding c_string_def is_number_def list_all_iff using digit_is_plain(4) by (simp add: takeWhile_eq_all_conv)

end
