(* ===== verification/Mqtt_Bridge.thy ===== *)
theory Mqtt_Bridge
  imports C_Strings "HOL-Library.Monad_Syntax"
begin

text \<open>
  The MQTT bridge (\<^verbatim>\<open>dbus-mqtt-bridge\<close>): the topics it uses and the pace of its reconnections
  (\<^verbatim>\<open>mqtt.c\<close>), the commands it parses (\<^verbatim>\<open>main.c\<close>) and the D-Bus calls it makes of them
  (\<^verbatim>\<open>dbus_client.c\<close>), and the states it publishes. The broker and the bus are outside: a
  message is its topic and payload, a call is recorded with its arguments.
\<close>

section \<open>Payloads\<close>

definition strncasecmp_eq :: "string \<Rightarrow> string \<Rightarrow> bool" where
  "strncasecmp_eq a b \<longleftrightarrow> map c_tolower a = map c_tolower b"

definition parse_bool :: "string \<Rightarrow> bool option" where
  "parse_bool p =
     (if length p = 1 \<and> (p ! 0 = CHR ''0'' \<or> p ! 0 = CHR ''1'') then Some (p ! 0 = CHR ''1'')
      else if length p = 4 \<and> strncasecmp_eq p ''true'' then Some True
      else if length p = 5 \<and> strncasecmp_eq p ''false'' then Some False
      else None)"

text \<open>The payload is copied into an array and terminated, so a NUL in it ends the number.\<close>

definition parse_u32 :: "string \<Rightarrow> u32 option" where
  "parse_u32 p =
     (if length p = 0 \<or> length p > 10 then None
      else case strtoul (c_string p) of (v, rest) \<Rightarrow> if rest \<noteq> [] then None else Some v)"

definition parse_size :: "string \<Rightarrow> (u32 \<times> u32) option" where
  "parse_size p =
     (if length p = 0 \<or> length p > 20 then None
      else
        let buf = c_string p in
        if CHR ''x'' \<notin> set buf then None
        else
          let before = takeWhile (\<lambda>ch. ch \<noteq> CHR ''x'') buf;
              after = tl (dropWhile (\<lambda>ch. ch \<noteq> CHR ''x'') buf)
          in case strtoul before of (ww, e1) \<Rightarrow>
             case strtoul after of (hh, e2) \<Rightarrow>
               if e1 \<noteq> [] \<or> e2 \<noteq> [] then None
               else if ww = 0 \<or> hh = 0 \<or> ww > 10000 \<or> hh > 10000 then None
               else Some (ww, hh))"

section \<open>Commands\<close>

datatype bus_call =
    Ambience_Call string
  | Set_Transition_Time u32
  | Set_Embed_Qr bool
  | Set_Target_Size u32 u32

text \<open>\<^verbatim>\<open>on_cmd\<close>: the call made, if the command is known and its payload valid.\<close>

definition on_cmd :: "string \<Rightarrow> string \<Rightarrow> bus_call option" where
  "on_cmd suffix payload =
     (if suffix = ''ambience/next'' then Some (Ambience_Call ''Next'')
      else if suffix = ''ambience/prev'' then Some (Ambience_Call ''Prev'')
      else if suffix = ''ambience/force_on'' then Some (Ambience_Call ''ForceSlideshowOn'')
      else if suffix = ''ambience/force_off'' then Some (Ambience_Call ''ForceSlideshowOff'')
      else if suffix = ''ambience/set_transition_time_secs'' then
        map_option Set_Transition_Time (parse_u32 payload)
      else if suffix = ''photo_provider/set_embed_qr'' then map_option Set_Embed_Qr (parse_bool payload)
      else if suffix = ''photo_provider/set_target_size'' then
        map_option (\<lambda>(w, h). Set_Target_Size w h) (parse_size payload)
      else None)"

section \<open>The MQTT client\<close>

definition RECONNECT_THROTTLE_S :: int where "RECONNECT_THROTTLE_S = 30"

record rc_mqtt =
  mq_topic_prefix :: string
  cmd_prefix :: string
  bridge_state_topic :: string
  mq_host :: string
  mq_port :: u16
  mq_keepalive_s :: u16
  next_reconnect_ts :: int

text \<open>\<^verbatim>\<open>snprintf\<close> into an array of \<open>n\<close> bytes.\<close>

definition snprintf :: "nat \<Rightarrow> string \<Rightarrow> string" where
  "snprintf n s = take (n - 1) s"

datatype connect_call = Connect string u16 u16 | Reconnect

text \<open>\<open>socket_open\<close> is whether the library has a socket; the call made, if it is time.\<close>

definition try_connect :: "int \<Rightarrow> bool \<Rightarrow> rc_mqtt \<Rightarrow> connect_call option \<times> rc_mqtt" where
  "try_connect now socket_open m =
     (if now < next_reconnect_ts m then (None, m)
      else (Some (if \<not> socket_open then Connect (mq_host m) (mq_port m) (mq_keepalive_s m) else Reconnect),
            m\<lparr>next_reconnect_ts := now + RECONNECT_THROTTLE_S\<rparr>))"

text \<open>The client before its first connection attempt, and \<^verbatim>\<open>rc_mqtt_init\<close> with it.\<close>

definition mqtt_setup :: "string \<Rightarrow> string \<Rightarrow> u16 \<Rightarrow> u16 \<Rightarrow> rc_mqtt" where
  "mqtt_setup prefix host port keepalive =
     (let p = take 63 prefix in
      \<lparr>mq_topic_prefix = p, cmd_prefix = snprintf 96 (p @ ''cmd/''),
       bridge_state_topic = snprintf 128 (p @ ''state/bridge''), mq_host = take 127 host,
       mq_port = port, mq_keepalive_s = keepalive, next_reconnect_ts = 0\<rparr>)"

definition rc_mqtt_init :: "string \<Rightarrow> string \<Rightarrow> u16 \<Rightarrow> u16 \<Rightarrow> bool \<Rightarrow> bool \<Rightarrow> int
    \<Rightarrow> (connect_call option \<times> rc_mqtt) option" where
  "rc_mqtt_init prefix host port keepalive alloc_ok new_ok now =
     (if \<not> alloc_ok \<or> \<not> new_ok then None
      else Some (try_connect now False (mqtt_setup prefix host port keepalive)))"

text \<open>What a connection acknowledged with \<open>rc\<close> subscribes to and publishes.\<close>

definition on_connect_cb :: "rc_mqtt \<Rightarrow> int \<Rightarrow> string option \<times> (string \<times> string) option" where
  "on_connect_cb m rc =
     (if rc \<noteq> 0 then (None, None)
      else (Some (snprintf 128 (mq_topic_prefix m @ ''cmd/#'')), Some (bridge_state_topic m, ''online'')))"

definition on_message_cb :: "rc_mqtt \<Rightarrow> string option \<Rightarrow> string option \<Rightarrow> int \<Rightarrow> bus_call option" where
  "on_message_cb m topic payload payloadlen =
     (case topic of
        None \<Rightarrow> None
      | Some t \<Rightarrow>
          if length t \<le> length (cmd_prefix m) \<or> take (length (cmd_prefix m)) t \<noteq> cmd_prefix m then None
          else on_cmd (drop (length (cmd_prefix m)) t)
                 (case payload of None \<Rightarrow> [] | Some p \<Rightarrow> take (nat payloadlen) p))"

text \<open>
  A publication: topic and payload handed to \<^verbatim>\<open>mosquitto_publish\<close>, and what \<^verbatim>\<open>rc_mqtt_publish\<close> makes of
  its answer, which is an error when there is no connection to the broker.
\<close>

type_synonym publication = "(string \<times> string) \<times> int"

definition MOSQ_ERR_SUCCESS :: int where "MOSQ_ERR_SUCCESS = 0"

definition rc_mqtt_publish :: "rc_mqtt \<Rightarrow> string \<Rightarrow> string \<Rightarrow> int \<Rightarrow> publication" where
  "rc_mqtt_publish m suffix payload answer =
     ((snprintf 192 (mq_topic_prefix m @ suffix), payload), if answer = MOSQ_ERR_SUCCESS then 0 else -1)"

text \<open>The loop's calls of the library, each with its result (0 is success).\<close>

datatype loop_event = Loop_Read int bool | Loop_Misc int bool

definition MOSQ_ERR_NO_CONN :: int where "MOSQ_ERR_NO_CONN = 4"

definition mqtt_loop :: "int \<Rightarrow> loop_event \<Rightarrow> rc_mqtt \<Rightarrow> connect_call option \<times> rc_mqtt" where
  "mqtt_loop now e m =
     (case e of
        Loop_Read r open_socket \<Rightarrow> if r \<noteq> 0 then try_connect now open_socket m else (None, m)
      | Loop_Misc r open_socket \<Rightarrow>
          if \<not> open_socket then try_connect now False m
          else if r = MOSQ_ERR_NO_CONN then try_connect now open_socket m
          else (None, m))"

section \<open>Published states\<close>

text \<open>The handlers take no notice of what \<^verbatim>\<open>rc_mqtt_publish\<close> returns: a failed publication is lost.\<close>

definition occupancy_json :: "bool \<Rightarrow> u32 \<Rightarrow> nat \<Rightarrow> string" where
  "occupancy_json occ dist ts =
     [CHR ''{'', CHR 0x22] @ ''occupied'' @ [CHR 0x22, CHR '':''] @ (if occ then ''true'' else ''false'')
       @ [CHR '','', CHR 0x22] @ ''distance_cm'' @ [CHR 0x22, CHR '':''] @ decimal (unat dist)
       @ [CHR '','', CHR 0x22] @ ''ts'' @ [CHR 0x22, CHR '':''] @ decimal ts @ [CHR ''}'']"

definition on_occupancy :: "rc_mqtt \<Rightarrow> bool \<Rightarrow> u32 \<Rightarrow> nat \<Rightarrow> int \<Rightarrow> publication option" where
  "on_occupancy m occ dist ts answer =
     (let payload = occupancy_json occ dist ts
      in if length payload < 128 then Some (rc_mqtt_publish m ''state/occupancy'' payload answer) else None)"

definition on_displayed_photo_changed :: "rc_mqtt \<Rightarrow> string \<Rightarrow> int \<Rightarrow> publication" where
  "on_displayed_photo_changed m meta answer = rc_mqtt_publish m ''state/displayed_photo'' meta answer"

definition on_slideshow_active_changed :: "rc_mqtt \<Rightarrow> bool \<Rightarrow> int \<Rightarrow> publication" where
  "on_slideshow_active_changed m active answer =
     rc_mqtt_publish m ''state/slideshow_active'' (if active then ''true'' else ''false'') answer"

section \<open>Printing and parsing\<close>

lemma parse_u32_decimal:
  assumes "n < 2 ^ 32"
  shows "parse_u32 (decimal n) = Some (of_nat n)"
proof -
  have "length (decimal n) \<le> 10" using length_decimal_le [of n 9] assms by simp
  then show ?thesis
    using strtoul_number [OF decimal_is_number, of n] assms
    by (simp add: parse_u32_def number_c_string [OF decimal_is_number] digits_value_decimal)
qed

lemma parse_size_decimal:
  assumes "0 < w" "w \<le> 10000" "0 < h" "h \<le> 10000"
  shows "parse_size (decimal w @ ''x'' @ decimal h) = Some (of_nat w, of_nat h)"
proof -
  let ?p = "decimal w @ CHR ''x'' # decimal h"
  have len: "length (decimal w) \<le> 5" "length (decimal h) \<le> 5"
    using length_decimal_le [of w 4] length_decimal_le [of h 4] assms by simp_all
  have dig: "\<forall>ch \<in> set (decimal w). c_isdigit ch" "\<forall>ch \<in> set (decimal h). c_isdigit ch"
    using decimal_is_number [of w] decimal_is_number [of h] by (simp_all add: is_number_def list_all_iff)
  then have buf: "c_string ?p = ?p"
    using digit_is_plain(4) by (auto simp: c_string_def takeWhile_eq_all_conv)
  have nx: "\<forall>ch \<in> set (decimal w). ch \<noteq> CHR ''x''" using dig(1) digit_is_plain(5) by blast
  then have parts: "takeWhile (\<lambda>ch. ch \<noteq> CHR ''x'') ?p = decimal w" "tl (dropWhile (\<lambda>ch. ch \<noteq> CHR ''x'') ?p) = decimal h"
    by (simp_all add: takeWhile_append2 dropWhile_append2)
  have num: "strtoul (decimal w) = (of_nat w, [])" "strtoul (decimal h) = (of_nat h, [])"
    using strtoul_number [OF decimal_is_number] assms by (simp_all add: digits_value_decimal)
  have val: "unat (of_nat w :: u32) = w" "unat (of_nat h :: u32) = h"
    using assms by (simp_all add: unat_of_nat_small)
  have "(of_nat w :: u32) \<noteq> 0" "(of_nat h :: u32) \<noteq> 0" "\<not> (of_nat w :: u32) > 10000" "\<not> (of_nat h :: u32) > 10000"
    using val assms by (auto simp: word_less_nat_alt simp flip: unat_eq_0)
  then show ?thesis using len unfolding parse_size_def by (simp add: buf parts num Let_def)
qed

section \<open>The topics and the commands\<close>

lemma setup_topics:
  assumes "length prefix \<le> 63"
  shows "mq_topic_prefix (mqtt_setup prefix host port ka) = prefix"
    "cmd_prefix (mqtt_setup prefix host port ka) = prefix @ ''cmd/''"
    "bridge_state_topic (mqtt_setup prefix host port ka) = prefix @ ''state/bridge''"
  using assms by (simp_all add: mqtt_setup_def snprintf_def Let_def)

lemma parse_bool_iff:
  "parse_bool p = (if p = ''1'' \<or> map c_tolower p = ''true'' then Some True
     else if p = ''0'' \<or> map c_tolower p = ''false'' then Some False else None)"
proof -
  have one: "length p = 1 \<and> p ! 0 = x \<longleftrightarrow> p = [x]" for x by (auto simp: length_Suc_conv)
  have low: "map c_tolower ''true'' = ''true''" "map c_tolower ''false'' = ''false''" by code_simp+
  have t: "length p = 4" if "map c_tolower p = ''true''" using arg_cong [OF that, of length] by simp
  have f: "length p = 5" if "map c_tolower p = ''false''" using arg_cong [OF that, of length] by simp
  show ?thesis
  proof (cases "length p = 1")
    case True
    then obtain x where "p = [x]" by (auto simp: length_Suc_conv)
    then show ?thesis by (auto simp: parse_bool_def)
  next
    case False
    then have "p \<noteq> ''1''" "p \<noteq> ''0''" by auto
    then show ?thesis using False t f unfolding parse_bool_def strncasecmp_eq_def low by auto
  qed
qed

text \<open>What is published, on the topic that is the prefix and the state's name.\<close>

lemma publish_topic:
  assumes "length prefix \<le> 63" "length suffix \<le> 128"
  shows "rc_mqtt_publish (mqtt_setup prefix host port ka) suffix payload a
    = ((prefix @ suffix, payload), if a = 0 then 0 else -1)"
  using assms by (simp add: rc_mqtt_publish_def setup_topics snprintf_def MOSQ_ERR_SUCCESS_def)

lemma occupancy_fits:
  assumes "ts < 2 ^ 63"
  shows "length (occupancy_json occ dist ts) < 128"
proof -
  have "length (decimal ts) \<le> 19" using length_decimal_le [of ts 18] assms by simp
  moreover have "length (decimal (unat dist)) \<le> 10"
    using length_decimal_le [of "unat dist" 9] unat_bound [of dist] by simp
  ultimately show ?thesis by (simp add: occupancy_json_def)
qed

lemma states_published:
  assumes "length prefix \<le> 63" and m: "m = mqtt_setup prefix host port ka" and "ts < 2 ^ 63"
  shows "on_occupancy m occ dist ts a
      = Some ((prefix @ ''state/occupancy'', occupancy_json occ dist ts), if a = 0 then 0 else -1)"
    and "on_displayed_photo_changed m meta a = ((prefix @ ''state/displayed_photo'', meta), if a = 0 then 0 else -1)"
    and "on_slideshow_active_changed m b a
      = ((prefix @ ''state/slideshow_active'', if b then ''true'' else ''false''), if a = 0 then 0 else -1)"
  using occupancy_fits [OF assms(3), of occ dist]
  by (simp_all add: m on_occupancy_def on_displayed_photo_changed_def on_slideshow_active_changed_def
      publish_topic [OF assms(1)])

lemma commands_dispatched:
  assumes "length prefix \<le> 63" and m: "m = mqtt_setup prefix host port ka"
  shows "suffix \<noteq> [] \<Longrightarrow> on_message_cb m (Some (prefix @ ''cmd/'' @ suffix)) (Some payload) (int (length payload))
      = on_cmd suffix payload"
    and "(\<nexists>suffix. suffix \<noteq> [] \<and> t = prefix @ ''cmd/'' @ suffix) \<Longrightarrow> on_message_cb m (Some t) pl k = None"
proof -
  note topics = setup_topics [OF assms(1), of host port ka, folded m]
  show "on_message_cb m (Some (prefix @ ''cmd/'' @ suffix)) (Some payload) (int (length payload)) = on_cmd suffix payload"
    if "suffix \<noteq> []" using that by (simp add: on_message_cb_def topics)
  show "on_message_cb m (Some t) pl k = None" if "\<nexists>suffix. suffix \<noteq> [] \<and> t = prefix @ ''cmd/'' @ suffix"
  proof (rule ccontr)
    let ?c = "prefix @ ''cmd/''"
    assume "on_message_cb m (Some t) pl k \<noteq> None"
    then have "length ?c < length t" "take (length ?c) t = ?c"
      by (auto simp: on_message_cb_def topics split: if_splits)
    moreover from this have "t = ?c @ drop (length ?c) t" by (metis append_take_drop_id)
    ultimately have "drop (length ?c) t \<noteq> []" "t = prefix @ ''cmd/'' @ drop (length ?c) t" by simp_all
    with that show False by blast
  qed
qed

text \<open>
  C25. What the topics and payloads say is what is done. With a prefix of at most 63 characters
  no topic is cut. On a connection the bridge subscribes to all commands under the prefix and
  announces itself on \<^verbatim>\<open>state/bridge\<close>; a message below \<^verbatim>\<open>cmd/\<close> is dispatched by the rest of its topic, and a
  message elsewhere does nothing. Every number printed in decimal that fits 32 bits and every
  size of 1 to 10000 pixels printed as \<^verbatim>\<open>WxH\<close> is parsed back into the call with exactly those
  arguments; the payloads that switch the QR code on are exactly 1 and true, and off exactly 0 and false,
  the words in any case; the four commands without a payload make their call whatever the
  payload. Each state is published with its payload on the topic that is the prefix followed
  by the name of the state (the time of an occupancy report being below 2^63).
\<close>

theorem bridge_commands_roundtrip:
  assumes "length prefix \<le> 63" and m: "m = mqtt_setup prefix host port ka"
    and send: "\<And>suffix payload. send suffix payload
      = on_message_cb m (Some (prefix @ ''cmd/'' @ suffix)) (Some payload) (int (length payload))"
    and "n < 2 ^ 32" and "0 < w" and "w \<le> 10000" and "0 < h" and "h \<le> 10000" and "ts < 2 ^ 63"
  shows "on_connect_cb m 0 = (Some (prefix @ ''cmd/#''), Some (prefix @ ''state/bridge'', ''online''))
    \<and> (\<forall>suffix payload. suffix \<noteq> [] \<longrightarrow> send suffix payload = on_cmd suffix payload)
    \<and> (\<forall>t payload k. (\<nexists>suffix. suffix \<noteq> [] \<and> t = prefix @ ''cmd/'' @ suffix) \<longrightarrow> on_message_cb m (Some t) payload k = None)
    \<and> send ''ambience/set_transition_time_secs'' (decimal n) = Some (Set_Transition_Time (of_nat n))
    \<and> send ''photo_provider/set_target_size'' (decimal w @ ''x'' @ decimal h) = Some (Set_Target_Size (of_nat w) (of_nat h))
    \<and> send ''photo_provider/set_embed_qr'' p =
        (if p = ''1'' \<or> map c_tolower p = ''true'' then Some (Set_Embed_Qr True)
         else if p = ''0'' \<or> map c_tolower p = ''false'' then Some (Set_Embed_Qr False) else None)
    \<and> send ''ambience/next'' p = Some (Ambience_Call ''Next'')
    \<and> send ''ambience/prev'' p = Some (Ambience_Call ''Prev'')
    \<and> send ''ambience/force_on'' p = Some (Ambience_Call ''ForceSlideshowOn'')
    \<and> send ''ambience/force_off'' p = Some (Ambience_Call ''ForceSlideshowOff'')
    \<and> on_occupancy m occ dist ts a
        = Some ((prefix @ ''state/occupancy'', occupancy_json occ dist ts), if a = 0 then 0 else -1)
    \<and> on_displayed_photo_changed m meta a = ((prefix @ ''state/displayed_photo'', meta), if a = 0 then 0 else -1)
    \<and> on_slideshow_active_changed m b a
        = ((prefix @ ''state/slideshow_active'', if b then ''true'' else ''false''), if a = 0 then 0 else -1)"
proof -
  note disp = commands_dispatched [OF assms(1) m, folded send]
  have cmd: "on_cmd ''ambience/set_transition_time_secs'' (decimal n) = Some (Set_Transition_Time (of_nat n))"
    "on_cmd ''photo_provider/set_target_size'' (decimal w @ ''x'' @ decimal h) = Some (Set_Target_Size (of_nat w) (of_nat h))"
    "on_cmd ''photo_provider/set_embed_qr'' p =
        (if p = ''1'' \<or> map c_tolower p = ''true'' then Some (Set_Embed_Qr True)
         else if p = ''0'' \<or> map c_tolower p = ''false'' then Some (Set_Embed_Qr False) else None)"
    "on_cmd ''ambience/next'' p = Some (Ambience_Call ''Next'')"
    "on_cmd ''ambience/prev'' p = Some (Ambience_Call ''Prev'')"
    "on_cmd ''ambience/force_on'' p = Some (Ambience_Call ''ForceSlideshowOn'')"
    "on_cmd ''ambience/force_off'' p = Some (Ambience_Call ''ForceSlideshowOff'')"
    using parse_u32_decimal [OF assms(4)] parse_size_decimal [OF assms(5-8)] by (simp_all add: on_cmd_def parse_bool_iff)
  have con: "on_connect_cb m 0 = (Some (prefix @ ''cmd/#''), Some (prefix @ ''state/bridge'', ''online''))"
    using assms(1) setup_topics [OF assms(1), of host port ka, folded m] by (simp add: on_connect_cb_def snprintf_def)
  have all: "\<forall>suffix payload. suffix \<noteq> [] \<longrightarrow> send suffix payload = on_cmd suffix payload"
    using disp(1) by blast
  have none: "\<forall>t payload k. (\<nexists>suffix. suffix \<noteq> [] \<and> t = prefix @ ''cmd/'' @ suffix) \<longrightarrow> on_message_cb m (Some t) payload k = None"
    using disp(2) by blast
  show ?thesis
    by (intro conjI con all none states_published [OF assms(1) m assms(9)])
      (simp_all only: disp(1) list.distinct not_False_eq_True cmd)
qed

theorem bridge_commands_roundtrip_witness:
  "on_message_cb (mqtt_setup ''home/'' ''h'' 1883 30) (Some ''home/cmd/photo_provider/set_target_size'')
     (Some ''1024x768'') 8 = Some (Set_Target_Size 1024 768)
   \<and> on_message_cb (mqtt_setup ''home/'' ''h'' 1883 30) (Some ''home/cmd/photo_provider/set_embed_qr'')
     (Some ''FALSE'') 5 = Some (Set_Embed_Qr False)
   \<and> on_slideshow_active_changed (mqtt_setup ''home/'' ''h'' 1883 30) True 0 = ((''home/state/slideshow_active'', ''true''), 0)"
proof -
  let ?m = "mqtt_setup ''home/'' ''h'' 1883 30"
  have d: "decimal 1024 @ ''x'' @ decimal 768 = ''1024x768''" by code_simp
  have low: "map c_tolower ''FALSE'' = ''false''" by code_simp
  have "length ''home/'' \<le> 63" by simp
  from bridge_commands_roundtrip [OF this refl refl, of 30 1024 768 1 "''h''" 1883 30 "''FALSE''" True 0 0 "[]" True]
  show ?thesis by (simp add: d [simplified] low [simplified])
qed

section \<open>Reconnections\<close>

text \<open>The times of the connection attempts of a run of the loop.\<close>

fun mqtt_run :: "rc_mqtt \<Rightarrow> (int \<times> loop_event) list \<Rightarrow> int list" where
  "mqtt_run m [] = []"
| "mqtt_run m ((now, e) # es) =
     (case mqtt_loop now e m of (c, m1) \<Rightarrow> (if c \<noteq> None then [now] else []) @ mqtt_run m1 es)"

lemma mqtt_loop_cases:
  assumes "mqtt_loop now e m = (c, m1)"
  shows "c = None \<and> m1 = m \<and> (\<forall>r. e = Loop_Misc r False \<longrightarrow> now < next_reconnect_ts m)
    \<or> c \<noteq> None \<and> next_reconnect_ts m \<le> now \<and> m1 = m\<lparr>next_reconnect_ts := now + RECONNECT_THROTTLE_S\<rparr>"
  using assms by (auto simp: mqtt_loop_def try_connect_def split: loop_event.splits if_splits)

lemma mqtt_run_throttled:
  assumes "sorted (map fst es)"
  shows "sorted_wrt (\<lambda>a b. a + RECONNECT_THROTTLE_S \<le> b) (mqtt_run m es)
    \<and> (\<forall>t \<in> set (mqtt_run m es). next_reconnect_ts m \<le> t)
    \<and> (\<forall>now r. (now, Loop_Misc r False) \<in> set es \<and> next_reconnect_ts m \<le> now \<longrightarrow>
        (\<exists>t \<in> set (mqtt_run m es). t \<le> now \<and> now < t + RECONNECT_THROTTLE_S))"
  using assms
proof (induction es arbitrary: m)
  case Nil
  then show ?case by simp
next
  case (Cons ev es)
  obtain now e where ev: "ev = (now, e)" by (cases ev)
  obtain c m1 where step: "mqtt_loop now e m = (c, m1)" by fastforce
  have pos: "0 < RECONNECT_THROTTLE_S" by (simp add: RECONNECT_THROTTLE_S_def)
  have late: "\<forall>p \<in> set es. now \<le> fst p" and srt: "sorted (map fst es)" using Cons.prems ev by auto
  note IH = Cons.IH [OF srt, of m1]
  from mqtt_loop_cases [OF step] show ?case
  proof (elim disjE conjE)
    assume "c = None" "m1 = m" "\<forall>r. e = Loop_Misc r False \<longrightarrow> now < next_reconnect_ts m"
    with IH show ?thesis unfolding ev by (auto simp: step)
  next
    assume c: "c \<noteq> None" "next_reconnect_ts m \<le> now" and m1: "m1 = m\<lparr>next_reconnect_ts := now + RECONNECT_THROTTLE_S\<rparr>"
    have run: "mqtt_run m (ev # es) = now # mqtt_run m1 es" using c ev step by simp
    have "\<exists>t \<in> set (mqtt_run m (ev # es)). t \<le> now' \<and> now' < t + RECONNECT_THROTTLE_S"
      if "(now', Loop_Misc r False) \<in> set (ev # es)" for now' r
    proof (cases "now' < now + RECONNECT_THROTTLE_S")
      case True
      then show ?thesis using that late unfolding run by (auto simp: ev)
    next
      case False
      then have "(now', Loop_Misc r False) \<in> set es" "next_reconnect_ts m1 \<le> now'"
        using that pos by (auto simp: ev m1)
      with IH show ?thesis unfolding run by auto
    qed
    moreover have "\<forall>t \<in> set (mqtt_run m1 es). now + RECONNECT_THROTTLE_S \<le> t" using IH by (simp add: m1)
    ultimately show ?thesis using IH c pos unfolding run by (auto intro: order_trans)
  qed
qed

text \<open>
  Reconnections are paced, and never given up. Whatever the loop reports, with the clock
  not going back: two attempts to connect, the one at start-up included, are at least thirty
  seconds apart, and whenever a turn of the loop finds no connection, an attempt was made less
  than thirty seconds ago or is made in that turn.
\<close>

theorem reconnects_throttled:
  assumes "rc_mqtt_init prefix host port ka True True now0 = Some (c, m)" and "0 \<le> now0"
    and "sorted (now0 # map fst es)"
  shows "c = Some (Connect (mq_host m) (mq_port m) (mq_keepalive_s m))
    \<and> sorted_wrt (\<lambda>a b. a + RECONNECT_THROTTLE_S \<le> b) (now0 # mqtt_run m es)
    \<and> (\<forall>now r. (now, Loop_Misc r False) \<in> set es \<longrightarrow>
        (\<exists>t \<in> set (now0 # mqtt_run m es). t \<le> now \<and> now < t + RECONNECT_THROTTLE_S))"
proof -
  have c: "c = Some (Connect (mq_host m) (mq_port m) (mq_keepalive_s m))"
    and next0: "next_reconnect_ts m = now0 + RECONNECT_THROTTLE_S"
    using assms(1,2) by (auto simp: rc_mqtt_init_def try_connect_def mqtt_setup_def Let_def split: if_splits)
  have srt: "sorted (map fst es)" and late: "\<forall>p \<in> set es. now0 \<le> fst p" using assms(3) by auto
  note run = mqtt_run_throttled [OF srt, of m]
  have "\<exists>t \<in> set (now0 # mqtt_run m es). t \<le> now \<and> now < t + RECONNECT_THROTTLE_S"
    if "(now, Loop_Misc r False) \<in> set es" for now r
  proof (cases "now < now0 + RECONNECT_THROTTLE_S")
    case True
    then show ?thesis using that late by auto
  next
    case False
    then show ?thesis using run that next0 by auto
  qed
  with c run next0 show ?thesis by auto
qed

theorem reconnects_throttled_witness:
  "mqtt_run (snd (try_connect 100 False (mqtt_setup ''home/'' ''h'' 1883 30)))
     [(101, Loop_Misc 0 False), (130, Loop_Misc 0 False), (131, Loop_Read 7 True), (160, Loop_Misc 4 True)] = [130, 160]
   \<and> sorted_wrt (\<lambda>a b. a + RECONNECT_THROTTLE_S \<le> b) [100, 130, 160]"
proof -
  let ?m = "snd (try_connect 100 False (mqtt_setup ''home/'' ''h'' 1883 30))"
  let ?es = "[(101, Loop_Misc 0 False), (130, Loop_Misc 0 False), (131, Loop_Read 7 True), (160, Loop_Misc 4 True)]"
  have run: "mqtt_run ?m ?es = [130, 160]"
    by (simp add: mqtt_loop_def try_connect_def mqtt_setup_def RECONNECT_THROTTLE_S_def MOSQ_ERR_NO_CONN_def Let_def)
  have i: "rc_mqtt_init ''home/'' ''h'' 1883 30 True True 100
      = Some (fst (try_connect 100 False (mqtt_setup ''home/'' ''h'' 1883 30)), ?m)"
    by (simp add: rc_mqtt_init_def)
  have "sorted ((100 :: int) # map fst ?es)" by simp
  from reconnects_throttled [OF i _ this] run show ?thesis by simp
qed

text \<open>\<^verbatim>\<open>parse_u32\<close> takes more than decimal numbers of 32 bits.\<close>

lemma parse_u32_lenient:
  "parse_u32 ''-1'' = Some 4294967295" "parse_u32 ''9999999999'' = Some 4294967295"
  "parse_u32 ('' +7'') = Some 7" "parse_u32 (''12'' @ [CHR 0x00] @ ''abc'') = Some 12"
  by (simp_all add: parse_u32_def c_string_def strtoul_def c_isspace_def c_isdigit_def Let_def)

end
