(* ===== verification/Rpigpio.thy ===== *)
theory Rpigpio
  imports Ledger
begin

text \<open>
  GPIO lines and the SPI bus of the board (\<^verbatim>\<open>lib/rpigpio/rpigpio.c\<close>). What the process asks of
  the kernel and of the allocator is a log of \<open>io\<close> events; what they answer may depend on all
  that happened before and is the parameter \<open>kernel\<close>. The \<open>ledger\<close> of a log is the multiset
  of descriptors and blocks that are still held, and is undefined as soon as something is
  released that is not held: a double \<^verbatim>\<open>close\<close> or \<^verbatim>\<open>free\<close>.
\<close>

section \<open>The kernel\<close>

record kernel =
  k_open :: "io list \<Rightarrow> string \<Rightarrow> int"
  k_alloc :: "io list \<Rightarrow> string \<Rightarrow> bool"
  k_access :: "io list \<Rightarrow> bool"
  k_chip_lines :: "io list \<Rightarrow> u32 option"
  k_get_line :: "io list \<Rightarrow> int \<Rightarrow> fd option"
  k_get_values :: "io list \<Rightarrow> 64 word option"
  k_set_values :: "io list \<Rightarrow> bool"
  k_spi_setup :: "io list \<Rightarrow> nat \<Rightarrow> bool"
  k_spi_send :: "io list \<Rightarrow> bool"

section \<open>GPIO\<close>

record gpio_line =
  line_fd :: fd
  line_flags :: gpio_dir

record gpio =
  chip_fd :: fd
  gpio_lines :: "gpio_line list"
  num_lines :: int

record gpio_pin =
  pin_no :: int
  direction :: gpio_dir
  initial_value :: int

definition MAX_LINES :: nat where
  "MAX_LINES = 64"

definition release_line :: "gpio \<Rightarrow> nat \<Rightarrow> io list \<Rightarrow> gpio \<times> io list" where
  "release_line g i l =
     (let f = line_fd (gpio_lines g ! i)
      in if 0 \<le> f
         then (g\<lparr>gpio_lines := (gpio_lines g)[i := (gpio_lines g ! i)\<lparr>line_fd := - 1\<rparr>]\<rparr>,
               l @ [Release (Fd f)])
         else (g, l))"

definition claim_line ::
  "kernel \<Rightarrow> gpio \<Rightarrow> int \<Rightarrow> gpio_dir \<Rightarrow> int option \<Rightarrow> io list \<Rightarrow> int \<times> gpio \<times> io list" where
  "claim_line k g pin flags value l =
     (if pin < 0 \<or> num_lines g \<le> pin then (- 1, g, l)
      else
        let (g1, l1) = release_line g (nat pin) l;
            l2 = l1 @ [Line_Request pin flags (map_option (\<lambda>v. v \<noteq> 0) value)]
        in case k_get_line k l2 pin of
             None \<Rightarrow> (- 1, g1, l2)
           | Some f \<Rightarrow>
               (0, g1\<lparr>gpio_lines := (gpio_lines g1)[nat pin := \<lparr>line_fd = f, line_flags = flags\<rparr>]\<rparr>,
                l2 @ [Acquire (Fd f)]))"

fun claim_pins :: "kernel \<Rightarrow> gpio \<Rightarrow> gpio_pin list \<Rightarrow> io list \<Rightarrow> int \<times> gpio \<times> io list" where
  "claim_pins k g [] l = (0, g, l)"
| "claim_pins k g (p # ps) l =
     (let v = (case direction p of RPIGPIO_OUTPUT \<Rightarrow> Some (initial_value p) | RPIGPIO_INPUT \<Rightarrow> None);
          (r, g1, l1) = claim_line k g (pin_no p) (direction p) v l
      in if r \<noteq> 0 then (- 1, g1, l1) else claim_pins k g1 ps l1)"

definition rpigpio_close :: "gpio option \<Rightarrow> io list \<Rightarrow> io list" where
  "rpigpio_close gp l =
     (case gp of
        None \<Rightarrow> l
      | Some g \<Rightarrow>
          l @ map (\<lambda>ln. Release (Fd (line_fd ln))) (filter (\<lambda>ln. 0 \<le> line_fd ln) (gpio_lines g))
            @ [Release (Fd (chip_fd g)), Release (Heap ''gpio'')])"

definition gpio_path :: "nat \<Rightarrow> string" where
  "gpio_path n = ''/dev/gpiochip'' @ decimal n"

definition fresh_gpio :: "fd \<Rightarrow> u32 \<Rightarrow> gpio" where
  "fresh_gpio f n =
     \<lparr>chip_fd = f,
      gpio_lines = replicate MAX_LINES \<lparr>line_fd = - 1, line_flags = RPIGPIO_INPUT\<rparr>,
      num_lines = (if n < of_nat MAX_LINES then uint n else int MAX_LINES)\<rparr>"

definition rpigpio_open :: "kernel \<Rightarrow> nat \<Rightarrow> gpio_pin list \<Rightarrow> io list \<Rightarrow> gpio option \<times> io list" where
  "rpigpio_open k chip_num pins l =
     (let f = k_open k l (gpio_path chip_num)
      in if f < 0 then (None, l)
         else
           let l1 = l @ [Acquire (Fd f)]
           in case k_chip_lines k l1 of
                None \<Rightarrow> (None, l1 @ [Release (Fd f)])
              | Some n \<Rightarrow>
                  if \<not> k_alloc k l1 ''gpio'' then (None, l1 @ [Release (Fd f)])
                  else
                    let (r, g, l2) = claim_pins k (fresh_gpio f n) pins (l1 @ [Acquire (Heap ''gpio'')])
                    in if r \<noteq> 0 then (None, rpigpio_close (Some g) l2) else (Some g, l2))"

definition line_ready :: "gpio \<Rightarrow> int \<Rightarrow> bool" where
  "line_ready g pin \<longleftrightarrow> 0 \<le> pin \<and> pin < int MAX_LINES \<and> 0 \<le> line_fd (gpio_lines g ! nat pin)"

definition rpigpio_read :: "kernel \<Rightarrow> gpio \<Rightarrow> int \<Rightarrow> io list \<Rightarrow> int \<times> io list" where
  "rpigpio_read k g pin l =
     (if \<not> line_ready g pin then (- 1, l)
      else
        let l1 = l @ [Line_Get (line_fd (gpio_lines g ! nat pin))]
        in case k_get_values k l1 of
             None \<Rightarrow> (- 1, l1)
           | Some bits \<Rightarrow> (uint (bits AND 1), l1))"

definition rpigpio_write :: "kernel \<Rightarrow> gpio \<Rightarrow> int \<Rightarrow> int \<Rightarrow> io list \<Rightarrow> int \<times> io list" where
  "rpigpio_write k g pin v l =
     (if \<not> line_ready g pin then (- 1, l)
      else
        let l1 = l @ [Line_Set (line_fd (gpio_lines g ! nat pin)) (v \<noteq> 0)]
        in (if k_set_values k l1 then 0 else - 1, l1))"

section \<open>SPI\<close>

record spi =
  spi_fd :: fd
  speed :: int

definition spi_path :: "nat \<Rightarrow> nat \<Rightarrow> string" where
  "spi_path dev channel = ''/dev/spidev'' @ decimal dev @ ''.'' @ decimal channel"

definition rpispi_open :: "kernel \<Rightarrow> nat \<Rightarrow> nat \<Rightarrow> int \<Rightarrow> io list \<Rightarrow> spi option \<times> io list" where
  "rpispi_open k dev channel baud l =
     (let f = k_open k l (spi_path dev channel)
      in if f < 0 then (None, l)
         else
           let l1 = l @ [Acquire (Fd f)]
           in if \<not> k_spi_setup k l1 0 \<or> \<not> k_spi_setup k l1 1 \<or> \<not> k_spi_setup k l1 2
              then (None, l1 @ [Release (Fd f)])
              else if \<not> k_alloc k l1 ''spi'' then (None, l1 @ [Release (Fd f)])
              else (Some \<lparr>spi_fd = f, speed = baud\<rparr>, l1 @ [Acquire (Heap ''spi'')]))"

definition rpispi_close :: "spi option \<Rightarrow> io list \<Rightarrow> io list" where
  "rpispi_close sp l =
     (case sp of
        None \<Rightarrow> l
      | Some s \<Rightarrow> l @ [Release (Fd (spi_fd s)), Release (Heap ''spi'')])"

definition rpispi_write :: "kernel \<Rightarrow> spi \<Rightarrow> u8 list \<Rightarrow> io list \<Rightarrow> int \<times> io list" where
  "rpispi_write k s buf l =
     (let l1 = l @ [Spi_Send (spi_fd s) buf]
      in (if k_spi_send k l1 then int (length buf) else - 1, l1))"


section \<open>What is held\<close>

definition line_owned :: "gpio_line \<Rightarrow> resource multiset" where
  "line_owned x = (if 0 \<le> line_fd x then {#Fd (line_fd x)#} else {#})"

definition gpio_owned :: "gpio \<Rightarrow> resource multiset" where
  "gpio_owned g = {#Fd (chip_fd g), Heap ''gpio''#} + (\<Sum>x\<in>#mset (gpio_lines g). line_owned x)"

definition spi_owned :: "spi \<Rightarrow> resource multiset" where
  "spi_owned s = {#Fd (spi_fd s), Heap ''spi''#}"

definition gpio_ok :: "gpio \<Rightarrow> bool" where
  "gpio_ok g \<longleftrightarrow> length (gpio_lines g) = MAX_LINES \<and> num_lines g \<le> int MAX_LINES"

lemma mset_pick:
  "i < length xs \<Longrightarrow> \<exists>M. mset xs = add_mset (xs ! i) M \<and> (\<forall>v. mset (xs[i := v]) = add_mset v M)"
  by (intro exI [of _ "mset xs - {#xs ! i#}"]) (simp add: mset_update)

lemma release_line_ledger:
  assumes "release_line g i l = (g', l')" "i < length (gpio_lines g)"
    and "ledger l = Some (R + gpio_owned g)" "gpio_ok g"
  shows "gpio_ok g' \<and> ledger l' = Some (R + gpio_owned g') \<and> line_fd (gpio_lines g' ! i) < 0 \<and>
      num_lines g' = num_lines g"
proof -
  obtain M where "mset (gpio_lines g) = add_mset (gpio_lines g ! i) M"
      "\<And>v. mset ((gpio_lines g)[i := v]) = add_mset v M"
    using mset_pick [OF assms(2)] by auto
  then show ?thesis
    using assms by (auto simp: release_line_def Let_def gpio_ok_def gpio_owned_def line_owned_def split: if_splits)
qed

lemma claim_line_ledger:
  assumes "claim_line k g pin flags v l = (r, g', l')" "\<forall>l p f. k_get_line k l p = Some f \<longrightarrow> 0 \<le> f"
    and "ledger l = Some (R + gpio_owned g)" "gpio_ok g"
  shows "gpio_ok g' \<and> ledger l' = Some (R + gpio_owned g')"
proof (cases "pin < 0 \<or> num_lines g \<le> pin")
  case True
  then show ?thesis using assms by (auto simp: claim_line_def)
next
  case False
  then have i: "nat pin < length (gpio_lines g)" using assms(4) by (auto simp: gpio_ok_def)
  obtain g1 l1 where rel: "release_line g (nat pin) l = (g1, l1)" by fastforce
  note g1 = release_line_ledger [OF rel i assms(3,4)]
  then have i1: "nat pin < length (gpio_lines g1)" using i assms(4) by (simp add: gpio_ok_def)
  then obtain M where "mset (gpio_lines g1) = add_mset (gpio_lines g1 ! nat pin) M"
      "\<And>v. mset ((gpio_lines g1)[nat pin := v]) = add_mset v M"
    using mset_pick by blast
  then show ?thesis
    using assms(1,2) g1 False
    by (auto simp: claim_line_def rel Let_def gpio_ok_def gpio_owned_def line_owned_def split: option.splits)
qed

lemma claim_pins_ledger:
  assumes "claim_pins k g pins l = (r, g', l')" "\<forall>l p f. k_get_line k l p = Some f \<longrightarrow> 0 \<le> f"
    and "ledger l = Some (R + gpio_owned g)" "gpio_ok g"
  shows "gpio_ok g' \<and> ledger l' = Some (R + gpio_owned g')"
  using assms
proof (induction pins arbitrary: g l)
  case (Cons p ps)
  then show ?case
    using claim_line_ledger [of k g "pin_no p" "direction p" _ l]
    by (auto simp: Let_def split: prod.splits if_splits)
qed auto

lemma rpigpio_close_ledger:
  assumes "ledger l = Some (R + gpio_owned g)"
  shows "ledger (rpigpio_close (Some g) l) = Some R"
proof -
  let ?rs = "map (\<lambda>x. Fd (line_fd x)) (filter (\<lambda>x. 0 \<le> line_fd x) (gpio_lines g)) @ [Fd (chip_fd g), Heap ''gpio'']"
  have "mset (map (\<lambda>x. Fd (line_fd x)) (filter (\<lambda>x. 0 \<le> line_fd x) ls)) = (\<Sum>x\<in>#mset ls. line_owned x)" for ls
    by (induction ls) (auto simp: line_owned_def)
  then have "mset ?rs = gpio_owned g" by (simp add: gpio_owned_def)
  moreover have "rpigpio_close (Some g) l = l @ map Release ?rs" by (simp add: rpigpio_close_def)
  ultimately show ?thesis using ledger_release_all [of R ?rs] assms by (simp add: ledger_append_steps)
qed

lemma fresh_gpio_owned: "gpio_ok (fresh_gpio f n) \<and> gpio_owned (fresh_gpio f n) = {#Fd f, Heap ''gpio''#}"
  by (auto simp: fresh_gpio_def gpio_ok_def gpio_owned_def line_owned_def MAX_LINES_def word_less_def)

definition lines_have_fds :: "kernel \<Rightarrow> bool" where
  "lines_have_fds k \<longleftrightarrow> (\<forall>l p f. k_get_line k l p = Some f \<longrightarrow> 0 \<le> f)"

lemma rpigpio_open_ledger:
  assumes "rpigpio_open k n pins l = (r, l')" "lines_have_fds k"
    and "ledger l = Some R"
  shows "case r of None \<Rightarrow> ledger l' = Some R
       | Some g \<Rightarrow> gpio_ok g \<and> ledger l' = Some (R + gpio_owned g)"
proof -
  have claimed: "gpio_ok g \<and> ledger l2 = Some (R + gpio_owned g)"
    if "claim_pins k (fresh_gpio f m) pins (l @ [Acquire (Fd f), Acquire (Heap ''gpio'')]) = (r2, g, l2)"
    for f m r2 g l2
    using claim_pins_ledger [OF that] assms(2,3) fresh_gpio_owned [of f m] by (simp add: lines_have_fds_def)
  show ?thesis
    using assms(1,3) claimed rpigpio_close_ledger
    by (fastforce simp: rpigpio_open_def Let_def split: if_splits option.splits prod.splits)
qed

lemma rpispi_open_ledger:
  assumes "rpispi_open k d c b l = (r, l')" "ledger l = Some R"
  shows "case r of None \<Rightarrow> ledger l' = Some R | Some s \<Rightarrow> ledger l' = Some (R + spi_owned s)"
  using assms by (auto simp: rpispi_open_def Let_def spi_owned_def split: if_splits)

lemma rpispi_close_ledger:
  "ledger l = Some (R + spi_owned s) \<Longrightarrow> ledger (rpispi_close (Some s) l) = Some R"
  by (simp add: rpispi_close_def spi_owned_def)

interpretation gpio_chip: device_handle "\<lambda>k. rpigpio_open k n pins" "\<lambda>_. rpigpio_close" gpio_owned lines_have_fds
  for n pins
proof
  fix k l R h l'
  assume "lines_have_fds k" "ledger l = Some R" "rpigpio_open k n pins l = (h, l')"
  then show "ledger l' = Some (R + (case h of None \<Rightarrow> {#} | Some x \<Rightarrow> gpio_owned x))"
    using rpigpio_open_ledger [of k n pins l h l' R] by (simp split: option.splits)
qed (simp_all add: rpigpio_close_ledger, simp add: rpigpio_close_def)

interpretation spi_bus: device_handle "\<lambda>k. rpispi_open k d c b" "\<lambda>_. rpispi_close" spi_owned "\<lambda>_. True"
  for d c b
proof
  fix k l R h l'
  assume "ledger l = Some R" "rpispi_open k d c b l = (h, l')"
  then show "ledger l' = Some (R + (case h of None \<Rightarrow> {#} | Some x \<Rightarrow> spi_owned x))"
    using rpispi_open_ledger [of k d c b l h l' R] by (simp split: option.splits)
qed (simp_all add: rpispi_close_ledger, simp add: rpispi_close_def)

lemma rpigpio_io_ledger [simp]:
  "ledger (snd (rpigpio_read k g pin l)) = ledger l"
  "ledger (snd (rpigpio_write k g pin v l)) = ledger l"
  "ledger (snd (rpispi_write k s buf l)) = ledger l"
  by (cases "ledger l"; simp add: rpigpio_read_def rpigpio_write_def rpispi_write_def Let_def split: option.split)+

lemma rpigpio_read_range: "fst (rpigpio_read k g pin l) \<in> {- 1, 0, 1}"
proof -
  have "uint (b AND 1) \<in> {0, 1}" for b :: "64 word"
    by (simp add: uint_and and_one_eq mod_2_eq_odd)
  then show ?thesis by (auto simp: rpigpio_read_def Let_def split: option.split)
qed

text \<open>A kernel that refuses nothing.\<close>

definition willing_kernel :: kernel where
  "willing_kernel =
     \<lparr>k_open = (\<lambda>l _. 3 + int (length l)), k_alloc = (\<lambda>_ _. True), k_access = (\<lambda>_. True),
      k_chip_lines = (\<lambda>_. Some 54), k_get_line = (\<lambda>l _. Some (3 + int (length l))),
      k_get_values = (\<lambda>_. Some 0), k_set_values = (\<lambda>_. True), k_spi_setup = (\<lambda>_ _. True),
      k_spi_send = (\<lambda>_. True)\<rparr>"

end
