(* ===== verification/Eink.thy ===== *)
theory Eink
  imports Rpigpio Text_Layout
begin

text \<open>
  The e-ink panel (\<^verbatim>\<open>lib/eink/eink.c\<close>): opening and closing it, packing the drawing into the
  bytes of the panel and sending them, and announcing a text in the largest letters that fit.
  Cairo is the parameter \<open>cairo\<close>: what drawing does to a canvas, the image data, and the
  extents of text. Sizes and indices are at most 4000 and kept as natural numbers.
\<close>

section \<open>Cairo\<close>

datatype cairo_op =
    Set_Operator_Source
  | Set_Source_Alpha int
  | Paint
  | Rectangle nat nat nat nat
  | Fill
  | Stroke
  | Select_Sans_Bold
  | Set_Font_Size real
  | Move_To real real
  | Show_Text string
  | Write_Png string
  | Set_Line_Width real
  | Rectangle_At real real real real

record 's cairo =
  c_new :: "'s"
  c_draw :: "cairo_op \<Rightarrow> 's \<Rightarrow> 's"
  c_data :: "'s \<Rightarrow> u8 list"
  c_stride :: nat
  c_alpha :: "'s \<Rightarrow> real option"
  c_font :: "'s \<Rightarrow> text_font"

section \<open>The display\<close>

record 's eink_display =
  mock_display :: bool
  png_file :: "string option"
  e_gpio :: "gpio option"
  e_spi :: "spi option"
  e_width :: nat
  e_height :: nat
  invert_color :: bool
  has_surface :: bool
  has_cr :: bool
  canvas :: "'s"
  cairo_fg_color :: int
  cairo_bg_color :: int
  byte_height :: nat
  render_buff_sz :: nat
  render_buff :: "u8 list option"

definition EPD_WIDTH :: nat where "EPD_WIDTH = 122"
definition EPD_HEIGHT :: nat where "EPD_HEIGHT = 250"
definition EPD_DC_PIN :: int where "EPD_DC_PIN = 25"
definition EPD_CS_PIN :: int where "EPD_CS_PIN = 8"
definition EPD_PWR_PIN :: int where "EPD_PWR_PIN = 18"
definition EPD_BUSY_PIN :: int where "EPD_BUSY_PIN = 24"
definition EPD_RST_PIN :: int where "EPD_RST_PIN = 9"

lemmas pin_defs = EPD_DC_PIN_def EPD_CS_PIN_def EPD_PWR_PIN_def EPD_BUSY_PIN_def EPD_RST_PIN_def

section \<open>Talking to the panel\<close>

definition sleep_ms :: "nat \<Rightarrow> io list \<Rightarrow> io list" where
  "sleep_ms ms l = (if 0 < ms then l @ [Slept ms] else l)"

fun busy_loop :: "kernel \<Rightarrow> gpio \<Rightarrow> nat \<Rightarrow> io list \<Rightarrow> bool \<times> io list" where
  "busy_loop k g 0 l = (False, l)"
| "busy_loop k g (Suc n) l =
     (let (v, l1) = rpigpio_read k g EPD_BUSY_PIN l
      in if v = 0 then (True, l1) else busy_loop k g n (sleep_ms 10 l1))"

definition dev_sleep_until_ready :: "kernel \<Rightarrow> gpio \<Rightarrow> io list \<Rightarrow> io list" where
  "dev_sleep_until_ready k g l = sleep_ms 10 (snd (busy_loop k g 50 l))"

datatype cmd_or_data = TX_CMD | TX_DATA

definition dev_tx :: "kernel \<Rightarrow> gpio \<Rightarrow> spi \<Rightarrow> cmd_or_data \<Rightarrow> u8 \<Rightarrow> io list \<Rightarrow> io list" where
  "dev_tx k g s is_cmd d l =
     (let v = (if is_cmd = TX_CMD then 0 else 1);
          l1 = snd (rpigpio_write k g EPD_DC_PIN v l);
          l2 = snd (rpigpio_write k g EPD_CS_PIN 0 l1);
          l3 = snd (rpispi_write k s [d] l2)
      in snd (rpigpio_write k g EPD_CS_PIN 1 l3))"

fun dev_txs :: "kernel \<Rightarrow> gpio \<Rightarrow> spi \<Rightarrow> (cmd_or_data \<times> u8) list \<Rightarrow> io list \<Rightarrow> io list" where
  "dev_txs k g s [] l = l"
| "dev_txs k g s ((c, d) # xs) l = dev_txs k g s xs (dev_tx k g s c d l)"

definition wakeup_bytes :: "bool \<Rightarrow> (cmd_or_data \<times> u8) list" where
  "wakeup_bytes partial = [(TX_CMD, 0x22), (TX_DATA, if partial then 0xff else 0xf7), (TX_CMD, 0x20)]"

definition dev_wakeup :: "kernel \<Rightarrow> gpio \<Rightarrow> spi \<Rightarrow> bool \<Rightarrow> io list \<Rightarrow> io list" where
  "dev_wakeup k g s partial l = dev_sleep_until_ready k g (dev_txs k g s (wakeup_bytes partial) l)"

definition quick_reset_bytes :: "nat \<Rightarrow> nat \<Rightarrow> (cmd_or_data \<times> u8) list" where
  "quick_reset_bytes w h =
     [(TX_CMD, 0x01), (TX_DATA, 0xF9), (TX_DATA, 0x00), (TX_DATA, 0x00),
      (TX_CMD, 0x11), (TX_DATA, 0x03),
      (TX_CMD, 0x44), (TX_DATA, 0x00), (TX_DATA, of_nat ((h - 1) div 8)),
      (TX_CMD, 0x45), (TX_DATA, 0x00), (TX_DATA, 0x00),
      (TX_DATA, of_nat (w - 1)), (TX_DATA, of_nat ((w - 1) div 256)),
      (TX_CMD, 0x4E), (TX_DATA, 0x00),
      (TX_CMD, 0x4F), (TX_DATA, 0x00), (TX_DATA, 0x00)]"

definition dev_quick_reset :: "kernel \<Rightarrow> gpio \<Rightarrow> spi \<Rightarrow> 's eink_display \<Rightarrow> io list \<Rightarrow> io list" where
  "dev_quick_reset k g s d l = dev_txs k g s (quick_reset_bytes (e_width d) (e_height d)) l"

definition pin_set :: "kernel \<Rightarrow> gpio \<Rightarrow> int \<Rightarrow> int \<Rightarrow> io list \<Rightarrow> io list" where
  "pin_set k g pin v l = snd (rpigpio_write k g pin v l)"

definition dev_init :: "kernel \<Rightarrow> gpio \<Rightarrow> spi \<Rightarrow> 's eink_display \<Rightarrow> io list \<Rightarrow> io list" where
  "dev_init k g s d l =
     (let l1 = sleep_ms 20 (pin_set k g EPD_RST_PIN 1 l);
          l2 = sleep_ms 2 (pin_set k g EPD_RST_PIN 0 l1);
          l3 = sleep_ms 20 (pin_set k g EPD_RST_PIN 1 l2);
          l4 = dev_txs k g s [(TX_CMD, 0x12)] (dev_sleep_until_ready k g l3);
          l5 = dev_quick_reset k g s d (dev_sleep_until_ready k g l4);
          l6 = dev_txs k g s
                 [(TX_CMD, 0x3C), (TX_DATA, 0x05), (TX_CMD, 0x21), (TX_DATA, 0x00), (TX_DATA, 0x80),
                  (TX_CMD, 0x18), (TX_DATA, 0x80)] l5
      in dev_sleep_until_ready k g l6)"

definition dev_shutdown :: "kernel \<Rightarrow> gpio \<Rightarrow> spi \<Rightarrow> io list \<Rightarrow> io list" where
  "dev_shutdown k g s l = sleep_ms 2000 (dev_txs k g s [(TX_CMD, 0x10), (TX_DATA, 0x01)] l)"

text \<open>The image bytes in the order of the two loops.\<close>

definition image_bytes :: "'s eink_display \<Rightarrow> u8 list \<Rightarrow> (cmd_or_data \<times> u8) list" where
  "image_bytes d img =
     concat (map (\<lambda>j. map (\<lambda>i. (TX_DATA, img ! (i + j * byte_height d))) [0..<byte_height d]) [0..<e_width d])"

definition dev_render ::
  "kernel \<Rightarrow> gpio \<Rightarrow> spi \<Rightarrow> 's eink_display \<Rightarrow> u8 list \<Rightarrow> bool \<Rightarrow> io list \<Rightarrow> io list" where
  "dev_render k g s d img is_partial l =
     (let l1 = (if is_partial
                then
                  let r0 = sleep_ms 1 (pin_set k g EPD_RST_PIN 0 l);
                      r1 = pin_set k g EPD_RST_PIN 1 r0
                  in dev_quick_reset k g s d (dev_txs k g s [(TX_CMD, 0x3C), (TX_DATA, 0x80)] r1)
                else dev_txs k g s [(TX_CMD, 0x3C), (TX_DATA, 0x05)] l);
          l2 = dev_txs k g s ((TX_CMD, 0x24) # image_bytes d img) l1;
          l3 = (if is_partial then dev_txs k g s ((TX_CMD, 0x26) # image_bytes d img) l2 else l2)
      in dev_wakeup k g s is_partial l3)"


section \<open>Opening and closing\<close>

definition eink_pins :: "gpio_pin list" where
  "eink_pins =
     [\<lparr>pin_no = EPD_BUSY_PIN, direction = RPIGPIO_INPUT, initial_value = 0\<rparr>,
      \<lparr>pin_no = EPD_RST_PIN, direction = RPIGPIO_OUTPUT, initial_value = 0\<rparr>,
      \<lparr>pin_no = EPD_DC_PIN, direction = RPIGPIO_OUTPUT, initial_value = 0\<rparr>,
      \<lparr>pin_no = EPD_PWR_PIN, direction = RPIGPIO_OUTPUT, initial_value = 0\<rparr>]"

definition blank_display :: "'s cairo \<Rightarrow> bool \<Rightarrow> 's eink_display" where
  "blank_display C mock =
     \<lparr>mock_display = mock, png_file = None, e_gpio = None, e_spi = None, e_width = 0, e_height = 0,
      invert_color = False, has_surface = False, has_cr = False, canvas = c_new C,
      cairo_fg_color = 0, cairo_bg_color = 0, byte_height = 0, render_buff_sz = 0, render_buff = None\<rparr>"

definition draws :: "'s cairo \<Rightarrow> cairo_op list \<Rightarrow> 's eink_display \<Rightarrow> 's eink_display" where
  "draws C ops d = d\<lparr>canvas := fold (c_draw C) ops (canvas d)\<rparr>"

text \<open>
  An allocation that may fail: the flag, and the log with the block when there is one. For Cairo's
  surface and context a failure is the null pointer the code tests for; Cairo itself never
  returns null but an error object, on which its functions do nothing, and that is not modelled.
\<close>

definition take_block :: "kernel \<Rightarrow> string \<Rightarrow> io list \<Rightarrow> bool \<times> io list" where
  "take_block k n l = (if k_alloc k l n then (True, l @ [Acquire (Heap n)]) else (False, l))"

definition drop_block :: "bool \<Rightarrow> string \<Rightarrow> io list \<Rightarrow> io list" where
  "drop_block b n l = (if b then l @ [Release (Heap n)] else l)"

definition eink_delete :: "kernel \<Rightarrow> 's eink_display option \<Rightarrow> io list \<Rightarrow> io list" where
  "eink_delete k dp l =
     (case dp of
        None \<Rightarrow> l
      | Some d \<Rightarrow>
          let l1 = drop_block (has_cr d) ''cr'' l;
              l2 = drop_block (has_surface d) ''surface'' l1;
              l3 = drop_block (render_buff d \<noteq> None) ''render_buff'' l2;
              l4 = (case (e_gpio d, e_spi d) of (Some g, Some s) \<Rightarrow> dev_shutdown k g s l3 | _ \<Rightarrow> l3);
              l5 = rpispi_close (e_spi d) (rpigpio_close (e_gpio d) l4);
              l6 = drop_block (png_file d \<noteq> None) ''png_file'' l5
          in l6 @ [Release (Heap ''display'')])"

text \<open>The part of \<open>eink_init\<close> that sets up the drawing surface.\<close>

definition init_surface :: "'s cairo \<Rightarrow> kernel \<Rightarrow> 's eink_display \<Rightarrow> io list \<Rightarrow> bool \<times> 's eink_display \<times> io list" where
  "init_surface C k d0 l =
     (let w = EPD_HEIGHT; h = EPD_WIDTH; bh = (h + 7) div 8; sz = bh * w;
          (surf, l1) = take_block k ''surface'' l;
          (buff, l2) = take_block k ''render_buff'' l1;
          (cr, l3) = take_block k ''cr'' l2;
          d = d0\<lparr>e_width := w, e_height := h, invert_color := False, cairo_fg_color := 1,
                 cairo_bg_color := 0, has_surface := surf, byte_height := bh, render_buff_sz := sz,
                 render_buff := (if buff then Some (replicate sz 0) else None), has_cr := cr\<rparr>
      in if \<not> surf \<or> \<not> buff \<or> \<not> cr then (False, d, l3)
         else (True, draws C [Set_Operator_Source, Set_Source_Alpha (cairo_bg_color d), Paint] d, l3))"

text \<open>The part that opens the devices.\<close>

definition init_devices :: "kernel \<Rightarrow> 's eink_display \<Rightarrow> io list \<Rightarrow> bool \<times> 's eink_display \<times> io list" where
  "init_devices k d l =
     (if \<not> k_access k l then (False, d, l)
      else
        let (g0, l1) = rpigpio_open k 0 eink_pins l;
            (gp, l2) = (case g0 of None \<Rightarrow> rpigpio_open k 4 eink_pins l1 | Some g \<Rightarrow> (Some g, l1))
        in case gp of
             None \<Rightarrow> (False, d, l2)
           | Some g \<Rightarrow>
               let (sp, l3) = rpispi_open k 0 0 10000000 l2;
                   d1 = d\<lparr>e_gpio := Some g, e_spi := sp\<rparr>
               in (case sp of
                    None \<Rightarrow> (False, d1, l3)
                  | Some s \<Rightarrow>
                      (True, d1,
                       dev_init k g s d1 (pin_set k g EPD_PWR_PIN 1 (pin_set k g EPD_CS_PIN 1 l3)))))"

definition eink_init ::
  "'s cairo \<Rightarrow> bool \<Rightarrow> string option \<Rightarrow> kernel \<Rightarrow> io list \<Rightarrow> 's eink_display option \<times> io list" where
  "eink_init C mock png k l =
     (let (got, l1) = take_block k ''display'' l
      in if \<not> got then (None, l1)
         else
           let d = blank_display C mock;
               (got_png, l2) = (case png of None \<Rightarrow> (False, l1) | Some _ \<Rightarrow> take_block k ''png_file'' l1)
           in if png \<noteq> None \<and> \<not> got_png then (None, eink_delete k (Some d) l2)
              else
                let (ok, d1, l3) = init_surface C k (d\<lparr>png_file := png\<rparr>) l2
                in if \<not> ok then (None, eink_delete k (Some d1) l3)
                   else if mock then (Some d1, l3)
                   else
                     let (ok2, d2, l4) = init_devices k d1 l3
                     in if \<not> ok2 then (None, eink_delete k (Some d2) l4) else (Some d2, l4))"

section \<open>Nothing leaks\<close>

definition display_owned :: "'s eink_display \<Rightarrow> resource multiset" where
  "display_owned d =
     {#Heap ''display''#} +
     (if has_cr d then {#Heap ''cr''#} else {#}) +
     (if has_surface d then {#Heap ''surface''#} else {#}) +
     (if render_buff d \<noteq> None then {#Heap ''render_buff''#} else {#}) +
     (if png_file d \<noteq> None then {#Heap ''png_file''#} else {#}) +
     (case e_gpio d of None \<Rightarrow> {#} | Some g \<Rightarrow> gpio_owned g) +
     (case e_spi d of None \<Rightarrow> {#} | Some s \<Rightarrow> spi_owned s)"

lemma sleep_ms_ledger [simp]: "ledger (sleep_ms ms l) = ledger l"
  by (cases "ledger l") (simp_all add: sleep_ms_def)

lemma busy_loop_ledger [simp]: "ledger (snd (busy_loop k g n l)) = ledger l"
proof (induction n arbitrary: l)
  case (Suc n)
  obtain v l1 where r: "rpigpio_read k g EPD_BUSY_PIN l = (v, l1)" by fastforce
  then have "ledger l1 = ledger l" by (metis rpigpio_io_ledger(1) snd_conv)
  then show ?case using Suc by (simp add: r)
qed simp

lemma dev_tx_ledger [simp]: "ledger (dev_tx k g s c b l) = ledger l"
  by (simp add: dev_tx_def Let_def)

lemma dev_txs_ledger [simp]: "ledger (dev_txs k g s xs l) = ledger l"
  by (induction xs arbitrary: l) auto

lemma dev_ledger [simp]:
  "ledger (dev_sleep_until_ready k g l) = ledger l"
  "ledger (pin_set k g p v l) = ledger l"
  by (simp_all add: dev_sleep_until_ready_def pin_set_def)

lemma dev_init_ledger [simp]: "ledger (dev_init k g s d l) = ledger l"
  by (simp add: dev_init_def Let_def dev_quick_reset_def)

lemma dev_shutdown_ledger [simp]: "ledger (dev_shutdown k g s l) = ledger l"
  by (simp add: dev_shutdown_def)


lemma take_block_ledger:
  "take_block k n l = (b, l') \<Longrightarrow> ledger l = Some R \<Longrightarrow>
     ledger l' = Some (R + (if b then {#Heap n#} else {#}))"
  by (auto simp: take_block_def split: if_splits)

lemma drop_block_ledger:
  "ledger l = Some (R + (if b then {#Heap n#} else {#})) \<Longrightarrow> ledger (drop_block b n l) = Some R"
  by (auto simp: drop_block_def)

lemma drop_block_ledger_shutdown:
  "ledger (case (gp, sp) of (Some g, Some s) \<Rightarrow> dev_shutdown k g s l | _ \<Rightarrow> l) = ledger l"
  by (auto split: option.split)

lemma eink_delete_ledger:
  assumes "ledger l = Some (R + display_owned d)"
  shows "ledger (eink_delete k (Some d) l) = Some R"
proof -
  let ?disp = "{#Heap ''display''#} :: resource multiset"
  let ?png = "(if png_file d \<noteq> None then {#Heap ''png_file''#} else {#}) :: resource multiset"
  let ?spi = "(case e_spi d of None \<Rightarrow> {#} | Some s \<Rightarrow> spi_owned s)"
  let ?gpio = "(case e_gpio d of None \<Rightarrow> {#} | Some g \<Rightarrow> gpio_owned g)"
  let ?buff = "(if render_buff d \<noteq> None then {#Heap ''render_buff''#} else {#}) :: resource multiset"
  let ?surf = "(if has_surface d then {#Heap ''surface''#} else {#}) :: resource multiset"
  let ?cr = "(if has_cr d then {#Heap ''cr''#} else {#}) :: resource multiset"
  let ?l1 = "drop_block (has_cr d) ''cr'' l"
  let ?l2 = "drop_block (has_surface d) ''surface'' ?l1"
  let ?l3 = "drop_block (render_buff d \<noteq> None) ''render_buff'' ?l2"
  let ?l4 = "case (e_gpio d, e_spi d) of (Some g, Some s) \<Rightarrow> dev_shutdown k g s ?l3 | _ \<Rightarrow> ?l3"
  let ?l5 = "rpigpio_close (e_gpio d) ?l4"
  let ?l6 = "rpispi_close (e_spi d) ?l5"
  have "ledger l = Some (R + ?disp + ?png + ?spi + ?gpio + ?buff + ?surf + ?cr)"
    using assms by (simp add: display_owned_def ac_simps)
  then have "ledger ?l1 = Some (R + ?disp + ?png + ?spi + ?gpio + ?buff + ?surf)" by (rule drop_block_ledger)
  then have "ledger ?l2 = Some (R + ?disp + ?png + ?spi + ?gpio + ?buff)" by (rule drop_block_ledger)
  then have "ledger ?l3 = Some (R + ?disp + ?png + ?spi + ?gpio)" by (rule drop_block_ledger)
  then have "ledger ?l4 = Some (R + ?disp + ?png + ?spi + ?gpio)" by (simp only: drop_block_ledger_shutdown)
  then have "ledger ?l5 = Some (R + ?disp + ?png + ?spi)" by (rule gpio_chip.release_held)
  then have "ledger ?l6 = Some (R + ?disp + ?png)" by (rule spi_bus.release_held)
  then have 7: "ledger (drop_block (png_file d \<noteq> None) ''png_file'' ?l6) = Some (R + ?disp)"
    by (rule drop_block_ledger)
  have "eink_delete k (Some d) l
      = drop_block (png_file d \<noteq> None) ''png_file'' ?l6 @ [Release (Heap ''display'')]"
    by (simp only: eink_delete_def option.case Let_def)
  then show ?thesis by (simp only: ledger_snoc 7) simp
qed

lemma init_surface_ledger:
  assumes "init_surface C k d l = (ok, d', l')" "ledger l = Some (R + display_owned d)"
    and "\<not> has_surface d" "\<not> has_cr d" "render_buff d = None"
  shows "ledger l' = Some (R + display_owned d')"
proof -
  obtain b1 l1 where a: "take_block k ''surface'' l = (b1, l1)" by fastforce
  obtain b2 l2 where b: "take_block k ''render_buff'' l1 = (b2, l2)" by fastforce
  obtain b3 l3 where c: "take_block k ''cr'' l2 = (b3, l3)" by fastforce
  note steps = take_block_ledger [OF c take_block_ledger [OF b take_block_ledger [OF a assms(2)]]]
  have d': "d' = fst (snd (init_surface C k d l))" "l' = snd (snd (init_surface C k d l))"
    using assms(1) by simp_all
  have "display_owned d' = display_owned d + (if b1 then {#Heap ''surface''#} else {#}) +
      (if b2 then {#Heap ''render_buff''#} else {#}) + (if b3 then {#Heap ''cr''#} else {#}) \<and> l' = l3"
    unfolding d' by (cases b1; cases b2; cases b3)
      (simp_all add: init_surface_def a b c Let_def draws_def display_owned_def assms(3-5))
  then show ?thesis using steps by (simp add: ac_simps)
qed

lemma display_owned_devices:
  assumes "e_gpio d = None" "e_spi d = None"
  shows "display_owned (d\<lparr>e_gpio := Some g, e_spi := sp\<rparr>)
      = display_owned d + gpio_owned g + (case sp of None \<Rightarrow> {#} | Some s \<Rightarrow> spi_owned s)"
  using assms by (simp add: display_owned_def)

lemma init_devices_ledger:
  assumes "init_devices k d l = (ok, d', l')" "lines_have_fds k" "ledger l = Some (R + display_owned d)"
    and "e_gpio d = None" "e_spi d = None"
  shows "ledger l' = Some (R + display_owned d')"
proof (cases "k_access k l")
  case True
  obtain g0 l1 where a: "rpigpio_open k 0 eink_pins l = (g0, l1)" by fastforce
  obtain gp l2 where b: "(case g0 of None \<Rightarrow> rpigpio_open k 4 eink_pins l1 | Some g \<Rightarrow> (Some g, l1)) = (gp, l2)"
    by fastforce
  obtain sp l3 where c: "rpispi_open k 0 0 10000000 l2 = (sp, l3)" by fastforce
  have 1: "ledger l1 = Some (R + display_owned d + (case g0 of None \<Rightarrow> {#} | Some x \<Rightarrow> gpio_owned x))"
    using gpio_chip.acquire_owned [OF assms(2,3) a] by (simp add: ac_simps)
  have 2: "ledger l2 = Some (R + display_owned d + (case gp of None \<Rightarrow> {#} | Some x \<Rightarrow> gpio_owned x))"
    using b 1 gpio_chip.acquire_owned [OF assms(2), of l1 "R + display_owned d" 4 eink_pins gp l2]
    by (cases g0) auto
  show ?thesis
  proof (cases gp)
    case None
    then show ?thesis using assms(1) 2 True by (auto simp: init_devices_def a b)
  next
    case (Some g)
    have "ledger l3 = Some (R + display_owned d + gpio_owned g + (case sp of None \<Rightarrow> {#} | Some x \<Rightarrow> spi_owned x))"
      using spi_bus.acquire_owned [OF TrueI _ c] 2 Some by simp
    then have "ledger l3 = Some (R + display_owned (d\<lparr>e_gpio := Some g, e_spi := sp\<rparr>))"
      by (simp add: display_owned_devices [OF assms(4,5)] ac_simps)
    then show ?thesis using assms(1) Some True
      by (cases sp) (auto simp: init_devices_def a b c Let_def)
  qed
next
  case False
  then show ?thesis using assms by (simp add: init_devices_def)
qed

lemma eink_init_ledger:
  assumes "lines_have_fds k" "ledger l = Some R" "eink_init C mock png k l = (h, l')"
  shows "ledger l' = Some (R + (case h of None \<Rightarrow> {#} | Some d \<Rightarrow> display_owned d))"
proof -
  obtain got l1 where a: "take_block k ''display'' l = (got, l1)" by fastforce
  show ?thesis
  proof (cases got)
    case False
    then show ?thesis using assms take_block_ledger [OF a assms(2)] by (simp add: eink_init_def a)
  next
    case True
    let ?d = "blank_display C mock"
    obtain gp l2 where b: "(case png of None \<Rightarrow> (False, l1) | Some _ \<Rightarrow> take_block k ''png_file'' l1) = (gp, l2)"
      by fastforce
    have 1: "ledger l1 = Some (R + display_owned ?d)"
      using take_block_ledger [OF a assms(2)] True by (simp add: display_owned_def blank_display_def)
    have 2: "ledger l2 = Some (R + display_owned ?d + (if gp then {#Heap ''png_file''#} else {#}))"
      using b 1 take_block_ledger [OF _ 1, of k "''png_file''" gp l2] by (cases png) auto
    show ?thesis
    proof (cases "png \<noteq> None \<and> \<not> gp")
      case True
      then show ?thesis using assms(3) 2 \<open>got\<close>
        by (auto simp: eink_init_def a b intro: eink_delete_ledger)
    next
      case False
      let ?d0 = "?d\<lparr>png_file := png\<rparr>"
      have gp: "gp \<longleftrightarrow> png \<noteq> None" using False b by (cases png) auto
      obtain ok d1 l3 where c: "init_surface C k ?d0 l2 = (ok, d1, l3)" using prod_cases3 by blast
      have "ledger l2 = Some (R + display_owned ?d0)"
        using 2 gp by (auto simp: display_owned_def blank_display_def)
      then have 3: "ledger l3 = Some (R + display_owned d1)"
        by (rule init_surface_ledger [OF c]) (simp_all add: blank_display_def)
      obtain ok2 d2 l4 where e: "init_devices k d1 l3 = (ok2, d2, l4)" using prod_cases3 by blast
      have "e_gpio d1 = None \<and> e_spi d1 = None"
        using c by (auto simp: init_surface_def Let_def draws_def blank_display_def split: prod.splits if_splits)
      then have 4: "ledger l4 = Some (R + display_owned d2)"
        using init_devices_ledger [OF e assms(1) 3] by simp
      show ?thesis using assms(3) 3 4 False \<open>got\<close>
        by (auto simp: eink_init_def a b c e Let_def eink_delete_ledger split: if_splits)
    qed
  qed
qed

interpretation eink_panel: device_handle "eink_init C mock png" eink_delete display_owned lines_have_fds
  for C mock png
  by unfold_locales (simp_all add: eink_init_ledger eink_delete_ledger, simp add: eink_delete_def)


section \<open>What the panel is sent\<close>

text \<open>
  The chip select line belongs to the SPI driver and is never claimed, so the writes to it are
  refused; the data/command line is set before every byte.
\<close>

definition panel_ready :: "gpio \<Rightarrow> bool" where
  "panel_ready g \<longleftrightarrow>
     line_ready g EPD_DC_PIN \<and> line_ready g EPD_RST_PIN \<and> line_ready g EPD_PWR_PIN \<and>
     line_ready g EPD_BUSY_PIN \<and> \<not> line_ready g EPD_CS_PIN"

definition pin_fd :: "gpio \<Rightarrow> int \<Rightarrow> fd" where
  "pin_fd g pin = line_fd (gpio_lines g ! nat pin)"

definition wire :: "gpio \<Rightarrow> spi \<Rightarrow> (cmd_or_data \<times> u8) list \<Rightarrow> io list" where
  "wire g s xs = concat (map (\<lambda>(c, b). [Line_Set (pin_fd g EPD_DC_PIN) (c = TX_DATA), Spi_Send (spi_fd s) [b]]) xs)"

lemma wire_append [simp]: "wire g s (xs @ ys) = wire g s xs @ wire g s ys"
  by (simp add: wire_def)

lemma rpigpio_write_ready:
  "line_ready g p \<Longrightarrow> snd (rpigpio_write k g p v l) = l @ [Line_Set (pin_fd g p) (v \<noteq> 0)]"
  by (simp add: rpigpio_write_def Let_def pin_fd_def)

lemma rpigpio_write_unready: "\<not> line_ready g p \<Longrightarrow> rpigpio_write k g p v l = (- 1, l)"
  by (simp add: rpigpio_write_def)

lemma dev_tx_wire: "panel_ready g \<Longrightarrow> dev_tx k g s c b l = l @ wire g s [(c, b)]"
  by (cases c) (simp_all add: panel_ready_def dev_tx_def Let_def rpigpio_write_ready rpigpio_write_unready
      rpispi_write_def wire_def)

lemma dev_txs_wire: "panel_ready g \<Longrightarrow> dev_txs k g s xs l = l @ wire g s xs"
proof (induction k g s xs l rule: dev_txs.induct)
  case (2 k g s c d xs l)
  then show ?case by (simp add: dev_tx_wire wire_def)
qed (simp add: wire_def)

text \<open>Waiting only reads the busy line and sleeps, for at most 510 milliseconds.\<close>

fun slept :: "io list \<Rightarrow> nat" where
  "slept [] = 0"
| "slept (Slept n # l) = n + slept l"
| "slept (_ # l) = slept l"

lemma slept_append [simp]: "slept (l @ m) = slept l + slept m"
  by (induction l rule: slept.induct) auto

definition only_waits :: "io list \<Rightarrow> bool" where
  "only_waits w \<longleftrightarrow> (\<forall>e\<in>set w. (\<exists>f. e = Line_Get f) \<or> (\<exists>n. e = Slept n))"

lemma rpigpio_read_log: "\<exists>w. snd (rpigpio_read k g p l) = l @ w \<and> only_waits w \<and> slept w = 0"
  by (cases "line_ready g p")
    (auto simp: rpigpio_read_def Let_def only_waits_def split: option.split)

lemma busy_loop_log:
  "\<exists>w. snd (busy_loop k g n l) = l @ w \<and> only_waits w \<and> slept w \<le> 10 * n"
proof (induction n arbitrary: l)
  case 0
  show ?case by (simp add: only_waits_def)
next
  case (Suc n)
  obtain v l1 where r: "rpigpio_read k g EPD_BUSY_PIN l = (v, l1)" by fastforce
  then obtain w where w: "l1 = l @ w" "only_waits w" "slept w = 0"
    using rpigpio_read_log [of k g EPD_BUSY_PIN l] by auto
  obtain w' where w': "snd (busy_loop k g n (l1 @ [Slept 10])) = (l1 @ [Slept 10]) @ w'"
      "only_waits w'" "slept w' \<le> 10 * n" using Suc by blast
  show ?case
  proof (cases "v = 0")
    case True
    then show ?thesis using w by (simp add: r)
  next
    case False
    then show ?thesis using w w' by (auto simp: r sleep_ms_def only_waits_def)
  qed
qed

lemma dev_sleep_log:
  "\<exists>w. dev_sleep_until_ready k g l = l @ w \<and> only_waits w \<and> slept w \<le> 510"
proof -
  obtain w where "snd (busy_loop k g 50 l) = l @ w" "only_waits w" "slept w \<le> 500"
    using busy_loop_log [of k g 50 l] by auto
  then show ?thesis
    by (intro exI [of _ "w @ [Slept 10]"]) (simp add: dev_sleep_until_ready_def sleep_ms_def only_waits_def)
qed

section \<open>Rendering\<close>

text \<open>One step of the pixel loops of \<open>eink_render_impl\<close>.\<close>

definition pack_pixel :: "u8 list \<Rightarrow> nat \<Rightarrow> nat \<Rightarrow> nat \<Rightarrow> bool \<Rightarrow> nat \<Rightarrow> nat \<Rightarrow> u8 list \<Rightarrow> u8 list" where
  "pack_pixel img stride height bh invert y x buff =
     (let src_byte = x div 8 + y * stride;
          src_bit = x mod 8;
          dest_x = height - 1 - y;
          dest_y = x;
          dest_byte = dest_x div 8 + dest_y * bh;
          dest_bit = dest_x mod 8;
          pixel_set = (img ! src_byte AND push_bit src_bit 1 \<noteq> 0);
          b = buff ! dest_byte
      in buff[dest_byte :=
           (if pixel_set = invert then b OR push_bit (7 - dest_bit) 1
            else b AND NOT (push_bit (7 - dest_bit) 1))])"

definition pack_image :: "u8 list \<Rightarrow> nat \<Rightarrow> 's eink_display \<Rightarrow> u8 list" where
  "pack_image img stride d =
     fold (\<lambda>y. fold (\<lambda>x. pack_pixel img stride (e_height d) (byte_height d) (invert_color d) y x) [0..<e_width d])
       [0..<e_height d] (replicate (render_buff_sz d) 0)"

text \<open>\<open>None\<close> when a device that was never opened would be dereferenced.\<close>

definition eink_render_impl ::
  "'s cairo \<Rightarrow> kernel \<Rightarrow> bool \<Rightarrow> 's eink_display \<Rightarrow> io list \<Rightarrow> ('s eink_display \<times> io list) option" where
  "eink_render_impl C k is_partial d l =
     (let buff = pack_image (c_data C (canvas d)) (c_stride C) d;
          d1 = d\<lparr>render_buff := Some buff\<rparr>;
          sent = (if mock_display d then Some l
                  else (case (e_gpio d, e_spi d) of
                          (Some g, Some s) \<Rightarrow> Some (dev_render k g s d1 buff is_partial l)
                        | _ \<Rightarrow> None))
      in map_option (\<lambda>l1.
           (case png_file d of None \<Rightarrow> (d1, l1) | Some f \<Rightarrow> (draws C [Write_Png f] d1, l1))) sent)"

definition eink_render where "eink_render C k = eink_render_impl C k False"
definition eink_render_partial where "eink_render_partial C k = eink_render_impl C k True"

definition cairo_get_last_set_color :: "'s cairo \<Rightarrow> 's eink_display \<Rightarrow> int" where
  "cairo_get_last_set_color C d =
     (case c_alpha C (canvas d) of None \<Rightarrow> cairo_fg_color d | Some a \<Rightarrow> if a < 1 / 10 then 0 else 1)"

definition eink_invalidate_rect ::
  "'s cairo \<Rightarrow> kernel \<Rightarrow> nat \<Rightarrow> nat \<Rightarrow> nat \<Rightarrow> nat \<Rightarrow> 's eink_display \<Rightarrow> io list \<Rightarrow> ('s eink_display \<times> io list) option" where
  "eink_invalidate_rect C k x_start y_start x_end y_end d l =
     (let pen = cairo_get_last_set_color C d;
          col = cairo_bg_color d;
          box = [Set_Source_Alpha col, Rectangle x_start y_start x_end y_end, Fill]
      in map_option (\<lambda>(d2, l2).
           (draws C [Set_Source_Alpha pen]
              (if col = cairo_fg_color d2
               then draws C [Set_Source_Alpha (cairo_bg_color d2), Rectangle x_start y_start x_end y_end, Fill] d2
               else d2), l2))
         (eink_render_partial C k (draws C (box @ [Stroke]) d) l))"

text \<open>The data loops of \<open>eink_clear\<close>, each followed by the command \<^verbatim>\<open>0x26\<close>.\<close>

definition clear_bytes :: "'s eink_display \<Rightarrow> (cmd_or_data \<times> u8) list" where
  "clear_bytes d =
     (TX_CMD, 0x24) #
     concat (replicate 2
       (concat (replicate (e_width d) (replicate (byte_height d) (TX_DATA, if invert_color d then 0x00 else 0xFF)))
        @ [(TX_CMD, 0x26)]))"

definition eink_clear :: "'s cairo \<Rightarrow> kernel \<Rightarrow> 's eink_display \<Rightarrow> io list \<Rightarrow> ('s eink_display \<times> io list) option" where
  "eink_clear C k d l =
     (let pen = cairo_get_last_set_color C d;
          d1 = draws C [Set_Source_Alpha (cairo_bg_color d), Paint, Set_Source_Alpha pen] d
      in if mock_display d then Some (d1, l)
         else (case (e_gpio d, e_spi d) of
                 (Some g, Some s) \<Rightarrow> Some (d1, dev_wakeup k g s False (dev_txs k g s (clear_bytes d) l))
               | _ \<Rightarrow> None))"


section \<open>The bits of the panel\<close>

text \<open>
  Bit \<open>i\<close> of the panel memory, most significant bit of each byte first; the panel wants a one
  where the drawing leaves the pixel clear.
\<close>

definition panel_bit :: "u8 list \<Rightarrow> nat \<Rightarrow> bool" where
  "panel_bit buff i = bit (buff ! (i div 8)) (7 - i mod 8)"

definition put_bit :: "nat \<Rightarrow> bool \<Rightarrow> u8 list \<Rightarrow> u8 list" where
  "put_bit i v buff =
     buff[i div 8 := (if v then buff ! (i div 8) OR push_bit (7 - i mod 8) 1
                      else buff ! (i div 8) AND NOT (push_bit (7 - i mod 8) 1))]"

lemma length_put_bit [simp]: "length (put_bit i v buff) = length buff"
  by (simp add: put_bit_def)

lemma bit_push_1: "k < 8 \<Longrightarrow> bit (push_bit k (1 :: u8)) n \<longleftrightarrow> n = k"
  by (auto simp: bit_push_bit_iff bit_1_iff simp del: push_bit_of_1)

lemma panel_bit_put:
  assumes "i < 8 * length buff"
  shows "panel_bit (put_bit i v buff) j = (if j = i then v else panel_bit buff j)"
proof (cases "j div 8 = i div 8")
  case True
  have same: "7 - j mod 8 = 7 - i mod 8 \<longleftrightarrow> j = i"
  proof
    assume "7 - j mod 8 = 7 - i mod 8"
    then have "j mod 8 = i mod 8"
      using mod_less_divisor [of 8 j] mod_less_divisor [of 8 i] by linarith
    then show "j = i" using True by (metis div_mult_mod_eq)
  qed simp
  have "i div 8 < length buff" using assms by auto
  then show ?thesis using True same
    by (auto simp: panel_bit_def put_bit_def bit_or_iff bit_and_iff bit_not_iff bit_push_1
        simp del: push_bit_of_1)
next
  case False
  then show ?thesis by (auto simp: panel_bit_def put_bit_def)
qed

lemma fold_put_bits:
  fixes D :: "'p \<Rightarrow> nat"
  assumes "\<forall>p\<in>set ps. D p < 8 * length buff" "inj_on D (set ps)" "distinct ps"
  shows "length (fold (\<lambda>p. put_bit (D p) (v p)) ps buff) = length buff \<and>
      (\<forall>p\<in>set ps. panel_bit (fold (\<lambda>p. put_bit (D p) (v p)) ps buff) (D p) = v p) \<and>
      (\<forall>j. j \<notin> D ` set ps \<longrightarrow> panel_bit (fold (\<lambda>p. put_bit (D p) (v p)) ps buff) j = panel_bit buff j)"
  using assms
proof (induction ps arbitrary: buff)
  case (Cons q ps)
  let ?buff = "put_bit (D q) (v q) buff"
  have IH: "length (fold (\<lambda>p. put_bit (D p) (v p)) ps ?buff) = length ?buff \<and>
      (\<forall>p\<in>set ps. panel_bit (fold (\<lambda>p. put_bit (D p) (v p)) ps ?buff) (D p) = v p) \<and>
      (\<forall>j. j \<notin> D ` set ps \<longrightarrow> panel_bit (fold (\<lambda>p. put_bit (D p) (v p)) ps ?buff) j = panel_bit ?buff j)"
    using Cons by (intro Cons.IH) auto
  have "D q \<notin> D ` set ps" using Cons.prems(2,3) by (auto simp: inj_on_def)
  then show ?case using IH Cons.prems(1) by (auto simp: panel_bit_put)
qed simp

text \<open>Where the pixel \<open>(x, y)\<close> of the drawing lies in the panel memory.\<close>

definition panel_index :: "'s eink_display \<Rightarrow> nat \<Rightarrow> nat \<Rightarrow> nat" where
  "panel_index d y x = (e_height d - 1 - y) + 8 * byte_height d * x"

text \<open>The pixel \<open>(x, y)\<close> of an A1 image: the low bit of a byte is the leftmost pixel.\<close>

definition a1_pixel :: "u8 list \<Rightarrow> nat \<Rightarrow> nat \<Rightarrow> nat \<Rightarrow> bool" where
  "a1_pixel img stride y x = bit (img ! (x div 8 + y * stride)) (x mod 8)"

lemma and_push_bit_1: "(w AND push_bit n 1 \<noteq> 0) = bit w n" if "n < LENGTH('a)" for w :: "'a::len word"
proof -
  have "w AND push_bit n 1 = (if bit w n then push_bit n 1 else 0)"
    using that by (intro bit_word_eqI) (auto simp: bit_simps)
  moreover have "push_bit n 1 \<noteq> (0 :: 'a word)"
    using that by (metis bit_0_eq bit_1_iff bit_push_bit_iff bot_apply cancel_comm_monoid_add_class.diff_cancel
        le_refl possible_bit_word bot_bool_def)
  ultimately show ?thesis by simp
qed

lemma pack_pixel_put:
  "pack_pixel img stride (e_height d) (byte_height d) neg y x buff
     = put_bit (panel_index d y x) (a1_pixel img stride y x = neg) buff"
proof -
  have "(panel_index d y x) div 8 = (e_height d - 1 - y) div 8 + x * byte_height d"
    by (simp add: panel_index_def mult.assoc mult.commute)
  moreover have "(panel_index d y x) mod 8 = (e_height d - 1 - y) mod 8"
    by (simp add: panel_index_def mult.assoc)
  ultimately show ?thesis
    by (simp add: pack_pixel_def Let_def put_bit_def a1_pixel_def and_push_bit_1 del: push_bit_of_1)
qed

definition panel_sized :: "'s eink_display \<Rightarrow> bool" where
  "panel_sized d \<longleftrightarrow>
     e_width d = 250 \<and> e_height d = 122 \<and> byte_height d = 16 \<and> render_buff_sz d = 4000 \<and>
     \<not> invert_color d \<and> cairo_fg_color d = 1 \<and> cairo_bg_color d = 0"

lemma panel_index_inj:
  "panel_sized d \<Longrightarrow> inj_on (\<lambda>(y, x). panel_index d y x) ({..<122} \<times> {..<250})"
proof (rule inj_onI, clarify)
  fix y x y' x'
  assume "panel_sized d" and "y < 122" "y' < (122 :: nat)" and "panel_index d y x = panel_index d y' x'"
  then have e: "(121 - y) + 128 * x = (121 - y') + 128 * x'"
    by (simp add: panel_sized_def panel_index_def)
  then have "((121 - y) + 128 * x) div 128 = ((121 - y') + 128 * x') div 128" by simp
  then have "x = x'" by simp
  then show "y = y' \<and> x = x'" using e \<open>y < 122\<close> \<open>y' < 122\<close> by simp
qed

lemma pad_not_pixel:
  fixes i x y x' :: nat
  assumes "i < 6" shows "122 + i + 128 * x \<noteq> (121 - y) + 128 * x'"
proof
  assume "122 + i + 128 * x = (121 - y) + 128 * x'"
  then have "(122 + i + 128 * x) mod 128 = ((121 - y) + 128 * x') mod 128" by simp
  then show False using assms by simp
qed

lemma pack_image_bits:
  assumes "panel_sized d"
  shows "length (pack_image img stride d) = 4000 \<and>
      (\<forall>y<122. \<forall>x<250. panel_bit (pack_image img stride d) (panel_index d y x) = (\<not> a1_pixel img stride y x)) \<and>
      (\<forall>x<250. \<forall>i<6. \<not> panel_bit (pack_image img stride d) (122 + i + 128 * x))"
proof -
  let ?ps = "List.product [0..<122] [0..<250 :: nat]"
  let ?D = "\<lambda>(y, x). panel_index d y x"
  let ?v = "\<lambda>(y, x). a1_pixel img stride y x = False"
  let ?b = "replicate 4000 0 :: u8 list"
  have pack: "pack_image img stride d = fold (\<lambda>p. put_bit (?D p) (?v p)) ?ps ?b"
    unfolding pack_image_def pack_pixel_put fold_product
    using assms by (simp add: panel_sized_def case_prod_unfold)
  have "\<forall>p\<in>set ?ps. ?D p < 8 * length ?b"
    using assms by (auto simp: panel_index_def panel_sized_def)
  moreover have "inj_on ?D (set ?ps)"
    using panel_index_inj [OF assms] by (simp add: atLeast0LessThan)
  moreover have "distinct ?ps" by (simp add: distinct_product)
  ultimately have bits: "length (pack_image img stride d) = length ?b \<and>
      (\<forall>p\<in>set ?ps. panel_bit (pack_image img stride d) (?D p) = ?v p) \<and>
      (\<forall>j. j \<notin> ?D ` set ?ps \<longrightarrow> panel_bit (pack_image img stride d) j = panel_bit ?b j)"
    unfolding pack by (rule fold_put_bits)
  have zero: "\<not> panel_bit ?b j" if "j < 32000" for j
  proof -
    have "j div 8 < 4000" using that by auto
    then show ?thesis by (simp add: panel_bit_def)
  qed
  have "122 + i + 128 * x \<notin> ?D ` set ?ps" if "i < 6" for i x
    using that assms pad_not_pixel by (auto simp: panel_index_def panel_sized_def)
  moreover have "122 + i + 128 * x < 32000" if "i < 6" "x < 250" for i x :: nat
    using that by linarith
  ultimately have pad: "\<forall>x<250. \<forall>i<6. \<not> panel_bit (pack_image img stride d) (122 + i + 128 * x)"
    using bits zero by blast
  have "\<forall>y<122. \<forall>x<250. panel_bit (pack_image img stride d) (panel_index d y x) = (\<not> a1_pixel img stride y x)"
  proof (intro allI impI)
    fix y x :: nat
    assume "y < 122" "x < 250"
    then have "(y, x) \<in> set ?ps" by simp
    then show "panel_bit (pack_image img stride d) (panel_index d y x) = (\<not> a1_pixel img stride y x)"
      using bits by fastforce
  qed
  then show ?thesis using bits pad by simp
qed


section \<open>Announcing a text\<close>

text \<open>
  \<open>cairo_render_text\<close> on a canvas: the number of lines and the canvas with the text drawn.
  Drawing leaves the selected font alone, so the extents are those of the canvas at the call.
\<close>

definition render_text :: "'s cairo \<Rightarrow> string \<Rightarrow> nat \<Rightarrow> 's \<Rightarrow> (nat \<times> 's) option" where
  "render_text C msg off s =
     (case cairo_render_text (c_font C s) msg off of
        Some (Inr ls) \<Rightarrow>
          Some (length ls, fold (c_draw C) (concat (map (\<lambda>(x, y, t). [Move_To x y, Show_Text t]) ls)) s)
      | _ \<Rightarrow> None)"

lemma halved_ceiling: "nat \<lceil>d / 2\<rceil> < nat \<lceil>d\<rceil>" if "1 < d" for d :: real
proof -
  have "\<lceil>d / 2\<rceil> < \<lceil>d\<rceil>"
  proof (cases "d \<le> 2")
    case True
    then have "\<lceil>d / 2\<rceil> \<le> 1" by (simp add: ceiling_le_iff)
    moreover have "1 < \<lceil>d\<rceil>" using that by (simp add: less_ceiling_iff)
    ultimately show ?thesis by linarith
  next
    case False
    then show ?thesis by linarith
  qed
  then show ?thesis using that by linarith
qed

lemma bisect_measure:
  fixes lo hi :: real
  assumes "1 < hi - lo"
  shows "nat \<lceil>hi - (lo + hi) / 2\<rceil> < nat \<lceil>hi - lo\<rceil>" "nat \<lceil>(lo + hi) / 2 - lo\<rceil> < nat \<lceil>hi - lo\<rceil>"
proof -
  have 1: "hi - (lo + hi) / 2 = (hi - lo) / 2" and 2: "(lo + hi) / 2 - lo = (hi - lo) / 2"
    by (simp_all add: field_simps)
  show "nat \<lceil>hi - (lo + hi) / 2\<rceil> < nat \<lceil>hi - lo\<rceil>"
    unfolding 1 by (rule halved_ceiling [OF assms])
  show "nat \<lceil>(lo + hi) / 2 - lo\<rceil> < nat \<lceil>hi - lo\<rceil>"
    unfolding 2 by (rule halved_ceiling [OF assms])
qed

text \<open>The bisection for the font size; it ends because the interval halves.\<close>

function font_search :: "'s cairo \<Rightarrow> string \<Rightarrow> real \<Rightarrow> real \<Rightarrow> real \<Rightarrow> 's \<Rightarrow> (real \<times> 's) option" where
  "font_search C msg height lo hi s =
     (if 1 < hi - lo then
        let mid = (lo + hi) / 2;
            s1 = c_draw C (Set_Font_Size mid) s;
            ext = ext_height (c_font C s1) ''HOLA''
        in case render_text C msg 1 s1 of
             None \<Rightarrow> None
           | Some (lines, s2) \<Rightarrow>
               if real lines * (ext + of_int MARGIN) + ext \<le> height
               then font_search C msg height mid hi s2
               else font_search C msg height lo mid s2
      else Some (lo, s))"
  by pat_completeness auto
termination
  by (relation "measure (\<lambda>(C, msg, height, lo, hi, s). nat \<lceil>hi - lo\<rceil>)")
    (simp_all only: in_measure case_prod_conv bisect_measure wf_measure)

declare font_search.simps [simp del]

definition eink_quick_announce ::
  "'s cairo \<Rightarrow> kernel \<Rightarrow> string \<Rightarrow> 's eink_display \<Rightarrow> io list \<Rightarrow> ('s eink_display \<times> io list) option" where
  "eink_quick_announce C k msg d l =
     (let s0 = c_draw C Select_Sans_Bold (canvas d)
      in (case font_search C msg (real (e_height d)) 1 (real (e_height d)) s0 of
            None \<Rightarrow> None
          | Some (fsz, s1) \<Rightarrow>
              (case render_text C msg 1
                      (fold (c_draw C)
                        [Set_Source_Alpha 0, Paint, Set_Source_Alpha 1, Select_Sans_Bold, Set_Font_Size fsz] s1) of
                 None \<Rightarrow> None
               | Some (lines, s2) \<Rightarrow> eink_render C k (d\<lparr>canvas := s2\<rparr>) l)))"


section \<open>The log of a frame\<close>

definition frame_log :: "gpio \<Rightarrow> spi \<Rightarrow> u8 list \<Rightarrow> bool \<Rightarrow> io list" where
  "frame_log g s ram partial =
     (if partial
      then [Line_Set (pin_fd g EPD_RST_PIN) False, Slept 1, Line_Set (pin_fd g EPD_RST_PIN) True]
           @ wire g s [(TX_CMD, 0x3C), (TX_DATA, 0x80)] @ wire g s (quick_reset_bytes 250 122)
      else wire g s [(TX_CMD, 0x3C), (TX_DATA, 0x05)]) @
     wire g s ((TX_CMD, 0x24) # map (Pair TX_DATA) ram) @
     (if partial then wire g s ((TX_CMD, 0x26) # map (Pair TX_DATA) ram) else []) @
     wire g s (wakeup_bytes partial)"

lemma rows_take:
  "n * bh \<le> length xs \<Longrightarrow>
     concat (map (\<lambda>j. map (\<lambda>i. f (xs ! (i + j * bh))) [0..<bh]) [0..<n]) = map f (take (n * bh) xs)"
proof (induction n)
  case (Suc n)
  have "map (\<lambda>i. xs ! (i + n * bh)) [0..<bh] = take bh (drop (n * bh) xs)"
    using Suc.prems by (intro nth_equalityI) (simp_all add: add.commute)
  moreover have "map (\<lambda>i. f (xs ! (i + n * bh))) [0..<bh] = map f (map (\<lambda>i. xs ! (i + n * bh)) [0..<bh])"
    by (simp add: comp_def)
  ultimately have "map (\<lambda>i. f (xs ! (i + n * bh))) [0..<bh] = map f (take bh (drop (n * bh) xs))"
    by (simp only:)
  moreover have "take (Suc n * bh) xs = take (n * bh) xs @ take bh (drop (n * bh) xs)"
    by (metis add.commute mult_Suc take_add)
  ultimately show ?case using Suc by simp
qed simp

lemma image_bytes_all:
  "panel_sized d \<Longrightarrow> length ram = 4000 \<Longrightarrow> image_bytes d ram = map (Pair TX_DATA) ram"
  using rows_take [of 250 16 ram "Pair TX_DATA"] by (simp add: image_bytes_def panel_sized_def)

lemma pin_set_ready: "line_ready g p \<Longrightarrow> pin_set k g p v l = l @ [Line_Set (pin_fd g p) (v \<noteq> 0)]"
  by (simp add: pin_set_def rpigpio_write_ready)

lemma dev_render_log:
  assumes "panel_sized d" "panel_ready g" "length ram = 4000"
  shows "dev_render k g s d ram partial l = dev_sleep_until_ready k g (l @ frame_log g s ram partial)"
proof -
  have "line_ready g EPD_RST_PIN" using assms(2) by (simp add: panel_ready_def)
  moreover have "e_width d = 250" "e_height d = 122" using assms(1) by (auto simp: panel_sized_def)
  ultimately show ?thesis
    by (cases partial)
      (simp_all add: dev_render_def Let_def dev_quick_reset_def dev_wakeup_def dev_txs_wire assms
        image_bytes_all pin_set_ready sleep_ms_def frame_log_def del: dev_txs.simps)
qed

text \<open>
  C27. A render on the opened panel sends the drawing: it reads only inside the image data, the
  log grows by exactly one frame and the wait for the panel, at most 510 ms, and in the 4000
  bytes of the frame the pixel in column \<open>x\<close> and row \<open>y\<close> of the drawing is bit
  \<open>121 - y\<close> of line \<open>x\<close>, inverted, the six bits that pad each line being zero.
\<close>

theorem eink_pixels_reach_panel:
  assumes "panel_sized d" "\<not> mock_display d" "e_gpio d = Some g" "e_spi d = Some s" "panel_ready g"
    and "32 \<le> c_stride C" "122 * c_stride C \<le> length (c_data C (canvas d))"
  shows "(\<forall>y<122. \<forall>x<250. x div 8 + y * c_stride C < length (c_data C (canvas d))) \<and>
    (\<exists>d' ram w. eink_render_impl C k partial d l = Some (d', l @ frame_log g s ram partial @ w) \<and>
       only_waits w \<and> slept w \<le> 510 \<and> length ram = 4000 \<and>
       (\<forall>y<122. \<forall>x<250. panel_bit ram ((121 - y) + 128 * x)
          = (\<not> a1_pixel (c_data C (canvas d)) (c_stride C) y x)) \<and>
       (\<forall>x<250. \<forall>i<6. \<not> panel_bit ram (122 + i + 128 * x)))"
proof
  show "\<forall>y<122. \<forall>x<250. x div 8 + y * c_stride C < length (c_data C (canvas d))"
  proof (intro allI impI)
    fix y x :: nat
    assume yx: "y < 122" "x < 250"
    then have "Suc y * c_stride C \<le> 122 * c_stride C" by (intro mult_le_mono1) simp
    then have "Suc y * c_stride C \<le> length (c_data C (canvas d))" using assms(7) by (rule le_trans)
    then have "c_stride C + y * c_stride C \<le> length (c_data C (canvas d))" by simp
    moreover have "x div 8 < 32" using yx(2) by auto
    ultimately show "x div 8 + y * c_stride C < length (c_data C (canvas d))" using assms(6) by linarith
  qed
  define ram where "ram = pack_image (c_data C (canvas d)) (c_stride C) d"
  note bits = pack_image_bits [OF assms(1), of "c_data C (canvas d)" "c_stride C", folded ram_def]
  obtain w where w: "dev_sleep_until_ready k g (l @ frame_log g s ram partial)
      = (l @ frame_log g s ram partial) @ w" "only_waits w" "slept w \<le> 510"
    using dev_sleep_log by blast
  have "panel_sized (d\<lparr>render_buff := Some ram\<rparr>)" using assms(1) by (simp add: panel_sized_def)
  then have "dev_render k g s (d\<lparr>render_buff := Some ram\<rparr>) ram partial l = l @ frame_log g s ram partial @ w"
    using dev_render_log [OF _ assms(5), of _ ram k s partial l] bits w(1) by simp
  then obtain d' where d': "eink_render_impl C k partial d l = Some (d', l @ frame_log g s ram partial @ w)"
    using assms(2-4) by (cases "png_file d") (simp_all add: eink_render_impl_def Let_def flip: ram_def)
  have "panel_index d y x = (121 - y) + 128 * x" for y x
    using assms(1) by (simp add: panel_index_def panel_sized_def)
  with bits have "length ram = 4000 \<and>
      (\<forall>y<122. \<forall>x<250. panel_bit ram ((121 - y) + 128 * x)
         = (\<not> a1_pixel (c_data C (canvas d)) (c_stride C) y x)) \<and>
      (\<forall>x<250. \<forall>i<6. \<not> panel_bit ram (122 + i + 128 * x))" by simp
  then show "\<exists>d' ram w. eink_render_impl C k partial d l = Some (d', l @ frame_log g s ram partial @ w) \<and>
       only_waits w \<and> slept w \<le> 510 \<and> length ram = 4000 \<and>
       (\<forall>y<122. \<forall>x<250. panel_bit ram ((121 - y) + 128 * x)
          = (\<not> a1_pixel (c_data C (canvas d)) (c_stride C) y x)) \<and>
       (\<forall>x<250. \<forall>i<6. \<not> panel_bit ram (122 + i + 128 * x))"
    using d' w(2,3) by (intro exI [of _ d'] exI [of _ ram] exI [of _ w] conjI) simp_all
qed


definition clear_cairo :: "unit cairo" where
  "clear_cairo =
     \<lparr>c_new = (), c_draw = (\<lambda>_ _. ()), c_data = (\<lambda>_. replicate 3904 0), c_stride = 32,
      c_alpha = (\<lambda>_. None), c_font = (\<lambda>_. mono_font 250)\<rparr>"

definition sample_gpio :: gpio where
  "sample_gpio =
     \<lparr>chip_fd = 3,
      gpio_lines = (replicate 64 \<lparr>line_fd = - 1, line_flags = RPIGPIO_OUTPUT\<rparr>)
        [24 := \<lparr>line_fd = 4, line_flags = RPIGPIO_INPUT\<rparr>, 9 := \<lparr>line_fd = 5, line_flags = RPIGPIO_OUTPUT\<rparr>,
         25 := \<lparr>line_fd = 6, line_flags = RPIGPIO_OUTPUT\<rparr>, 18 := \<lparr>line_fd = 7, line_flags = RPIGPIO_OUTPUT\<rparr>],
      num_lines = 54\<rparr>"

definition sample_display :: "unit eink_display" where
  "sample_display =
     (blank_display clear_cairo False)
       \<lparr>e_gpio := Some sample_gpio, e_spi := Some \<lparr>spi_fd = 8, speed = 10000000\<rparr>, e_width := 250, e_height := 122,
        cairo_fg_color := 1, byte_height := 16, render_buff_sz := 4000, has_surface := True, has_cr := True\<rparr>"

theorem eink_pixels_reach_panel_witness:
  "\<exists>d' ram w. eink_render_impl clear_cairo willing_kernel True sample_display []
      = Some (d', frame_log sample_gpio \<lparr>spi_fd = 8, speed = 10000000\<rparr> ram True @ w) \<and>
     panel_bit ram 121 \<and> \<not> panel_bit ram 122"
proof -
  let ?s = "\<lparr>spi_fd = 8, speed = 10000000\<rparr>"
  have "panel_sized sample_display" "\<not> mock_display sample_display" "e_gpio sample_display = Some sample_gpio"
    "e_spi sample_display = Some ?s"
    by (simp_all add: panel_sized_def sample_display_def blank_display_def)
  moreover have "panel_ready sample_gpio"
    by (simp add: panel_ready_def line_ready_def pin_defs MAX_LINES_def sample_gpio_def)
  moreover have "32 \<le> c_stride clear_cairo"
    "122 * c_stride clear_cairo \<le> length (c_data clear_cairo (canvas sample_display))"
    by (simp_all add: clear_cairo_def)
  ultimately obtain d' ram w where
    r: "eink_render_impl clear_cairo willing_kernel True sample_display []
        = Some (d', [] @ frame_log sample_gpio ?s ram True @ w)"
    and px: "\<forall>y<122. \<forall>x<250. panel_bit ram ((121 - y) + 128 * x)
          = (\<not> a1_pixel (c_data clear_cairo (canvas sample_display)) (c_stride clear_cairo) y x)"
    and pad: "\<forall>x<250. \<forall>i<6. \<not> panel_bit ram (122 + i + 128 * x)"
    using eink_pixels_reach_panel [of sample_display sample_gpio ?s clear_cairo willing_kernel True "[]"] by blast
  have "\<not> a1_pixel (c_data clear_cairo (canvas sample_display)) (c_stride clear_cairo) 0 0"
    by (simp add: a1_pixel_def clear_cairo_def)
  then have "panel_bit ram 121" using px [rule_format, of 0 0] by simp
  moreover have "\<not> panel_bit ram 122" using pad [rule_format, of 0 0] by simp
  ultimately show ?thesis using r by auto
qed

section \<open>A session with the panel\<close>

lemma release_line_frame:
  assumes "release_line g i l = (g1, l1)"
  shows "num_lines g1 = num_lines g \<and> length (gpio_lines g1) = length (gpio_lines g) \<and>
      (\<forall>j. j \<noteq> i \<longrightarrow> gpio_lines g1 ! j = gpio_lines g ! j)"
  using assms by (auto simp: release_line_def Let_def split: if_splits)

lemma claim_line_ready:
  assumes "claim_line k g p flags v l = (0, g', l')" "lines_have_fds k" "gpio_ok g"
  shows "gpio_ok g' \<and> (line_ready g' q \<longleftrightarrow> q = p \<or> line_ready g q)"
proof -
  have p: "0 \<le> p" "p < num_lines g" using assms(1) by (auto simp: claim_line_def split: if_splits)
  obtain g1 l1 where rel: "release_line g (nat p) l = (g1, l1)" by fastforce
  note g1 = release_line_frame [OF rel]
  obtain f where f: "0 \<le> f"
      "g' = g1\<lparr>gpio_lines := (gpio_lines g1)[nat p := \<lparr>line_fd = f, line_flags = flags\<rparr>]\<rparr>"
    using assms(1,2) p by (auto simp: claim_line_def rel Let_def lines_have_fds_def split: option.splits)
  show ?thesis
  proof (cases "q = p")
    case True
    then show ?thesis using f g1 p assms(3) by (auto simp: line_ready_def gpio_ok_def)
  next
    case False
    then have "nat q \<noteq> nat p" if "0 \<le> q" using that p by simp
    then show ?thesis using f g1 p assms(3) False by (auto simp: line_ready_def gpio_ok_def)
  qed
qed

lemma claim_pins_ready:
  assumes "claim_pins k g pins l = (0, g', l')" "lines_have_fds k" "gpio_ok g"
  shows "line_ready g' q \<longleftrightarrow> q \<in> pin_no ` set pins \<or> line_ready g q"
  using assms
proof (induction pins arbitrary: g l)
  case (Cons p ps)
  let ?v = "case direction p of RPIGPIO_OUTPUT \<Rightarrow> Some (initial_value p) | RPIGPIO_INPUT \<Rightarrow> None"
  obtain r g1 l1 where c: "claim_line k g (pin_no p) (direction p) ?v l = (r, g1, l1)" using prod_cases3 by blast
  then have "r = 0" "claim_pins k g1 ps l1 = (0, g', l')" using Cons.prems(1) by (auto simp: Let_def split: if_splits)
  then show ?case using Cons.IH [of g1 l1] claim_line_ready [of k g "pin_no p" "direction p" ?v l g1 l1] c Cons.prems
    by auto
qed auto

lemma rpigpio_open_ready:
  assumes "rpigpio_open k n pins l = (Some g, l')" "lines_have_fds k"
  shows "line_ready g q \<longleftrightarrow> q \<in> pin_no ` set pins"
proof -
  obtain f m r l2 where "claim_pins k (fresh_gpio f m) pins l2 = (0, g, l')"
    using assms(1) by (auto simp: rpigpio_open_def Let_def split: if_splits option.splits prod.splits)
  moreover have "\<not> line_ready (fresh_gpio f m) q"
    by (auto simp: line_ready_def fresh_gpio_def MAX_LINES_def)
  ultimately show ?thesis using claim_pins_ready assms(2) fresh_gpio_owned by blast
qed

text \<open>What every operation may rely on.\<close>

definition panel_live :: "'s eink_display \<Rightarrow> bool" where
  "panel_live d \<longleftrightarrow>
     panel_sized d \<and> render_buff d \<noteq> None \<and> has_surface d \<and> has_cr d \<and>
     (mock_display d \<or> (\<exists>g s. e_gpio d = Some g \<and> e_spi d = Some s \<and> panel_ready g))"

lemma init_surface_live:
  assumes "init_surface C k d0 l = (True, d, l')"
  shows "panel_sized d \<and> render_buff d \<noteq> None \<and> has_surface d \<and> has_cr d \<and> mock_display d = mock_display d0"
proof -
  have d: "d = fst (snd (init_surface C k d0 l))" "fst (init_surface C k d0 l)" using assms by simp_all
  obtain b1 l1 where a: "take_block k ''surface'' l = (b1, l1)" by fastforce
  obtain b2 l2 where b: "take_block k ''render_buff'' l1 = (b2, l2)" by fastforce
  obtain b3 l3 where c: "take_block k ''cr'' l2 = (b3, l3)" by fastforce
  have "b1" "b2" "b3" using d(2) by (auto simp: init_surface_def a b c Let_def split: if_splits)
  then show ?thesis unfolding d(1)
    by (simp add: init_surface_def a b c Let_def draws_def panel_sized_def EPD_WIDTH_def EPD_HEIGHT_def)
qed

lemma eink_pins_ready: "rpigpio_open k n eink_pins l = (Some g, l') \<Longrightarrow> lines_have_fds k \<Longrightarrow> panel_ready g"
  by (simp add: panel_ready_def rpigpio_open_ready eink_pins_def pin_defs)

lemma init_devices_live:
  assumes "init_devices k d0 l = (True, d, l')" "lines_have_fds k"
  shows "\<exists>g s. d = d0\<lparr>e_gpio := Some g, e_spi := Some s\<rparr> \<and> panel_ready g"
  using assms eink_pins_ready
  by (fastforce simp: init_devices_def Let_def split: if_splits option.splits prod.splits)

lemma eink_init_live:
  assumes "eink_init C mock png k l = (Some d, l')" "lines_have_fds k"
  shows "panel_live d"
proof -
  obtain got l1 where a: "take_block k ''display'' l = (got, l1)" by fastforce
  obtain gp l2 where b: "(case png of None \<Rightarrow> (False, l1) | Some _ \<Rightarrow> take_block k ''png_file'' l1) = (gp, l2)"
    by fastforce
  let ?d0 = "(blank_display C mock)\<lparr>png_file := png\<rparr>"
  obtain ok d1 l3 where c: "init_surface C k ?d0 l2 = (ok, d1, l3)" using prod_cases3 by blast
  obtain ok2 d2 l4 where e: "init_devices k d1 l3 = (ok2, d2, l4)" using prod_cases3 by blast
  have ok: "ok" "if mock then d = d1 else ok2 \<and> d = d2"
    using assms(1) by (auto simp: eink_init_def a b c e Let_def split: if_splits)
  note d1 = init_surface_live [OF c [unfolded ok(1) [THEN eqTrueI]]]
  then show ?thesis
  proof (cases mock)
    case True
    then show ?thesis using ok(2) d1 by (simp add: panel_live_def blank_display_def)
  next
    case False
    then obtain g s where "d = d1\<lparr>e_gpio := Some g, e_spi := Some s\<rparr>" "panel_ready g"
      using ok(2) e init_devices_live [of k d1 l3 d2 l4] assms(2) by auto
    then show ?thesis using d1 by (simp add: panel_live_def panel_sized_def)
  qed
qed

text \<open>The operations of a client, drawing through \<open>eink_get_cairo\<close> included.\<close>

datatype eink_op =
    Op_Draw "cairo_op list"
  | Op_Render bool
  | Op_Invalidate nat nat nat nat
  | Op_Clear
  | Op_Announce string

fun eink_do :: "'s cairo \<Rightarrow> kernel \<Rightarrow> eink_op \<Rightarrow> 's eink_display \<Rightarrow> io list \<Rightarrow> ('s eink_display \<times> io list) option" where
  "eink_do C k (Op_Draw ops) d l = Some (draws C ops d, l)"
| "eink_do C k (Op_Render False) d l = eink_render C k d l"
| "eink_do C k (Op_Render True) d l = eink_render_partial C k d l"
| "eink_do C k (Op_Invalidate x y x' y') d l = eink_invalidate_rect C k x y x' y' d l"
| "eink_do C k Op_Clear d l = eink_clear C k d l"
| "eink_do C k (Op_Announce msg) d l = eink_quick_announce C k msg d l"

fun eink_run :: "'s cairo \<Rightarrow> kernel \<Rightarrow> eink_op list \<Rightarrow> 's eink_display \<Rightarrow> io list \<Rightarrow> ('s eink_display \<times> io list) option" where
  "eink_run C k [] d l = Some (d, l)"
| "eink_run C k (op # ops) d l =
     (case eink_do C k op d l of None \<Rightarrow> None | Some (d1, l1) \<Rightarrow> eink_run C k ops d1 l1)"

text \<open>Two displays that differ in the drawing and the contents of the render buffer only.\<close>

definition same_panel :: "'s eink_display \<Rightarrow> 's eink_display \<Rightarrow> bool" where
  "same_panel d d' \<longleftrightarrow>
     d'\<lparr>canvas := canvas d, render_buff := render_buff d\<rparr> = d \<and> (render_buff d' \<noteq> None) = (render_buff d \<noteq> None)"

definition step_ok :: "io list \<Rightarrow> 's eink_display \<Rightarrow> ('s eink_display \<times> io list) option \<Rightarrow> bool" where
  "step_ok l d r \<longleftrightarrow> (case r of None \<Rightarrow> True | Some (d', l') \<Rightarrow> same_panel d d' \<and> ledger l' = ledger l)"

lemma same_panel_refl [simp]: "same_panel d d"
  by (simp add: same_panel_def)

lemma same_panel_canvas [simp]: "same_panel d (d'\<lparr>canvas := s\<rparr>) = same_panel d d'" "same_panel (d\<lparr>canvas := s\<rparr>) d' = same_panel d d'"
  by (cases d; cases d'; simp add: same_panel_def)+

lemma same_panel_draws [simp]: "same_panel d (draws C ops d') = same_panel d d'" "same_panel (draws C ops d) d' = same_panel d d'"
  by (simp_all add: draws_def)

lemma same_panel_trans: "same_panel d d1 \<Longrightarrow> same_panel d1 d2 \<Longrightarrow> same_panel d d2"
  by (cases d; cases d1; cases d2; simp add: same_panel_def)

lemma same_panel_owned: "same_panel d d' \<Longrightarrow> display_owned d' = display_owned d"
  by (cases d; cases d'; simp add: same_panel_def display_owned_def)

lemma same_panel_live: "same_panel d d' \<Longrightarrow> panel_live d \<Longrightarrow> panel_live d'"
  by (cases d; cases d'; simp add: same_panel_def panel_live_def panel_sized_def)


lemma same_panel_buff: "render_buff d \<noteq> None \<Longrightarrow> same_panel d (d\<lparr>render_buff := Some b\<rparr>)"
  by (cases d) (simp add: same_panel_def)

lemma dev_render_ledger [simp]: "ledger (dev_render k g s d ram partial l) = ledger l"
  by (simp add: dev_render_def Let_def dev_quick_reset_def dev_wakeup_def del: dev_txs.simps)

lemma render_step:
  assumes "panel_live d"
  shows "\<exists>d' l'. eink_render_impl C k partial d l = Some (d', l') \<and> same_panel d d' \<and> ledger l' = ledger l"
proof -
  let ?b = "pack_image (c_data C (canvas d)) (c_stride C) d"
  have sp: "same_panel d (d\<lparr>render_buff := Some ?b\<rparr>)" using assms by (simp add: same_panel_buff panel_live_def)
  then show ?thesis using assms
    by (cases "png_file d") (auto simp: eink_render_impl_def Let_def panel_live_def)
qed

lemma clear_step:
  assumes "panel_live d"
  shows "\<exists>d' l'. eink_clear C k d l = Some (d', l') \<and> same_panel d d' \<and> ledger l' = ledger l"
  using assms by (auto simp: eink_clear_def Let_def panel_live_def dev_wakeup_def simp del: dev_txs.simps)

lemma draws_live [simp]: "panel_live (draws C ops d) = panel_live d"
  by (simp add: draws_def panel_live_def panel_sized_def)

lemma invalidate_step:
  assumes "panel_live d"
  shows "\<exists>d' l'. eink_invalidate_rect C k x y x' y' d l = Some (d', l') \<and> same_panel d d' \<and> ledger l' = ledger l"
proof -
  let ?d = "draws C [Set_Source_Alpha (cairo_bg_color d), Rectangle x y x' y', Fill, Stroke] d"
  obtain d2 l2 where "eink_render_impl C k True ?d l = Some (d2, l2)" "same_panel ?d d2" "ledger l2 = ledger l"
    using render_step [of ?d C k True l] assms by auto
  then show ?thesis by (simp add: eink_invalidate_rect_def Let_def eink_render_partial_def)
qed

lemma announce_step:
  assumes "panel_live d" "eink_quick_announce C k msg d l = Some (d', l')"
  shows "same_panel d d' \<and> ledger l' = ledger l"
proof -
  obtain s2 where r: "eink_render_impl C k False (d\<lparr>canvas := s2\<rparr>) l = Some (d', l')"
    using assms(2) by (auto simp: eink_quick_announce_def Let_def eink_render_def split: option.splits)
  have "panel_live (d\<lparr>canvas := s2\<rparr>)" using assms(1) by (simp add: panel_live_def panel_sized_def)
  then show ?thesis using render_step [of "d\<lparr>canvas := s2\<rparr>" C k False l] r by auto
qed

lemma eink_do_step:
  assumes "panel_live d" "eink_do C k op d l = Some (d', l')"
  shows "same_panel d d' \<and> ledger l' = ledger l"
proof (cases op)
  case (Op_Render partial)
  then show ?thesis using assms render_step [of d C k partial l]
    by (cases partial) (auto simp: eink_render_def eink_render_partial_def)
next
  case (Op_Invalidate x y x' y')
  then show ?thesis using assms invalidate_step [of d C k x y x' y' l] by auto
next
  case Op_Clear
  then show ?thesis using assms clear_step [of d C k l] by auto
next
  case (Op_Announce msg)
  then show ?thesis using announce_step [OF assms(1), of C k msg l d' l'] assms(2) by auto
qed (use assms in auto)

lemma eink_do_returns:
  assumes "panel_live d" "\<forall>msg. op \<noteq> Op_Announce msg"
  shows "\<exists>d' l'. eink_do C k op d l = Some (d', l')"
proof (cases op)
  case (Op_Render partial)
  then show ?thesis using render_step [OF assms(1), of C k partial l]
    by (cases partial) (auto simp: eink_render_def eink_render_partial_def)
next
  case (Op_Invalidate x y x' y')
  then show ?thesis using invalidate_step [OF assms(1), of C k x y x' y' l] by auto
next
  case Op_Clear
  then show ?thesis using clear_step [OF assms(1), of C k l] by auto
qed (use assms(2) in auto)

lemma eink_run_steps:
  assumes "panel_live d" "eink_run C k ops d l = Some (d', l')"
  shows "same_panel d d' \<and> ledger l' = ledger l"
  using assms
proof (induction ops arbitrary: d l)
  case (Cons op ops)
  obtain d1 l1 where 1: "eink_do C k op d l = Some (d1, l1)" "eink_run C k ops d1 l1 = Some (d', l')"
    using Cons.prems(2) by (auto split: option.splits)
  note s = eink_do_step [OF Cons.prems(1) 1(1)]
  then have "panel_live d1" using same_panel_live Cons.prems(1) by blast
  then have "same_panel d1 d' \<and> ledger l' = ledger l1" using Cons.IH 1(2) by blast
  then show ?case using s same_panel_trans by auto
qed simp

lemma eink_run_returns:
  assumes "panel_live d" "\<forall>msg. Op_Announce msg \<notin> set ops"
  shows "eink_run C k ops d l \<noteq> None"
  using assms
proof (induction ops arbitrary: d l)
  case (Cons op ops)
  obtain d1 l1 where 1: "eink_do C k op d l = Some (d1, l1)"
    using eink_do_returns [OF Cons.prems(1), of op C k l] Cons.prems(2) by auto
  then have "panel_live d1" using eink_do_step [OF Cons.prems(1) 1] same_panel_live Cons.prems(1) by blast
  then show ?case using Cons.IH [of d1 l1] Cons.prems(2) 1 by simp
qed simp

lemma eink_session_run:
  assumes "lines_have_fds k" "ledger l = Some R" "eink_init C mock png k l = (Some d, l1)"
  shows "(\<forall>d' l2. eink_run C k ops d l1 = Some (d', l2) \<longrightarrow> ledger (eink_delete k (Some d') l2) = Some R)
    \<and> ((\<forall>msg. Op_Announce msg \<notin> set ops) \<longrightarrow> eink_run C k ops d l1 \<noteq> None)"
proof -
  have held: "ledger l1 = Some (R + display_owned d)" using eink_panel.acquire_owned [OF assms] by simp
  have live: "panel_live d" using eink_init_live assms(1,3) by blast
  have "ledger (eink_delete k (Some d') l2) = Some R" if "eink_run C k ops d l1 = Some (d', l2)" for d' l2
    using eink_run_steps [OF live that] held same_panel_owned [of d d'] eink_panel.release_owned [of l2 R d' k] by simp
  then show ?thesis using eink_run_returns [OF live] by simp
qed

text \<open>An announcement goes wrong only where the layout of its text does.\<close>

lemma render_text_overrun:
  assumes "render_text C msg off s = None"
  shows "cairo_render_text (c_font C s) msg off = Some (Inl Overrun)"
proof -
  obtain r where r: "wrap_loop (c_font C s) (c_string msg) 0 0 0 [] = Some r"
    using wrap_loop_result [OF _ wrap_inv_start, of "c_string msg" "c_font C s"] by auto
  obtain x where "cairo_render_text (c_font C s) msg off = Some x" using r by (simp add: cairo_render_text_def Let_def)
  then show ?thesis using assms by (cases x; cases "projl x") (auto simp: render_text_def)
qed

lemma font_search_overrun:
  "font_search C msg height lo hi s = None \<Longrightarrow> \<exists>s'. cairo_render_text (c_font C s') msg 1 = Some (Inl Overrun)"
proof (induction C msg height lo hi s rule: font_search.induct)
  case (1 C msg height lo hi s)
  show ?case
  proof (cases "1 < hi - lo")
    case True
    let ?mid = "(lo + hi) / 2"
    let ?s1 = "c_draw C (Set_Font_Size ?mid) s"
    show ?thesis
    proof (cases "render_text C msg 1 ?s1")
      case None
      from render_text_overrun [OF this] show ?thesis by (rule exI)
    next
      case (Some r)
      obtain lines s2 where r: "r = (lines, s2)" by (cases r)
      have "font_search C msg height lo hi s =
          (if real lines * (ext_height (c_font C ?s1) ''HOLA'' + of_int MARGIN) + ext_height (c_font C ?s1) ''HOLA'' \<le> height
           then font_search C msg height ?mid hi s2 else font_search C msg height lo ?mid s2)"
        using True Some r by (subst font_search.simps) (simp add: Let_def)
      with "1.prems" "1.IH" [OF True refl refl refl Some r [symmetric]] show ?thesis by (auto split: if_splits)
    qed
  next
    case False
    then show ?thesis using "1.prems" by (subst (asm) font_search.simps) simp
  qed
qed

lemma announce_overrun:
  assumes "panel_live d" "eink_quick_announce C k msg d l = None"
  shows "\<exists>s. cairo_render_text (c_font C s) msg 1 = Some (Inl Overrun)"
proof (cases "font_search C msg (real (e_height d)) 1 (real (e_height d)) (c_draw C Select_Sans_Bold (canvas d))")
  case None
  then show ?thesis by (rule font_search_overrun)
next
  case (Some r)
  obtain fsz s1 where r: "r = (fsz, s1)" by (cases r)
  let ?s = "fold (c_draw C) [Set_Source_Alpha 0, Paint, Set_Source_Alpha 1, Select_Sans_Bold, Set_Font_Size fsz] s1"
  show ?thesis
  proof (cases "render_text C msg 1 ?s")
    case None
    from render_text_overrun [OF this] show ?thesis by (rule exI)
  next
    case (Some x)
    obtain n s2 where x: "x = (n, s2)" by (cases x)
    have "panel_live (d\<lparr>canvas := s2\<rparr>)" using assms(1) by (simp add: panel_live_def panel_sized_def)
    then have "eink_render C k (d\<lparr>canvas := s2\<rparr>) l \<noteq> None"
      using render_step [of "d\<lparr>canvas := s2\<rparr>" C k False l] by (auto simp: eink_render_def)
    moreover have "eink_quick_announce C k msg d l = eink_render C k (d\<lparr>canvas := s2\<rparr>) l"
      using Some x r \<open>font_search C _ _ _ _ _ = Some r\<close> by (simp add: eink_quick_announce_def Let_def)
    ultimately show ?thesis using assms(2) by simp
  qed
qed

lemma eink_run_stops:
  assumes "panel_live d" "eink_run C k ops d l = None"
  shows "\<exists>ops1 msg ops2 d2 l2 s. ops = ops1 @ Op_Announce msg # ops2 \<and> eink_run C k ops1 d l = Some (d2, l2) \<and>
     cairo_render_text (c_font C s) msg 1 = Some (Inl Overrun)"
  using assms
proof (induction ops arbitrary: d l)
  case (Cons op ops)
  show ?case
  proof (cases "eink_do C k op d l")
    case None
    then obtain msg where op: "op = Op_Announce msg" using eink_do_returns [OF Cons.prems(1), of op C k l] by auto
    then have "eink_quick_announce C k msg d l = None" using None by simp
    from announce_overrun [OF Cons.prems(1) this] obtain s where "cairo_render_text (c_font C s) msg 1 = Some (Inl Overrun)"
      by (elim exE)
    then show ?thesis using op
      by (intro exI [of _ "[]"] exI [of _ msg] exI [of _ ops] exI [of _ d] exI [of _ l] exI [of _ s]) simp
  next
    case (Some r)
    obtain d1 l1 where r: "r = (d1, l1)" by (cases r)
    have "panel_live d1" using eink_do_step [OF Cons.prems(1), of C k op l d1 l1] Some r same_panel_live Cons.prems(1) by blast
    moreover have "eink_run C k ops d1 l1 = None" using Cons.prems(2) Some r by simp
    ultimately obtain ops1 msg ops2 d2 l2 s where "ops = ops1 @ Op_Announce msg # ops2"
        "eink_run C k ops1 d1 l1 = Some (d2, l2)" "cairo_render_text (c_font C s) msg 1 = Some (Inl Overrun)"
      using Cons.IH by blast
    then show ?thesis using Some r
      by (intro exI [of _ "op # ops1"] exI [of _ msg] exI [of _ ops2] exI [of _ d2] exI [of _ l2] exI [of _ s]) simp
  qed
qed simp

text \<open>
  C28. Whatever the kernel refuses, opening the panel either fails with everything it took given
  back, or yields a display on which any sequence of operations, announcements included, ends
  without touching a device that was not opened, and on which closing it then releases exactly what
  was taken, nothing twice; with one exception: a sequence stops at an announcement for which,
  in a font that was set, the layout reads past the end of the text, and then closing the
  display before that announcement would have released everything. (Every descriptor the
  kernel gives out for lines is taken to be a valid one.)
\<close>

theorem eink_session_balanced:
  assumes "lines_have_fds k" "ledger l = Some R" "eink_init C mock png k l = (h, l1)"
  shows "case h of
      None \<Rightarrow> ledger l1 = Some R
    | Some d \<Rightarrow>
        (case eink_run C k ops d l1 of
           Some (d', l2) \<Rightarrow> ledger (eink_delete k (Some d') l2) = Some R
         | None \<Rightarrow> \<exists>ops1 msg ops2 d2 l2 s. ops = ops1 @ Op_Announce msg # ops2 \<and>
              cairo_render_text (c_font C s) msg 1 = Some (Inl Overrun) \<and>
              eink_run C k ops1 d l1 = Some (d2, l2) \<and> ledger (eink_delete k (Some d2) l2) = Some R)"
proof (cases h)
  case None
  then show ?thesis using eink_panel.failed_acquire assms by auto
next
  case (Some d)
  note i = assms(1,2) assms(3) [unfolded Some]
  have live: "panel_live d" using eink_init_live i(1,3) by blast
  show ?thesis
  proof (cases "eink_run C k ops d l1")
    case None
    from eink_run_stops [OF live None] obtain ops1 msg ops2 d2 l2 s where s: "ops = ops1 @ Op_Announce msg # ops2"
      "eink_run C k ops1 d l1 = Some (d2, l2)" "cairo_render_text (c_font C s) msg 1 = Some (Inl Overrun)" by blast
    moreover have "ledger (eink_delete k (Some d2) l2) = Some R" using eink_session_run [OF i, of ops1] s(2) by blast
    ultimately show ?thesis unfolding Some option.case None by blast
  next
    case (Some r)
    then show ?thesis using eink_session_run [OF i, of ops] \<open>h = Some d\<close> by (cases r) simp
  qed
qed

definition null_cairo :: "unit cairo" where
  "null_cairo =
     \<lparr>c_new = (), c_draw = (\<lambda>_ _. ()), c_data = (\<lambda>_. []), c_stride = 32,
      c_alpha = (\<lambda>_. None), c_font = (\<lambda>_. mono_font 250)\<rparr>"

lemma willing_init: "fst (eink_init null_cairo False (Some ''/tmp/p.png'') willing_kernel []) \<noteq> None"
  by code_simp

lemma short_word_fits: "cairo_render_text (mono_font 250) ''Ok'' 1 \<noteq> Some (Inl Overrun)"
proof -
  have "tail_fits (mono_font 250) (c_string ''Ok'')"
    by (auto simp: tail_fits_def fits_def mono_font_def line_of_def max_width_def MARGIN_def c_string_def)
  from cairo_render_text_returns [OF this, of 1] show ?thesis by auto
qed

theorem eink_session_balanced_witness:
  "\<exists>d l1. eink_init null_cairo False (Some ''/tmp/p.png'') willing_kernel [] = (Some d, l1) \<and>
     (\<exists>d' l2. eink_run null_cairo willing_kernel [Op_Clear, Op_Announce ''Ok'', Op_Render True] d l1 = Some (d', l2) \<and>
        ledger (eink_delete willing_kernel (Some d') l2) = Some {#})"
proof -
  let ?ops = "[Op_Clear, Op_Announce ''Ok'', Op_Render True]"
  have fds: "lines_have_fds willing_kernel" by (simp add: lines_have_fds_def willing_kernel_def)
  obtain d l1 where i: "eink_init null_cairo False (Some ''/tmp/p.png'') willing_kernel [] = (Some d, l1)"
    using willing_init by (metis fst_conv option.exhaust surj_pair)
  have "msg = ''Ok''" if "?ops = ops1 @ Op_Announce msg # ops2" for ops1 msg ops2
    using that by (auto simp: Cons_eq_append_conv)
  then have "\<not> (?ops = ops1 @ Op_Announce msg # ops2 \<and> cairo_render_text (c_font null_cairo s) msg 1 = Some (Inl Overrun))"
    for ops1 msg ops2 s using short_word_fits by (auto simp: null_cairo_def)
  with eink_session_balanced [OF fds ledger_Nil i, of ?ops]
  have "case eink_run null_cairo willing_kernel ?ops d l1 of
      Some (d', l2) \<Rightarrow> ledger (eink_delete willing_kernel (Some d') l2) = Some {#} | None \<Rightarrow> False"
    unfolding option.case by (auto simp del: eink_run.simps split: option.splits)
  then show ?thesis using i by (cases "eink_run null_cairo willing_kernel ?ops d l1") (auto simp del: eink_run.simps)
qed

section \<open>The size of an announcement\<close>

text \<open>
  What is used of Cairo's fonts: once the face is selected, drawing keeps it, and the extents
  after setting a size depend on the size alone.
\<close>

definition sans_font :: "'s cairo \<Rightarrow> ('s \<Rightarrow> bool) \<Rightarrow> (real \<Rightarrow> text_font) \<Rightarrow> bool" where
  "sans_font C sans F \<longleftrightarrow>
     (\<forall>s. sans (c_draw C Select_Sans_Bold s)) \<and> (\<forall>op s. sans s \<longrightarrow> sans (c_draw C op s)) \<and>
     (\<forall>z s. sans s \<longrightarrow> c_font C (c_draw C (Set_Font_Size z) s) = F z)"

definition text_ops :: "(real \<times> real \<times> string) list \<Rightarrow> cairo_op list" where
  "text_ops ls = concat (map (\<lambda>(x, y, t). [Move_To x y, Show_Text t]) ls)"

definition fits_panel :: "text_font \<Rightarrow> string \<Rightarrow> real \<Rightarrow> bool" where
  "fits_panel c msg height \<longleftrightarrow>
     (\<exists>ls. cairo_render_text c msg 1 = Some (Inr ls) \<and>
        real (length ls) * (ext_height c ''HOLA'' + 5) + ext_height c ''HOLA'' \<le> height)"

lemma sans_fold: "sans_font C sans F \<Longrightarrow> sans s \<Longrightarrow> sans (fold (c_draw C) ops s)"
  by (induction ops arbitrary: s) (auto simp: sans_font_def)

lemma font_search_step:
  assumes "sans_font C sans F" "sans s" "1 < hi - lo" "mid = (lo + hi) / 2"
    and "cairo_render_text (F mid) msg 1 = Some (Inr ls)"
  defines "s2 \<equiv> fold (c_draw C) (text_ops ls) (c_draw C (Set_Font_Size mid) s)"
  shows "font_search C msg height lo hi s =
      (if fits_panel (F mid) msg height then font_search C msg height mid hi s2
       else font_search C msg height lo mid s2)" and "sans s2"
proof -
  let ?s1 = "c_draw C (Set_Font_Size mid) s"
  have f: "c_font C ?s1 = F mid" "sans ?s1" using assms(1,2) by (auto simp: sans_font_def)
  have r: "render_text C msg 1 ?s1 = Some (length ls, s2)"
    using assms(5) f(1) by (simp add: render_text_def text_ops_def s2_def)
  have fp: "fits_panel (F mid) msg height \<longleftrightarrow>
      real (length ls) * (ext_height (F mid) ''HOLA'' + of_int MARGIN) + ext_height (F mid) ''HOLA'' \<le> height"
    using assms(5) by (auto simp: fits_panel_def MARGIN_def)
  have "font_search C msg height lo hi s =
      (case render_text C msg 1 ?s1 of
         None \<Rightarrow> None
       | Some (lines, s2) \<Rightarrow>
           if real lines * (ext_height (c_font C ?s1) ''HOLA'' + of_int MARGIN) + ext_height (c_font C ?s1) ''HOLA'' \<le> height
           then font_search C msg height mid hi s2
           else font_search C msg height lo mid s2)"
    by (subst font_search.simps) (simp only: assms(3,4) if_True Let_def)
  also have "\<dots> = (if fits_panel (F mid) msg height then font_search C msg height mid hi s2
       else font_search C msg height lo mid s2)"
    by (simp only: r f option.case prod.case fp)
  finally show "font_search C msg height lo hi s = \<dots>" .
  show "sans s2" unfolding s2_def by (rule sans_fold [OF assms(1) f(2)])
qed

lemma font_search_result:
  assumes "sans_font C sans F" "\<forall>z. lo < z \<and> z < hi \<longrightarrow> tail_fits (F z) (c_string msg)"
    and "sans s" "lo < hi"
  shows "\<exists>z s'. font_search C msg height lo hi s = Some (z, s') \<and> sans s' \<and> lo \<le> z \<and> z < hi \<and>
      (z = lo \<or> fits_panel (F z) msg height) \<and>
      (\<exists>top. z < top \<and> top \<le> z + 1 \<and> (top = hi \<or> \<not> fits_panel (F top) msg height))"
  using assms(2-4)
proof (induction "nat \<lceil>hi - lo\<rceil>" arbitrary: lo hi s rule: less_induct)
  case less
  show ?case
  proof (cases "1 < hi - lo")
    case False
    then have "font_search C msg height lo hi s = Some (lo, s)"
      by (subst font_search.simps) simp
    then show ?thesis using less.prems False by (intro exI [of _ lo] exI [of _ s]) auto
  next
    case True
    define mid where "mid = (lo + hi) / 2"
    have mid: "lo < mid" "mid < hi" using less.prems(3) by (auto simp: mid_def field_simps)
    obtain ls where ls: "cairo_render_text (F mid) msg 1 = Some (Inr ls)"
      using cairo_render_text_returns less.prems(1) mid by blast
    note step = font_search_step [OF assms(1) less.prems(2) True mid_def ls]
    note dec = bisect_measure [OF True, folded mid_def]
    show ?thesis
    proof (cases "fits_panel (F mid) msg height")
      case fit: True
      then obtain z s' top where "font_search C msg height lo hi s = Some (z, s')" "sans s'" "mid \<le> z" "z < hi"
          "z = mid \<or> fits_panel (F z) msg height" "z < top" "top \<le> z + 1"
          "top = hi \<or> \<not> fits_panel (F top) msg height"
        using less.hyps [OF dec(1) _ step(2) mid(2)] less.prems(1) mid step(1) by auto
      then show ?thesis using fit mid by (intro exI [of _ z] exI [of _ s']) auto
    next
      case fit: False
      then obtain z s' top where "font_search C msg height lo hi s = Some (z, s')" "sans s'" "lo \<le> z" "z < mid"
          "z = lo \<or> fits_panel (F z) msg height" "z < top" "top \<le> z + 1"
          "top = mid \<or> \<not> fits_panel (F top) msg height"
        using less.hyps [OF dec(2) _ step(2) mid(1)] less.prems(1) mid step(1) by auto
      then show ?thesis using fit mid by (intro exI [of _ z] exI [of _ s']) auto
    qed
  qed
qed

text \<open>
  Announcing a text ends and draws it, on a cleared canvas, at a size that fits the panel
  (or at size one), while at most one above it lies a size that does not fit or the height of the
  panel; the frame sent is that canvas. Relied on: the extents depend on the size alone, and at
  every size up to the height the last word fits on a line.
\<close>

theorem announcement_fills_panel:
  assumes "panel_live d" "sans_font C sans F"
    and "\<forall>z. 1 \<le> z \<and> z < 122 \<longrightarrow> tail_fits (F z) (c_string msg)"
  shows "\<exists>z ls s1. 1 \<le> z \<and> z < 122 \<and> (z = 1 \<or> fits_panel (F z) msg 122) \<and>
      (\<exists>top. z < top \<and> top \<le> z + 1 \<and> (top = 122 \<or> \<not> fits_panel (F top) msg 122)) \<and>
      cairo_render_text (F z) msg 1 = Some (Inr ls) \<and>
      eink_quick_announce C k msg d l =
        eink_render C k
          (d\<lparr>canvas := fold (c_draw C)
             ([Set_Source_Alpha 0, Paint, Set_Source_Alpha 1, Select_Sans_Bold, Set_Font_Size z] @ text_ops ls) s1\<rparr>) l \<and>
      eink_quick_announce C k msg d l \<noteq> None"
proof -
  let ?s0 = "c_draw C Select_Sans_Bold (canvas d)"
  have h: "real (e_height d) = 122" using assms(1) by (simp add: panel_live_def panel_sized_def)
  have "sans ?s0" using assms(2) by (simp add: sans_font_def)
  then obtain z s1 top where z: "font_search C msg 122 1 122 ?s0 = Some (z, s1)" "sans s1" "1 \<le> z" "z < 122"
      "z = 1 \<or> fits_panel (F z) msg 122" "z < top" "top \<le> z + 1" "top = 122 \<or> \<not> fits_panel (F top) msg 122"
    using font_search_result [OF assms(2), of 1 122 msg ?s0 122] assms(3) by auto
  obtain ls where ls: "cairo_render_text (F z) msg 1 = Some (Inr ls)"
    using cairo_render_text_returns assms(3) z(3,4) by blast
  define s2 where "s2 = fold (c_draw C) [Set_Source_Alpha 0, Paint, Set_Source_Alpha 1, Select_Sans_Bold] s1"
  have "sans s2" unfolding s2_def by (rule sans_fold [OF assms(2) z(2)])
  then have f: "c_font C (c_draw C (Set_Font_Size z) s2) = F z" using assms(2) by (simp add: sans_font_def)
  let ?c = "fold (c_draw C) ([Set_Source_Alpha 0, Paint, Set_Source_Alpha 1, Select_Sans_Bold, Set_Font_Size z] @ text_ops ls) s1"
  have "render_text C msg 1 (c_draw C (Set_Font_Size z) s2) = Some (length ls, ?c)"
    using ls f by (simp add: render_text_def text_ops_def s2_def)
  then have a: "eink_quick_announce C k msg d l = eink_render C k (d\<lparr>canvas := ?c\<rparr>) l"
    using z(1) h by (simp add: eink_quick_announce_def Let_def s2_def)
  have "panel_live (d\<lparr>canvas := ?c\<rparr>)" using assms(1) by (simp add: panel_live_def panel_sized_def)
  then have "eink_quick_announce C k msg d l \<noteq> None"
    using render_step [of "d\<lparr>canvas := ?c\<rparr>" C k False l] unfolding a eink_render_def by auto
  then show ?thesis using z ls a by blast
qed


definition scaled_font :: "real \<Rightarrow> text_font" where
  "scaled_font z = \<lparr>ext_width = (\<lambda>t. z * real (length t)), ext_height = (\<lambda>_. z), surface_width = 250\<rparr>"

definition scaling_cairo :: "real cairo" where
  "scaling_cairo =
     \<lparr>c_new = 0, c_draw = (\<lambda>op s. case op of Set_Font_Size z \<Rightarrow> z | _ \<Rightarrow> s), c_data = (\<lambda>_. []),
      c_stride = 32, c_alpha = (\<lambda>_. None), c_font = scaled_font\<rparr>"

definition mock_panel :: "real eink_display" where
  "mock_panel =
     (blank_display scaling_cairo True)
       \<lparr>e_width := 250, e_height := 122, cairo_fg_color := 1, byte_height := 16, render_buff_sz := 4000,
        render_buff := Some [], has_surface := True, has_cr := True\<rparr>"

theorem announcement_fills_panel_witness:
  "\<exists>z. 1 \<le> z \<and> z < 122 \<and> (z = 1 \<or> fits_panel (scaled_font z) ''Ok'' 122) \<and>
     (\<exists>top. z < top \<and> top \<le> z + 1 \<and> (top = 122 \<or> \<not> fits_panel (scaled_font top) ''Ok'' 122)) \<and>
     eink_quick_announce scaling_cairo willing_kernel ''Ok'' mock_panel [] \<noteq> None"
proof -
  have "panel_live mock_panel" by (simp add: panel_live_def panel_sized_def mock_panel_def blank_display_def)
  moreover have "sans_font scaling_cairo (\<lambda>_. True) scaled_font" by (simp add: sans_font_def scaling_cairo_def)
  moreover have "\<forall>z. 1 \<le> z \<and> z < 122 \<longrightarrow> tail_fits (scaled_font z) (c_string ''Ok'')"
  proof (intro allI impI)
    fix z :: real
    assume z: "1 \<le> z \<and> z < 122"
    have "z * real (length (line_of ''Ok'' i 2)) \<le> z * 2" for i
      using z by (intro mult_left_mono) (auto simp: line_of_def)
    also have "z * 2 \<le> 245" using z by simp
    finally have "fits (scaled_font z) ''Ok'' i 2" for i
      by (simp add: fits_def scaled_font_def max_width_def MARGIN_def)
    then show "tail_fits (scaled_font z) (c_string ''Ok'')" by (simp add: tail_fits_def c_string_def numeral_2_eq_2)
  qed
  ultimately show ?thesis
    using announcement_fills_panel [of mock_panel scaling_cairo "\<lambda>_. True" scaled_font "''Ok''" willing_kernel "[]"]
    by blast
qed

text \<open>
  The condition matters: the search starts at half the height, and a single word that is too
  wide there makes the layout read past the end of the text.
\<close>

lemma announcement_overruns:
  assumes "panel_live d" "sans_font C sans F"
    and "CHR 0x00 \<notin> set w" "w \<noteq> []" "\<forall>ch\<in>set w. \<not> isspace ch" "too_wide (F (123 / 2)) w"
  shows "eink_quick_announce C k w d l = None"
proof -
  let ?s0 = "c_draw C Select_Sans_Bold (canvas d)"
  let ?s1 = "c_draw C (Set_Font_Size (123 / 2)) ?s0"
  have h: "real (e_height d) = 122" using assms(1) by (simp add: panel_live_def panel_sized_def)
  have "c_font C ?s1 = F (123 / 2)" using assms(2) by (simp add: sans_font_def)
  then have "render_text C w 1 ?s1 = None"
    using overrun_single_word [OF assms(3-6)] by (simp add: render_text_def)
  then have "font_search C w 122 1 122 ?s0 = None"
    by (subst font_search.simps) simp
  then show ?thesis using h by (simp add: eink_quick_announce_def Let_def)
qed

end
