(* ===== verification/Eink_Meta.thy ===== *)
theory Eink_Meta
  imports Eink
begin

text \<open>
  The e-ink caption of the slideshow (\<^verbatim>\<open>ambience/eink_meta.c\<close>): city and year of the photo on
  display. json-c is the parameter \<open>meta_json\<close>; a missing key and a JSON null are both \<open>None\<close>
  where the code cannot tell them apart.
\<close>

section \<open>The code\<close>

record 'j meta_json =
  mj_parse :: "string \<Rightarrow> 'j option"
  mj_get :: "'j \<Rightarrow> string \<Rightarrow> 'j option"
  mj_string :: "'j \<Rightarrow> string option"

record 's eink_meta =
  em_display :: "'s eink_display"
  last_text :: string

definition TEXT_SIZE :: nat where
  "TEXT_SIZE = 256"

text \<open>\<^verbatim>\<open>snprintf\<close> into the array \<open>text\<close>.\<close>

definition snprintf_text :: "string \<Rightarrow> string" where
  "snprintf_text s = take (TEXT_SIZE - 1) (c_string s)"

definition meta_city :: "'j meta_json \<Rightarrow> 'j \<Rightarrow> string option" where
  "meta_city J doc =
     (case mj_get J doc ''reverse_geo'' of
        None \<Rightarrow> None
      | Some revgeo \<Rightarrow>
          (case mj_get J revgeo ''city'' of None \<Rightarrow> None | Some c \<Rightarrow> map_option c_string (mj_string J c)))"

definition meta_year :: "'j meta_json \<Rightarrow> 'j \<Rightarrow> string" where
  "meta_year J doc =
     (case mj_get J doc ''EXIF DateTimeOriginal'' of
        None \<Rightarrow> []
      | Some dto \<Rightarrow>
          (case mj_string J dto of
             None \<Rightarrow> []
           | Some s \<Rightarrow> if 4 \<le> length (c_string s) then take 4 (c_string s) else []))"

definition meta_text :: "'j meta_json \<Rightarrow> 'j \<Rightarrow> string" where
  "meta_text J doc =
     (let year = meta_year J doc
      in case meta_city J doc of
           Some city \<Rightarrow>
             if year \<noteq> [] then snprintf_text (city @ '', '' @ year) else snprintf_text city
         | None \<Rightarrow> if year \<noteq> [] then snprintf_text year else snprintf_text ''?'')"

definition eink_meta_init ::
  "'s cairo \<Rightarrow> kernel \<Rightarrow> io list \<Rightarrow> 's eink_meta option \<times> io list" where
  "eink_meta_init C k l =
     (let (got, l1) = take_block k ''eink_meta'' l
      in if \<not> got then (None, l1)
         else
           (case eink_init C False None k l1 of
              (None, l2) \<Rightarrow> (None, drop_block True ''eink_meta'' l2)
            | (Some d, l2) \<Rightarrow> (Some \<lparr>em_display = d, last_text = []\<rparr>, l2)))"

definition eink_meta_free ::
  "'s cairo \<Rightarrow> kernel \<Rightarrow> 's eink_meta option \<Rightarrow> io list \<Rightarrow> io list option" where
  "eink_meta_free C k emp l =
     (case emp of
        None \<Rightarrow> Some l
      | Some em \<Rightarrow>
          (case eink_clear C k (em_display em) l of
             None \<Rightarrow> None
           | Some (d, l1) \<Rightarrow> Some (drop_block True ''eink_meta'' (eink_delete k (Some d) l1))))"

definition eink_meta_clear ::
  "'s cairo \<Rightarrow> kernel \<Rightarrow> 's eink_meta \<Rightarrow> io list \<Rightarrow> ('s eink_meta \<times> io list) option" where
  "eink_meta_clear C k em l =
     map_option (\<lambda>(d, l1). (em\<lparr>em_display := d\<rparr>, l1)) (eink_clear C k (em_display em) l)"

definition eink_meta_render ::
  "'s cairo \<Rightarrow> kernel \<Rightarrow> 'j meta_json \<Rightarrow> 's eink_meta \<Rightarrow> string option \<Rightarrow> io list \<Rightarrow> ('s eink_meta \<times> io list) option" where
  "eink_meta_render C k J em meta l =
     (case meta of
        None \<Rightarrow> Some (em, l)
      | Some m \<Rightarrow>
          (case mj_parse J m of
             None \<Rightarrow> Some (em, l)
           | Some doc \<Rightarrow>
               let t = meta_text J doc
               in if t = last_text em then Some (em, l)
                  else map_option (\<lambda>(d, l1). (\<lparr>em_display = d, last_text = snprintf_text t\<rparr>, l1))
                         (eink_quick_announce C k t (em_display em) l)))"

section \<open>What a run shows\<close>

datatype meta_call = Meta_Render "string option" | Meta_Clear

fun meta_run ::
  "'s cairo \<Rightarrow> kernel \<Rightarrow> 'j meta_json \<Rightarrow> meta_call list \<Rightarrow> 's eink_meta \<Rightarrow> io list \<Rightarrow> ('s eink_meta \<times> io list) option" where
  "meta_run C k J [] em l = Some (em, l)"
| "meta_run C k J (c # cs) em l =
     (case (case c of Meta_Render m \<Rightarrow> eink_meta_render C k J em m l | Meta_Clear \<Rightarrow> eink_meta_clear C k em l) of
        None \<Rightarrow> None
      | Some (em1, l1) \<Rightarrow> meta_run C k J cs em1 l1)"

text \<open>
  The caption wanted for a photo, and the operations on the panel that a series of calls comes
  down to: an announcement when the caption differs from the last one announced.
\<close>

definition caption :: "'j meta_json \<Rightarrow> string option \<Rightarrow> string option" where
  "caption J meta = Option.bind meta (\<lambda>m. map_option (meta_text J) (mj_parse J m))"

lemma meta_year_length: "meta_year J doc = [] \<or> length (meta_year J doc) = 4"
  by (auto simp: meta_year_def split: option.split)

lemma meta_city_no_NUL: "meta_city J doc = Some c \<Longrightarrow> c_string c = c"
  by (auto simp: meta_city_def split: option.splits)

lemma c_string_id: "CHR 0x00 \<notin> set s \<Longrightarrow> c_string s = s"
  by (induction s) (auto simp: c_string_def)

lemma snprintf_text_idem [simp]: "snprintf_text (snprintf_text s) = snprintf_text s"
proof -
  have "CHR 0x00 \<notin> set (take n (c_string s))" for n
    using in_set_takeD [of "CHR 0x00" n "c_string s"] NUL_notin_c_string by blast
  then show ?thesis by (simp add: snprintf_text_def c_string_id)
qed

lemma meta_text_printed [simp]: "snprintf_text (meta_text J doc) = meta_text J doc"
  by (simp add: meta_text_def Let_def split: option.split)

lemma meta_text_bound: "length (meta_text J doc) < TEXT_SIZE"
  by (auto simp: meta_text_def Let_def snprintf_text_def TEXT_SIZE_def split: option.split)

lemma meta_render_caption:
  "eink_meta_render C k J em m l =
     (case caption J m of
        None \<Rightarrow> Some (em, l)
      | Some t \<Rightarrow>
          if t = last_text em then Some (em, l)
          else map_option (\<lambda>(d, l1). (\<lparr>em_display = d, last_text = t\<rparr>, l1))
                 (eink_quick_announce C k t (em_display em) l))"
  by (auto simp: eink_meta_render_def caption_def Let_def split: option.split)

text \<open>The elements of a list that differ from the one before them, \<open>x\<close> being the first before.\<close>

definition changes :: "'a \<Rightarrow> 'a list \<Rightarrow> 'a list" where
  "changes x ys = tl (remdups_adj (x # ys))"

lemma changes_simps [simp]:
  "changes x [] = []"
  "changes x (y # ys) = (if y = x then changes x ys else y # changes y ys)"
proof -
  have "remdups_adj (y # ys) \<noteq> []" "hd (remdups_adj (y # ys)) = y" by simp_all
  then have "remdups_adj (y # ys) = y # tl (remdups_adj (y # ys))" by (metis hd_Cons_tl)
  then show "changes x (y # ys) = (if y = x then changes x ys else y # changes y ys)"
    by (simp add: changes_def)
qed (simp add: changes_def)

text \<open>
  The panel follows the captions: over any series of photos, those whose metadata cannot be
  parsed left out, it is announced exactly the captions that differ from the one before, in
  order, beginning with the one announced last.
\<close>

theorem captions_announced_on_change:
  fixes J :: "'j meta_json" and ms :: "string option list"
  defines "cs \<equiv> List.map_filter (caption J) ms"
  shows "meta_run C k J (map Meta_Render ms) em l =
      map_option (\<lambda>(d, l1). (\<lparr>em_display = d, last_text = last (last_text em # cs)\<rparr>, l1))
        (eink_run C k (map Op_Announce (changes (last_text em) cs)) (em_display em) l)"
  unfolding cs_def
proof (induction ms arbitrary: em l)
  case (Cons m ms)
  show ?case
  proof (cases "caption J m")
    case None
    then show ?thesis using Cons by (simp add: meta_render_caption map_filter_simps)
  next
    case (Some t)
    show ?thesis
    proof (cases "t = last_text em")
      case True
      then show ?thesis using Cons Some by (simp add: meta_render_caption map_filter_simps)
    next
      case False
      show ?thesis
      proof (cases "eink_quick_announce C k t (em_display em) l")
        case None
        then show ?thesis using Some False by (simp add: meta_render_caption map_filter_simps)
      next
        case (Some r)
        obtain d1 l1 where "r = (d1, l1)" by (cases r)
        then show ?thesis
          using Cons [of "\<lparr>em_display = d1, last_text = t\<rparr>" l1] Some \<open>caption J m = Some t\<close> False
          by (simp add: meta_render_caption map_filter_simps)
      qed
    qed
  qed
qed (simp add: map_filter_simps)

text \<open>
  The caption is lost over a pause: clearing the panel, which stopping the slideshow does,
  does not forget the last caption, so when the next photo has the same one the panel stays
  empty.
\<close>

lemma caption_lost_after_clear:
  assumes "caption J m1 = Some t" "caption J m2 = Some t"
  shows "map_option (\<lambda>(em', l'). (em_display em', l'))
      (meta_run C k J [Meta_Render m1, Meta_Clear, Meta_Render m2] em l)
    = eink_run C k (if t = last_text em then [Op_Clear] else [Op_Announce t, Op_Clear]) (em_display em) l"
  using assms by (auto simp: meta_render_caption eink_meta_clear_def split: option.split)


definition question_json :: "string meta_json" where
  "question_json = \<lparr>mj_parse = Some, mj_get = (\<lambda>_ _. None), mj_string = Some\<rparr>"

lemma caption_lost_after_clear_example:
  "map_option (\<lambda>(em', l'). (em_display em', l'))
      (meta_run null_cairo willing_kernel question_json
        [Meta_Render (Some ''{}''), Meta_Clear, Meta_Render (Some ''[]'')]
        \<lparr>em_display = sample_display, last_text = []\<rparr> [])
    = eink_run null_cairo willing_kernel [Op_Announce ''?'', Op_Clear] sample_display []"
proof -
  have q: "caption question_json (Some m) = Some ''?''" for m
    by (simp add: caption_def question_json_def meta_text_def Let_def meta_year_def meta_city_def
        snprintf_text_def TEXT_SIZE_def c_string_def)
  show ?thesis
    using caption_lost_after_clear [OF q q, of null_cairo willing_kernel "''{}''" "''[]''"
        "\<lparr>em_display = sample_display, last_text = []\<rparr>" "[]"] by simp
qed

section \<open>Nothing leaks\<close>

lemma meta_run_steps:
  assumes "panel_live (em_display em)" "meta_run C k J cs em l = Some (em', l')"
  shows "same_panel (em_display em) (em_display em') \<and> ledger l' = ledger l"
  using assms
proof (induction cs arbitrary: em l)
  case (Cons c cs)
  obtain em1 l1 where 1: "(case c of Meta_Render m \<Rightarrow> eink_meta_render C k J em m l | Meta_Clear \<Rightarrow> eink_meta_clear C k em l)
      = Some (em1, l1)" "meta_run C k J cs em1 l1 = Some (em', l')"
    using Cons.prems(2) by (auto split: option.splits)
  have s: "same_panel (em_display em) (em_display em1) \<and> ledger l1 = ledger l"
  proof (cases c)
    case (Meta_Render m)
    then show ?thesis using 1(1) announce_step [OF Cons.prems(1), of C k _ l]
      by (auto simp: meta_render_caption split: option.splits if_splits)
  next
    case Meta_Clear
    then show ?thesis using 1(1) clear_step [OF Cons.prems(1), of C k l]
      by (auto simp: eink_meta_clear_def)
  qed
  then have "panel_live (em_display em1)" using same_panel_live Cons.prems(1) by blast
  then have "same_panel (em_display em1) (em_display em') \<and> ledger l' = ledger l1" using Cons.IH 1(2) by blast
  then show ?case using s same_panel_trans by auto
qed simp

lemma eink_meta_balanced:
  assumes "lines_have_fds k" "ledger l = Some R" "eink_meta_init C k l = (h, l1)"
  shows "case h of
      None \<Rightarrow> ledger l1 = Some R
    | Some em \<Rightarrow>
        \<forall>J cs em' l2. meta_run C k (J :: 'j meta_json) cs em l1 = Some (em', l2) \<longrightarrow>
          (\<exists>l3. eink_meta_free C k (Some em') l2 = Some l3 \<and> ledger l3 = Some R)"
proof -
  obtain got l0 where a: "take_block k ''eink_meta'' l = (got, l0)" by fastforce
  obtain hd l2 where b: "eink_init C False None k l0 = (hd, l2)" by fastforce
  have 0: "ledger l0 = Some (R + (if got then {#Heap ''eink_meta''#} else {#}))"
    using take_block_ledger [OF a assms(2)] .
  show ?thesis
  proof (cases "got \<and> hd \<noteq> None")
    case False
    have "ledger l2 = Some (R + {#Heap ''eink_meta''#})" if "got" "hd = None"
      using eink_panel.failed_acquire [OF assms(1) 0] b that by auto
    then show ?thesis using assms(3) 0 False
      by (auto simp: eink_meta_init_def a b drop_block_def split: if_splits option.splits)
  next
    case True
    then obtain d where d: "hd = Some d" and got by auto
    have h: "h = Some \<lparr>em_display = d, last_text = []\<rparr>" "l1 = l2"
      using assms(3) d \<open>got\<close> by (simp_all add: eink_meta_init_def a b)
    have live: "panel_live d" using eink_init_live b d assms(1) by blast
    have held: "ledger l1 = Some (R + {#Heap ''eink_meta''#} + display_owned d)"
      using eink_panel.acquire_owned [OF assms(1) 0 b] d \<open>got\<close> h(2) by simp
    have "\<exists>l4. eink_meta_free C k (Some em') l3 = Some l4 \<and> ledger l4 = Some R"
      if run: "meta_run C k J cs \<lparr>em_display = d, last_text = []\<rparr> l1 = Some (em', l3)"
      for J :: "'j meta_json" and cs em' l3
    proof -
      have s: "same_panel d (em_display em')" "ledger l3 = ledger l1"
        using meta_run_steps [OF _ run] live by auto
      then have "panel_live (em_display em')" using same_panel_live live by blast
      then obtain d' l4 where c: "eink_clear C k (em_display em') l3 = Some (d', l4)"
          "same_panel (em_display em') d'" "ledger l4 = ledger l3"
        using clear_step by blast
      have "display_owned d' = display_owned d" using s(1) c(2) same_panel_owned by metis
      then have "ledger l4 = Some (R + {#Heap ''eink_meta''#} + display_owned d')"
        using held s(2) c(3) by simp
      then have "ledger (eink_delete k (Some d') l4) = Some (R + {#Heap ''eink_meta''#})"
        by (rule eink_panel.release_owned)
      then show ?thesis by (simp add: eink_meta_free_def c(1) drop_block_def)
    qed
    then show ?thesis using h(1) by simp
  qed
qed

end
