(* ===== verification/Lease.thy ===== *)
theory Lease
  imports Display_Mgr Drm_Client
begin

text \<open>
  The lease across processes: any number of clients of \<^verbatim>\<open>lib/drm_mgr\<close>, known by their unique bus
  names, and the display manager. A call is one step of the daemon's own model (\<open>mgr_step\<close>); what
  a client does before and after it are steps of their own, so that the clients interleave in
  every way. A call may fail on the way there or on the way back, and a client may die at any
  moment; the bus then tells the daemon that its name is gone.
\<close>

section \<open>The system\<close>

datatype stage = At_Rest | Answered lease_answer | Unmapped | Gone

record process =
  lib :: drm_mgr
  stage :: stage
  plog :: "io list"

record lease_sys =
  daemon :: display_mgr
  procs :: "string \<Rightarrow> process"

definition move_proc :: "lease_sys \<Rightarrow> string \<Rightarrow> process \<Rightarrow> lease_sys" where
  "move_proc s c p = s\<lparr>procs := (procs s)(c := p)\<rparr>"

text \<open>The reply on the wire: \<open>f\<close> is the descriptor the receiver is given for the sender's.\<close>

definition fb_info_of :: "drm_fb_info \<Rightarrow> fb_info" where
  "fb_info_of i = \<lparr>fb_width = info_width i, fb_height = info_height i, fb_stride = info_stride i,
     fb_format = info_format i, fb_size = info_size i\<rparr>"

definition answer_of :: "fd \<Rightarrow> lease_reply option \<Rightarrow> lease_answer" where
  "answer_of f r = (case r of Some (Granted _ i) \<Rightarrow> Some (f, fb_info_of i) | _ \<Rightarrow> None)"

definition asked_bus :: "process \<Rightarrow> lease_answer \<Rightarrow> process" where
  "asked_bus p a = p\<lparr>stage := Answered a, plog := plog p @ [Bus_Call ''AcquireLease'']\<rparr>"

definition told_bus :: "process \<Rightarrow> process" where
  "told_bus p = p\<lparr>stage := At_Rest, lib := release_told (lib p), plog := plog p @ [Bus_Call ''ReleaseLease'']\<rparr>"

inductive lease_step :: "(u32 \<Rightarrow> u32 \<Rightarrow> bool) \<Rightarrow> (string \<Rightarrow> client_env) \<Rightarrow> lease_sys \<Rightarrow> lease_sys \<Rightarrow> bool"
  for accepts envs
where
  ask: "stage (procs s c) = At_Rest \<Longrightarrow>
     mgr_step accepts (daemon s) (mgr_event.Acquire (Some c) pid tn ta) = (r, d) \<Longrightarrow>
     lease_step accepts envs s (move_proc (s\<lparr>daemon := d\<rparr>) c (asked_bus (procs s c) (answer_of f r)))"
| ask_reply_lost: "stage (procs s c) = At_Rest \<Longrightarrow>
     mgr_step accepts (daemon s) (mgr_event.Acquire (Some c) pid tn ta) = (r, d) \<Longrightarrow>
     lease_step accepts envs s (move_proc (s\<lparr>daemon := d\<rparr>) c (asked_bus (procs s c) None))"
| ask_lost: "stage (procs s c) = At_Rest \<Longrightarrow>
     lease_step accepts envs s (move_proc s c (asked_bus (procs s c) None))"
| take_answer: "stage (procs s c) = Answered a \<Longrightarrow>
     acquire_answered (envs c) a (lib (procs s c)) (plog (procs s c)) = (addr, filled, x, l) \<Longrightarrow>
     lease_step accepts envs s (move_proc s c \<lparr>lib = x, stage = At_Rest, plog = l\<rparr>)"
| unmap: "stage (procs s c) = At_Rest \<Longrightarrow> holds_drm (lib (procs s c)) \<Longrightarrow>
     release_unmap (lib (procs s c)) (plog (procs s c)) = (x, l) \<Longrightarrow>
     lease_step accepts envs s (move_proc s c \<lparr>lib = x, stage = Unmapped, plog = l\<rparr>)"
| tell: "stage (procs s c) = Unmapped \<Longrightarrow>
     mgr_step accepts (daemon s) (mgr_event.Release (Some c)) = (r, d) \<Longrightarrow>
     lease_step accepts envs s (move_proc (s\<lparr>daemon := d\<rparr>) c (told_bus (procs s c)))"
| tell_lost: "stage (procs s c) = Unmapped \<Longrightarrow>
     lease_step accepts envs s (move_proc s c (told_bus (procs s c)))"
| quit: "lease_step accepts envs s (move_proc s c \<lparr>lib = drm_mgr_calloc, stage = Gone, plog = []\<rparr>)"
| vanish: "stage (procs s c) = Gone \<Longrightarrow> mgr_step accepts (daemon s) (Vanished c) = (r, d) \<Longrightarrow>
     lease_step accepts envs s (s\<lparr>daemon := d\<rparr>)"
| power: "e = On \<or> e = Off \<Longrightarrow> mgr_step accepts (daemon s) e = (r, d) \<Longrightarrow>
     lease_step accepts envs s (s\<lparr>daemon := d\<rparr>)"

definition lease_init :: "display_mgr \<Rightarrow> lease_sys" where
  "lease_init m = \<lparr>daemon = m, procs = (\<lambda>_. \<lparr>lib = drm_mgr_calloc, stage = At_Rest, plog = []\<rparr>)\<rparr>"

definition lease_reachable ::
  "(u32 \<Rightarrow> u32 \<Rightarrow> bool) \<Rightarrow> (string \<Rightarrow> client_env) \<Rightarrow> display_mgr \<Rightarrow> lease_sys \<Rightarrow> bool" where
  "lease_reachable accepts envs m s \<longleftrightarrow> (lease_step accepts envs)\<^sup>*\<^sup>* (lease_init m) s"

text \<open>The mappings a process has, whatever it remembers of them.\<close>

definition mappings :: "io list \<Rightarrow> resource multiset" where
  "mappings l = filter_mset (\<lambda>r. case r of Mapped _ _ \<Rightarrow> True | _ \<Rightarrow> False) (case ledger l of None \<Rightarrow> {#} | Some R \<Rightarrow> R)"

definition mapped :: "lease_sys \<Rightarrow> string \<Rightarrow> bool" where
  "mapped s c \<longleftrightarrow> mappings (plog (procs s c)) \<noteq> {#}"

text \<open>
  The programs of the repository ask once, when they hold nothing: a second request of the holder
  would be granted again and its first mapping forgotten.
\<close>

definition polite_step ::
  "(u32 \<Rightarrow> u32 \<Rightarrow> bool) \<Rightarrow> (string \<Rightarrow> client_env) \<Rightarrow> lease_sys \<Rightarrow> lease_sys \<Rightarrow> bool" where
  "polite_step accepts envs s t \<longleftrightarrow> lease_step accepts envs s t \<and>
     (\<forall>c a. holds_drm (lib (procs s c)) \<longrightarrow> stage (procs t c) \<noteq> Answered a)"

definition polite_reachable ::
  "(u32 \<Rightarrow> u32 \<Rightarrow> bool) \<Rightarrow> (string \<Rightarrow> client_env) \<Rightarrow> display_mgr \<Rightarrow> lease_sys \<Rightarrow> bool" where
  "polite_reachable accepts envs m s \<longleftrightarrow> (polite_step accepts envs)\<^sup>*\<^sup>* (lease_init m) s"

lemma polite_is_reachable: "polite_reachable accepts envs m s \<Longrightarrow> lease_reachable accepts envs m s"
  unfolding polite_reachable_def lease_reachable_def
  by (erule rtranclp_mono [THEN predicate2D, rotated]) (auto simp: polite_step_def)

section \<open>Who may have the buffer mapped\<close>

text \<open>What a process knows of the lease: what it holds or was just granted, and of which size.\<close>

definition proc_ok :: "drm_state \<Rightarrow> process \<Rightarrow> bool" where
  "proc_ok dev p \<longleftrightarrow>
     (case stage p of
        At_Rest \<Rightarrow> drm_mgr_ok (lib p)
      | Answered a \<Rightarrow> drm_mgr_ok (lib p) \<and> (\<forall>f i. a = Some (f, i) \<longrightarrow> i = fb_info_of (info dev))
      | Unmapped \<Rightarrow> fb_addr (lib p) = 0 \<and> owned_dmabuf (lib p) < 0 \<and> holds_drm (lib p)
      | Gone \<Rightarrow> lib p = drm_mgr_calloc) \<and>
     (fb_addr (lib p) \<noteq> 0 \<longrightarrow> map_size (lib p) = info_size (info dev))"

definition claims :: "process \<Rightarrow> bool" where
  "claims p \<longleftrightarrow> holds_drm (lib p) \<or> (\<exists>a. stage p = Answered (Some a))"

definition lease_sys_inv :: "drm_state \<Rightarrow> lease_sys \<Rightarrow> bool" where
  "lease_sys_inv dev s \<longleftrightarrow> drm (daemon s) = dev \<and>
     (\<forall>c. proc_ok dev (procs s c) \<and> (claims (procs s c) \<longrightarrow> lease (daemon s) = Some c))"

lemma move_proc_sel [simp]:
  "daemon (move_proc s c p) = daemon s" "procs (move_proc s c p) c = p"
  "c' \<noteq> c \<Longrightarrow> procs (move_proc s c p) c' = procs s c'"
  by (simp_all add: move_proc_def)

text \<open>A step of one process keeps the invariant if the daemon's record follows it.\<close>

lemma move_proc_inv:
  assumes "lease_sys_inv dev s" "proc_ok dev p" "drm d = dev"
    and "claims p \<longrightarrow> lease d = Some c"
    and "\<And>c'. c' \<noteq> c \<Longrightarrow> lease (daemon s) = Some c' \<Longrightarrow> lease d = Some c'"
  shows "lease_sys_inv dev (move_proc (s\<lparr>daemon := d\<rparr>) c p)"
  unfolding lease_sys_inv_def
proof (intro conjI allI)
  show "drm (daemon (move_proc (s\<lparr>daemon := d\<rparr>) c p)) = dev" using assms(3) by simp
  fix c'
  show "proc_ok dev (procs (move_proc (s\<lparr>daemon := d\<rparr>) c p) c')"
    using assms(1,2) by (cases "c' = c") (auto simp: lease_sys_inv_def)
  show "claims (procs (move_proc (s\<lparr>daemon := d\<rparr>) c p) c')
      \<longrightarrow> lease (daemon (move_proc (s\<lparr>daemon := d\<rparr>) c p)) = Some c'"
    using assms(1,4,5) by (cases "c' = c") (auto simp: lease_sys_inv_def)
qed

lemma move_proc_same: "move_proc s c p = move_proc (s\<lparr>daemon := daemon s\<rparr>) c p"
  by (simp add: move_proc_def)

lemma move_proc_only_inv:
  assumes "lease_sys_inv dev s" "proc_ok dev p" "claims p \<longrightarrow> claims (procs s c)"
  shows "lease_sys_inv dev (move_proc s c p)"
  unfolding move_proc_same [of s c p]
  by (rule move_proc_inv) (use assms in \<open>auto simp: lease_sys_inv_def\<close>)

text \<open>What a request does to the daemon's record.\<close>

lemma ask_effect:
  assumes "mgr_step accepts m (mgr_event.Acquire (Some c) pid tn ta) = (r, d)"
  shows "drm d = drm m \<and>
     (answer_of f r \<noteq> None \<longrightarrow> lease d = Some c \<and> (\<exists>g. answer_of f r = Some (g, fb_info_of (info (drm m))))) \<and>
     (lease m = Some c \<longrightarrow> lease d = Some c) \<and>
     (\<forall>c'. lease m = Some c' \<longrightarrow> lease d = Some c')"
  using assms by (auto simp: method_acquire_lease_def answer_of_def Let_def split: if_splits)

lemma asked_bus_ok:
  assumes "proc_ok dev p" "stage p = At_Rest" "\<forall>g i. a = Some (g, i) \<longrightarrow> i = fb_info_of (info dev)"
  shows "proc_ok dev (asked_bus p a)" "claims (asked_bus p a) \<longleftrightarrow> holds_drm (lib p) \<or> a \<noteq> None"
  using assms by (auto simp: proc_ok_def asked_bus_def claims_def)

lemma told_bus_ok:
  assumes "proc_ok dev p" "stage p = Unmapped"
  shows "proc_ok dev (told_bus p)" "\<not> claims (told_bus p)"
  using assms by (auto simp: proc_ok_def told_bus_def claims_def release_told_def drm_mgr_ok_def)

lemma acquire_answered_ok:
  assumes "acquire_answered env a s l = (addr, filled, s', l')" "maps_above_null env"
  shows "s' = s \<or> (\<exists>f i. a = Some (f, i) \<and> map_size s' = fb_size i \<and> drm_mgr_ok s' \<and> holds_drm s')"
  using assms
  by (auto simp: acquire_answered_def Let_def maps_above_null_def drm_mgr_ok_def split: option.splits if_splits)

lemma lease_step_inv:
  assumes "lease_step accepts envs s t" "\<forall>c. maps_above_null (envs c)" "lease_sys_inv dev s"
  shows "lease_sys_inv dev t"
  using assms(1)
proof cases
  case (ask c pid tn ta r d f)
  have old: "proc_ok dev (procs s c)" "drm (daemon s) = dev" using assms(3) by (auto simp: lease_sys_inv_def)
  note eff = ask_effect [OF ask(3), of f]
  have p: "proc_ok dev (asked_bus (procs s c) (answer_of f r))"
    using asked_bus_ok(1) [OF old(1) ask(2)] eff old(2) by force
  show ?thesis unfolding ask(1)
    by (rule move_proc_inv [OF assms(3) p])
      (use eff old assms(3) ask(2) in \<open>auto simp: lease_sys_inv_def claims_def asked_bus_def\<close>)
next
  case (ask_reply_lost c pid tn ta r d)
  have old: "proc_ok dev (procs s c)" "drm (daemon s) = dev" using assms(3) by (auto simp: lease_sys_inv_def)
  note eff = ask_effect [OF ask_reply_lost(3), of 0]
  show ?thesis unfolding ask_reply_lost(1)
    by (rule move_proc_inv [OF assms(3) asked_bus_ok(1) [OF old(1) ask_reply_lost(2)]])
      (use eff old assms(3) in \<open>auto simp: lease_sys_inv_def claims_def asked_bus_def\<close>)
next
  case (ask_lost c)
  have old: "proc_ok dev (procs s c)" using assms(3) by (auto simp: lease_sys_inv_def)
  show ?thesis unfolding ask_lost(1)
    by (rule move_proc_only_inv [OF assms(3) asked_bus_ok(1) [OF old ask_lost(2)]])
      (auto simp: claims_def asked_bus_def)
next
  case (take_answer c a addr filled x l)
  have old: "proc_ok dev (procs s c)" using assms(3) by (auto simp: lease_sys_inv_def)
  have env: "maps_above_null (envs c)" using assms(2) by simp
  show ?thesis unfolding take_answer(1)
    by (rule move_proc_only_inv [OF assms(3)])
      (use acquire_answered_ok [OF take_answer(3) env] old take_answer(2) in
        \<open>auto simp: proc_ok_def claims_def fb_info_of_def\<close>)
next
  case (unmap c x l)
  have old: "proc_ok dev (procs s c)" using assms(3) by (auto simp: lease_sys_inv_def)
  have x: "fb_addr x = 0 \<and> owned_dmabuf x < 0 \<and> holds_drm x"
    using unmap(3,4) by (auto simp: release_unmap_def Let_def split: if_splits)
  show ?thesis unfolding unmap(1)
    by (rule move_proc_only_inv [OF assms(3)]) (use x unmap(3) in \<open>auto simp: proc_ok_def claims_def\<close>)
next
  case (tell c r d)
  have old: "proc_ok dev (procs s c)" "drm (daemon s) = dev" using assms(3) by (auto simp: lease_sys_inv_def)
  show ?thesis unfolding tell(1)
    by (rule move_proc_inv [OF assms(3) told_bus_ok(1) [OF old(1) tell(2)]])
      (use tell(3) told_bus_ok(2) [OF old(1) tell(2)] old(2) in
        \<open>auto simp: method_release_lease_def split: if_splits\<close>)
next
  case (tell_lost c)
  have old: "proc_ok dev (procs s c)" using assms(3) by (auto simp: lease_sys_inv_def)
  show ?thesis unfolding tell_lost(1)
    by (rule move_proc_only_inv [OF assms(3) told_bus_ok(1) [OF old tell_lost(2)]])
      (use told_bus_ok(2) [OF old tell_lost(2)] in simp)
next
  case (quit c)
  show ?thesis unfolding quit
    by (rule move_proc_only_inv [OF assms(3)]) (auto simp: proc_ok_def claims_def)
next
  case (vanish c r d)
  have "\<not> claims (procs s c)"
    using assms(3) vanish(2) by (force simp: lease_sys_inv_def proc_ok_def claims_def)
  then show ?thesis using assms(3) vanish
    by (auto simp: lease_sys_inv_def on_lease_track_drop_def split: if_splits)
next
  case (power e r d)
  then show ?thesis using assms(3) by (auto simp: lease_sys_inv_def)
qed

lemma lease_reachable_inv:
  assumes "lease_reachable accepts envs m s" "\<forall>c. maps_above_null (envs c)"
  shows "lease_sys_inv (drm m) s"
  using assms(1) unfolding lease_reachable_def
proof (induction rule: rtranclp_induct)
  case base
  show ?case by (auto simp: lease_sys_inv_def lease_init_def proc_ok_def claims_def)
next
  case (step t u)
  then show ?case using lease_step_inv assms(2) by blast
qed

text \<open>What a polite process has, its log says and its library remembers.\<close>

definition logs_inv :: "lease_sys \<Rightarrow> bool" where
  "logs_inv s \<longleftrightarrow> (\<forall>c. ledger (plog (procs s c)) = Some (lease_owned (lib (procs s c))) \<and>
     ((\<exists>a. stage (procs s c) = Answered a) \<longrightarrow> \<not> holds_drm (lib (procs s c))))"

lemma logs_inv_move:
  assumes "logs_inv s" "ledger (plog p) = Some (lease_owned (lib p))" "(\<exists>a. stage p = Answered a) \<longrightarrow> \<not> holds_drm (lib p)"
  shows "logs_inv (move_proc (s\<lparr>daemon := d\<rparr>) c p)" "logs_inv (move_proc s c p)"
  using assms by (auto simp: logs_inv_def move_proc_def)

lemma asked_log:
  assumes "logs_inv s" "\<not> holds_drm (lib (procs s c))"
  shows "ledger (plog (asked_bus (procs s c) a)) = Some (lease_owned (lib (asked_bus (procs s c) a)))"
    "(\<exists>a'. stage (asked_bus (procs s c) a) = Answered a') \<longrightarrow> \<not> holds_drm (lib (asked_bus (procs s c) a))"
  using assms by (simp_all add: logs_inv_def asked_bus_def)

lemma told_log:
  assumes "logs_inv s" "stage (procs s c) = Unmapped" "lease_sys_inv dev s"
  shows "ledger (plog (told_bus (procs s c))) = Some (lease_owned (lib (told_bus (procs s c))))"
    "\<nexists>a'. stage (told_bus (procs s c)) = Answered a'"
proof -
  have "proc_ok dev (procs s c)" "ledger (plog (procs s c)) = Some (lease_owned (lib (procs s c)))"
    using assms(1,3) by (simp_all add: lease_sys_inv_def logs_inv_def)
  then show "ledger (plog (told_bus (procs s c))) = Some (lease_owned (lib (told_bus (procs s c))))"
    "\<nexists>a'. stage (told_bus (procs s c)) = Answered a'"
    using assms(2) by (auto simp: proc_ok_def told_bus_def release_told_def lease_owned_def)
qed

lemma polite_step_logs:
  assumes "polite_step accepts envs s t" "\<forall>c. maps_above_null (envs c)" "lease_sys_inv dev s" "logs_inv s"
  shows "logs_inv t"
proof -
  have step: "lease_step accepts envs s t" and polite: "\<And>c a. holds_drm (lib (procs s c)) \<Longrightarrow> stage (procs t c) \<noteq> Answered a"
    using assms(1) by (auto simp: polite_step_def)
  from step show ?thesis
  proof cases
    case (ask c pid tn ta r d f)
    have "\<not> holds_drm (lib (procs s c))" using polite [of c] ask(1) by (auto simp: asked_bus_def)
    then show ?thesis unfolding ask(1) by (intro logs_inv_move(1) assms(4) asked_log)
  next
    case (ask_reply_lost c pid tn ta r d)
    have "\<not> holds_drm (lib (procs s c))" using polite [of c] ask_reply_lost(1) by (auto simp: asked_bus_def)
    then show ?thesis unfolding ask_reply_lost(1) by (intro logs_inv_move(1) assms(4) asked_log)
  next
    case (ask_lost c)
    have "\<not> holds_drm (lib (procs s c))" using polite [of c] ask_lost(1) by (auto simp: asked_bus_def)
    then show ?thesis unfolding ask_lost(1) by (intro logs_inv_move(2) assms(4) asked_log)
  next
    case (take_answer c a addr filled x l)
    have env: "maps_above_null (envs c)" using assms(2) by simp
    have none: "\<not> holds_drm (lib (procs s c))" "ledger (plog (procs s c)) = Some (lease_owned (lib (procs s c)))"
      using assms(4) take_answer(2) by (auto simp: logs_inv_def)
    then have "ledger (plog (procs s c)) = Some {#}" by (simp add: lease_owned_def)
    from acquire_answered_ledger [OF take_answer(3) env this] none(1) have "ledger l = Some (lease_owned x)"
      by (auto simp: lease_owned_def split: if_splits)
    then show ?thesis unfolding take_answer(1) by (intro logs_inv_move(2) assms(4)) simp_all
  next
    case (unmap c x l)
    have "ledger (plog (procs s c)) = Some ({#} + lease_owned (lib (procs s c)))" using assms(4) by (simp add: logs_inv_def)
    from release_unmap_ledger [OF unmap(4,3) this] have "ledger l = Some (lease_owned x)" by (simp add: lease_owned_def)
    then show ?thesis unfolding unmap(1) by (intro logs_inv_move(2) assms(4)) simp_all
  next
    case (tell c r d)
    then show ?thesis unfolding tell(1) using told_log [OF assms(4) tell(2) assms(3)] by (intro logs_inv_move(1) assms(4)) auto
  next
    case (tell_lost c)
    then show ?thesis unfolding tell_lost(1) using told_log [OF assms(4) tell_lost(2) assms(3)]
      by (intro logs_inv_move(2) assms(4)) auto
  next
    case (quit c)
    show ?thesis unfolding quit by (intro logs_inv_move(2) assms(4)) simp_all
  next
    case (vanish c r d)
    then show ?thesis using assms(4) by (simp add: logs_inv_def)
  next
    case (power e r d)
    then show ?thesis using assms(4) by (simp add: logs_inv_def)
  qed
qed

lemma polite_reachable_logs:
  assumes "polite_reachable accepts envs m s" "\<forall>c. maps_above_null (envs c)"
  shows "logs_inv s"
proof -
  have "lease_sys_inv (drm m) s \<and> logs_inv s"
    using assms(1) unfolding polite_reachable_def
  proof (induction rule: rtranclp_induct)
    case base
    show ?case by (auto simp: lease_sys_inv_def logs_inv_def lease_init_def proc_ok_def claims_def)
  next
    case (step t u)
    then show ?case using lease_step_inv [OF _ assms(2)] polite_step_logs [OF _ assms(2)] by (auto simp: polite_step_def)
  qed
  then show ?thesis by simp
qed

text \<open>The mappings of a polite process are the one its library remembers, if any.\<close>

lemma mappings_remembered:
  assumes "lease_sys_inv dev s" "logs_inv s"
  shows "mappings (plog (procs s c)) =
    (if fb_addr (lib (procs s c)) = 0 then {#}
     else {#Mapped (fb_addr (lib (procs s c))) (unat (info_size (info dev)))#})"
proof -
  have l: "ledger (plog (procs s c)) = Some (lease_owned (lib (procs s c)))" using assms(2) by (simp add: logs_inv_def)
  have "proc_ok dev (procs s c)" using assms(1) by (simp add: lease_sys_inv_def)
  then have "fb_addr (lib (procs s c)) \<noteq> 0 \<longrightarrow>
      holds_drm (lib (procs s c)) \<and> map_size (lib (procs s c)) = info_size (info dev)"
    by (auto simp: proc_ok_def drm_mgr_ok_def split: stage.splits)
  then show ?thesis by (auto simp: mappings_def l lease_owned_def)
qed

text \<open>
  C30. The frame buffer is mapped by at most one process. Let the kernel never map at the null
  address, and let no client ask for the buffer while it holds it, as the programs of the
  repository do not (a second request is granted and its mapping replaces the first, which is never
  unmapped). Then, however the requests, answers, releases, lost calls and deaths of any number of clients
  interleave, a process that has the buffer mapped is the one the daemon's record names, it has exactly one
  mapping of it, of the size the daemon announced, and no other process has any.
\<close>

theorem frame_buffer_mapped_once:
  assumes "polite_reachable accepts envs m s" "\<forall>c. maps_above_null (envs c)" "mapped s c"
  shows "lease (daemon s) = Some c \<and> (\<forall>c'. mapped s c' \<longrightarrow> c' = c)
    \<and> mappings (plog (procs s c)) = {#Mapped (fb_addr (lib (procs s c))) (unat (info_size (info (drm m))))#}"
proof -
  have inv: "lease_sys_inv (drm m) s" by (rule lease_reachable_inv [OF polite_is_reachable [OF assms(1)] assms(2)])
  note maps = mappings_remembered [OF inv polite_reachable_logs [OF assms(1,2)]]
  have holder: "lease (daemon s) = Some x" if "mapped s x" for x
  proof -
    have p: "proc_ok (drm m) (procs s x)" "claims (procs s x) \<longrightarrow> lease (daemon s) = Some x"
      using inv by (simp_all add: lease_sys_inv_def)
    have "fb_addr (lib (procs s x)) \<noteq> 0" using that maps [of x] by (auto simp: mapped_def split: if_splits)
    then have "holds_drm (lib (procs s x))" using p(1) by (auto simp: proc_ok_def drm_mgr_ok_def split: stage.splits)
    then show ?thesis using p by (simp add: claims_def)
  qed
  have "c' = c" if "mapped s c'" for c' using holder [OF that] holder [OF assms(3)] by simp
  with holder [OF assms(3)] maps [of c] assms(3) show ?thesis by (auto simp: mapped_def split: if_splits)
qed

text \<open>A client that asks again while it holds the buffer keeps a mapping it no longer knows of.\<close>

lemma second_request_leaks:
  assumes "ledger l = Some (lease_owned s)" "holds_drm s" "maps_above_null env"
    and "acquire_answered env a s l = (addr, filled, s', l')" "addr \<noteq> 0"
    and "release_unmap s' l' = (s2, l2)"
  shows "ledger l2 = Some (lease_owned s)"
proof -
  have "ledger l' = Some (lease_owned s + lease_owned s') \<and> holds_drm s'"
    using acquire_answered_ledger [OF assms(4,3,1)] assms(5) by simp
  then show ?thesis using release_unmap_ledger [OF assms(6)] by blast
qed

definition quiet_client :: client_env where
  "quiet_client = \<lparr>ce_alloc = (\<lambda>_. True), ce_open_bus = (\<lambda>_. 0), ce_read_reply = (\<lambda>_. 0),
     ce_dup = (\<lambda>_ f. f + 1), ce_mmap = (\<lambda>_ _ _. Some 0x76000000)\<rparr>"

definition willing_client :: "client_env \<Rightarrow> bool" where
  "willing_client env \<longleftrightarrow> (\<forall>l. 0 \<le> ce_read_reply env l) \<and> (\<forall>l f. 0 \<le> f \<longrightarrow> 0 \<le> ce_dup env l f) \<and>
     (\<forall>l n f. \<exists>addr. addr \<noteq> 0 \<and> ce_mmap env l n f = Some addr)"

lemma quiet_client_ok: "maps_above_null quiet_client" "willing_client quiet_client"
  by (simp_all add: quiet_client_def maps_above_null_def willing_client_def)

lemma willing_maps:
  assumes "willing_client env" "0 \<le> f"
  shows "\<exists>addr filled x l'. acquire_answered env (Some (f, i)) s l = (addr, filled, x, l') \<and> fb_addr x \<noteq> 0 \<and> addr \<noteq> 0"
proof -
  define l1 own where "l1 = l @ [Acquire (Heap ''reply'')]" and "own = ce_dup env l1 f"
  define l2 where "l2 = l1 @ [Acquire (Fd own)] @ [Release (Heap ''reply'')]"
  have ok: "\<not> ce_read_reply env l1 < 0" "0 \<le> own" using assms by (auto simp: willing_client_def own_def not_less)
  obtain addr where "addr \<noteq> 0" "ce_mmap env l2 (fb_size i) own = Some addr"
    using assms(1) unfolding willing_client_def by blast
  with ok show ?thesis by (simp add: acquire_answered_def Let_def l1_def own_def l2_def)
qed

lemma willing_answer:
  assumes "willing_client env" "0 \<le> f" "acquire_answered env (Some (f, i)) s l = (addr, filled, x, l')"
  shows "fb_addr x \<noteq> 0 \<and> addr \<noteq> 0"
  using willing_maps [OF assms(1,2), of i s l] assms(3) by auto

text \<open>From rest, a client of a free daemon is granted the buffer and maps it.\<close>

lemma free_lease_granted:
  assumes "lease d = None" "0 \<le> tn" "0 \<le> ta"
  shows "\<exists>d'. mgr_step accepts d (mgr_event.Acquire (Some c) pid tn ta) = (Some (Granted (dmabuf_fd (drm d)) (info (drm d))), d')
     \<and> lease d' = Some c \<and> drm d' = drm d"
  using assms by (simp add: method_acquire_lease_def Let_def)

lemma can_map:
  assumes "lease (daemon s) = None" "stage (procs s c) = At_Rest" "\<not> holds_drm (lib (procs s c))"
    and "willing_client (envs c)" "logs_inv s" "lease_sys_inv dev s" "\<forall>c. maps_above_null (envs c)"
  shows "\<exists>t. (polite_step accepts envs)\<^sup>*\<^sup>* s t \<and> mapped t c"
proof -
  obtain d where d: "mgr_step accepts (daemon s) (mgr_event.Acquire (Some c) 0 0 0)
      = (Some (Granted (dmabuf_fd (drm (daemon s))) (info (drm (daemon s)))), d)"
    using free_lease_granted [OF assms(1), of 0 0 accepts c 0] by auto
  define a where "a = answer_of 3 (Some (Granted (dmabuf_fd (drm (daemon s))) (info (drm (daemon s)))))"
  define s1 where "s1 = move_proc (s\<lparr>daemon := d\<rparr>) c (asked_bus (procs s c) a)"
  have 1: "lease_step accepts envs s s1" unfolding s1_def a_def by (rule lease_step.ask [OF assms(2) d])
  have p1: "stage (procs s1 c') = Answered a' \<Longrightarrow> \<not> holds_drm (lib (procs s c'))" for c' a'
    using assms(3,5) by (cases "c' = c") (auto simp: s1_def logs_inv_def)
  have s1: "polite_step accepts envs s s1" using 1 p1 by (auto simp: polite_step_def)
  have inv1: "logs_inv s1" "lease_sys_inv dev s1"
    using polite_step_logs [OF s1 assms(7,6,5)] lease_step_inv [OF 1 assms(7,6)] by simp_all
  obtain addr filled x l where
      got: "acquire_answered (envs c) a (lib (procs s1 c)) (plog (procs s1 c)) = (addr, filled, x, l)" "fb_addr x \<noteq> 0"
    using willing_maps [OF assms(4), of 3 "fb_info_of (info (drm (daemon s)))" "lib (procs s1 c)" "plog (procs s1 c)"]
    by (auto simp: a_def answer_of_def)
  define t where "t = move_proc s1 c \<lparr>lib = x, stage = At_Rest, plog = l\<rparr>"
  have "stage (procs s1 c) = Answered a" by (simp add: s1_def asked_bus_def)
  then have 2: "lease_step accepts envs s1 t" unfolding t_def using got(1) by (rule lease_step.take_answer)
  have "stage (procs t c') = Answered a' \<Longrightarrow> \<not> holds_drm (lib (procs s1 c'))" for c' a'
    using inv1(1) by (cases "c' = c") (auto simp: t_def logs_inv_def)
  then have t: "polite_step accepts envs s1 t" using 2 by (auto simp: polite_step_def)
  have "logs_inv t" "lease_sys_inv dev t"
    using polite_step_logs [OF t assms(7) inv1(2,1)] lease_step_inv [OF 2 assms(7) inv1(2)] by simp_all
  from mappings_remembered [OF this(2,1), of c] got(2) have "mapped t c" by (simp add: mapped_def t_def)
  with s1 t show ?thesis by (meson converse_rtranclp_into_rtranclp r_into_rtranclp)
qed

theorem frame_buffer_mapped_once_witness:
  "\<exists>s. polite_reachable (\<lambda>_ _. True) (\<lambda>_. quiet_client) panel_mgr s \<and> mapped s '':1.4'' \<and>
     \<not> mapped s '':1.9'' \<and> size (mappings (plog (procs s '':1.4''))) = 1"
proof -
  let ?i = "lease_init panel_mgr"
  have free: "lease (daemon ?i) = None" "stage (procs ?i '':1.4'') = At_Rest" "\<not> holds_drm (lib (procs ?i '':1.4''))"
    by (simp_all add: lease_init_def panel_mgr_def dbus_init_def)
  have null: "\<forall>c::string. maps_above_null quiet_client" using quiet_client_ok(1) by simp
  have "polite_reachable (\<lambda>_ _. True) (\<lambda>_. quiet_client) panel_mgr ?i" by (simp add: polite_reachable_def)
  then have "logs_inv ?i" "lease_sys_inv (drm panel_mgr) ?i"
    using polite_reachable_logs null lease_reachable_inv polite_is_reachable by blast+
  from can_map [OF free, of "\<lambda>_. quiet_client", OF quiet_client_ok(2) this null, of "\<lambda>_ _. True"]
  obtain s where s: "polite_reachable (\<lambda>_ _. True) (\<lambda>_. quiet_client) panel_mgr s" "mapped s '':1.4''"
    by (auto simp: polite_reachable_def)
  note once = frame_buffer_mapped_once [OF s(1) null s(2)]
  have "\<not> mapped s '':1.9''" using once [THEN conjunct2, THEN conjunct1, rule_format, of "'':1.9''"] by auto
  with s once [THEN conjunct2, THEN conjunct2] show ?thesis by auto
qed

section \<open>A lease is not lost\<close>

text \<open>The daemon when nobody holds the buffer: as it is, or after the holder released it or left the bus.\<close>

definition freed :: "(u32 \<Rightarrow> u32 \<Rightarrow> bool) \<Rightarrow> display_mgr \<Rightarrow> display_mgr \<Rightarrow> bool" where
  "freed accepts m d \<longleftrightarrow>
     (case lease m of
        None \<Rightarrow> d = m
      | Some h \<Rightarrow> d = snd (mgr_step accepts m (mgr_event.Release (Some h))) \<or> d = snd (mgr_step accepts m (Vanished h)))"

lemma freed_lease: "freed accepts m d \<Longrightarrow> lease d = None \<and> drm d = drm m"
  by (auto simp: freed_def method_release_lease_def on_lease_track_drop_def split: option.splits)

text \<open>
  C31. The buffer can always be had again. In every state the system can reach, whichever calls
  were lost and whoever died on the way: as soon as the client the daemon's record names, if
  there is one, has released the lease or has left the bus, the next request of any client is granted,
  provided that the daemon can track it; the record names this client, every other one is
  refused, and the answer it gets, when the reply can be read, the descriptor duplicated and the memory
  mapped, leaves it with the buffer mapped, of the size announced.
\<close>

theorem lease_recovers:
  assumes "lease_reachable accepts envs m s" "\<forall>c. maps_above_null (envs c)"
    and "freed accepts (daemon s) d" "0 \<le> tn" "0 \<le> ta" "willing_client (envs c)" "0 \<le> f"
    and "mgr_step accepts d (mgr_event.Acquire (Some c) pid tn ta) = (r, d')"
    and "acquire_answered (envs c) (answer_of f r) (lib (procs s c)) l = (addr, filled, x, l')"
  shows "r = Some (Granted (dmabuf_fd (drm m)) (info (drm m))) \<and> lease d' = Some c
    \<and> (\<forall>c' pid' tn' ta'. c' \<noteq> c \<longrightarrow> fst (mgr_step accepts d' (mgr_event.Acquire (Some c') pid' tn' ta')) = Some Lease_Held)
    \<and> addr \<noteq> 0 \<and> filled = Some (fb_info_of (info (drm m)))
    \<and> holds_drm x \<and> fb_addr x = addr \<and> map_size x = info_size (info (drm m))"
proof -
  have dev: "drm (daemon s) = drm m" using lease_reachable_inv [OF assms(1,2)] by (simp add: lease_sys_inv_def)
  have free: "lease d = None" "drm d = drm m" using freed_lease [OF assms(3)] dev by simp_all
  have r: "r = Some (Granted (dmabuf_fd (drm m)) (info (drm m)))" "lease d' = Some c"
    using free_lease_granted [OF free(1) assms(4,5), of accepts c pid] free(2) assms(8) by auto
  have ans: "answer_of f r = Some (f, fb_info_of (info (drm m)))" by (simp add: r answer_of_def)
  have x: "fb_addr x \<noteq> 0" "addr \<noteq> 0" using willing_answer [OF assms(6,7) assms(9) [unfolded ans]] by simp_all
  have "holds_drm x \<and> fb_addr x = addr \<and> map_size x = info_size (info (drm m)) \<and> filled = Some (fb_info_of (info (drm m)))"
    using assms(9) [unfolded ans] x(2) by (auto simp: acquire_answered_def Let_def fb_info_of_def split: if_splits option.splits)
  with r x show ?thesis by (simp add: method_acquire_lease_def)
qed

theorem lease_recovers_witness:
  "\<exists>d d'. freed (\<lambda>_ _. True) (snd (mgr_step (\<lambda>_ _. True) panel_mgr (mgr_event.Acquire (Some '':1.4'') 10 0 0))) d
     \<and> mgr_step (\<lambda>_ _. True) d (mgr_event.Acquire (Some '':1.9'') 12 0 0) = (Some (Granted 9 (info panel_started)), d')
     \<and> lease d' = Some '':1.9''"
proof -
  let ?i = "lease_init panel_mgr" and ?ok = "\<lambda>_ _. True"
  let ?ask = "mgr_step ?ok panel_mgr (mgr_event.Acquire (Some '':1.4'') 10 0 0)"
  define s where "s = move_proc (?i\<lparr>daemon := snd ?ask\<rparr>) '':1.4'' (asked_bus (procs ?i '':1.4'') None)"
  have "lease_step ?ok (\<lambda>_. quiet_client) ?i s"
    unfolding s_def by (rule lease_step.ask_reply_lost [where r = "fst ?ask"]) (simp_all add: lease_init_def)
  then have reach: "lease_reachable ?ok (\<lambda>_. quiet_client) panel_mgr s" by (simp add: lease_reachable_def r_into_rtranclp)
  have null: "\<forall>c::string. maps_above_null quiet_client" using quiet_client_ok(1) by simp
  have "\<exists>d. freed ?ok (daemon s) d" by (cases "lease (daemon s)") (auto simp: freed_def)
  then obtain d where d: "freed ?ok (daemon s) d" ..
  obtain r d' where step: "mgr_step ?ok d (mgr_event.Acquire (Some '':1.9'') 12 0 0) = (r, d')" by fastforce
  obtain addr filled x l where got:
      "acquire_answered quiet_client (answer_of 3 r) (lib (procs s '':1.9'')) [] = (addr, filled, x, l)"
    by (metis prod_cases4)
  from lease_recovers [OF reach null d _ _ quiet_client_ok(2) _ step got]
  have "r = Some (Granted 9 (info panel_started)) \<and> lease d' = Some '':1.9''"
    by (simp add: panel_mgr_def dbus_init_def panel_started_def)
  moreover have "daemon s = snd ?ask" by (simp add: s_def)
  ultimately show ?thesis using d step by metis
qed

text \<open>
  A client whose mapping fails after it was granted the lease keeps it without knowing: its
  release does nothing, and every other client is refused until it leaves.
\<close>

lemma failed_mapping_strands_lease:
  assumes "stage (procs s c) = Answered (Some (f, i))" "lease_sys_inv dev s" "\<not> holds_drm (lib (procs s c))"
    and "acquire_answered (envs c) (Some (f, i)) (lib (procs s c)) (plog (procs s c)) = (0, filled, x, l)"
    and "maps_above_null (envs c)"
  shows "lease (daemon s) = Some c \<and> drm_mgr_release_fb (Some x) l = Some (x, l)
     \<and> (c' \<noteq> c \<longrightarrow> fst (mgr_step accepts (daemon s) (mgr_event.Acquire (Some c') pid tn ta)) = Some Lease_Held)"
proof -
  have "lease (daemon s) = Some c" using assms(1,2) by (auto simp: lease_sys_inv_def claims_def)
  moreover have "x = lib (procs s c)"
    using assms(4,5)
    by (auto simp: acquire_answered_def Let_def maps_above_null_def split: option.splits if_splits)
  ultimately show ?thesis using assms(3) by (auto simp: drm_mgr_release_fb_def method_acquire_lease_def)
qed

end
