(* ===== verification/Screen.thy ===== *)
theory Screen
  imports Ambience Lease
begin

text \<open>
  A photo on its way to the screen: one round of the worker of \<^verbatim>\<open>ambience/slideshow.c\<close> with the
  pixels it moves. The decoder, the renderer and the overlay are the models of
  \<^verbatim>\<open>jpeg_loader.c\<close>, \<^verbatim>\<open>img_render.c\<close> and \<^verbatim>\<open>ambience/main.c\<close>; the memory shown is the buffer the display
  manager created and the lease client mapped. Leaving a buffer is the value \<open>None\<close>.
\<close>

section \<open>Painting\<close>

text \<open>The frame buffer as the overlay sees it, an array of pixels, and back.\<close>

definition frame_words :: "frame_buffer \<Rightarrow> u32 list" where
  "frame_words b = map (\<lambda>i. fb_px b (4 * i)) [0..<fb_bytes b div 4]"

definition words_frame :: "frame_buffer \<Rightarrow> u32 list \<Rightarrow> frame_buffer" where
  "words_frame b ws = b\<lparr>fb_px := (\<lambda>off. if 4 dvd off \<and> off div 4 < length ws then ws ! (off div 4) else fb_px b off)\<rparr>"

text \<open>\<^verbatim>\<open>memcpy\<close> between frame buffers.\<close>

definition copy_frame :: "nat \<Rightarrow> frame_buffer \<Rightarrow> frame_buffer \<Rightarrow> frame_buffer option" where
  "copy_frame n src dst =
     (if n \<le> fb_bytes src \<and> n \<le> fb_bytes dst
      then Some (dst\<lparr>fb_px := (\<lambda>off. if off + 4 \<le> n then fb_px src off else fb_px dst off)\<rparr>) else None)"

record screen =
  compose_buf :: frame_buffer
  shown :: frame_buffer

definition draw_photo :: "(real \<Rightarrow> real) \<Rightarrow> slideshow \<Rightarrow> jpeg_image \<Rightarrow> frame_buffer \<Rightarrow> frame_buffer option" where
  "draw_photo rnd s i b =
     img_render rnd b (fb_width (fbi s)) (fb_height (fbi s)) (fb_stride (fbi s))
       (img_pixels i) (img_width i) (img_height i) (rot s) INTERP_BILINEAR"

definition paint_photo ::
  "(real \<Rightarrow> real) \<Rightarrow> slideshow \<Rightarrow> overlay_env \<Rightarrow> jpeg_image \<Rightarrow> ambience_ctx \<times> screen \<Rightarrow> (ambience_ctx \<times> screen) option" where
  "paint_photo rnd s draw i cs =
     (case cs of (c, scr) \<Rightarrow> do {
        b1 \<leftarrow> draw_photo rnd s i (compose_buf scr);
        (ws, c') \<leftarrow> on_overlay c (frame_words b1) (fb_width (fbi s)) (fb_height (fbi s)) (fb_stride (fbi s)) draw;
        let b2 = words_frame b1 ws;
        m \<leftarrow> copy_frame (unat (compose_buf_size s)) b2 (shown scr);
        Some (c', \<lparr>compose_buf = b2, shown = m\<rparr>)
      })"

definition paint_fallback ::
  "(real \<Rightarrow> real) \<Rightarrow> slideshow \<Rightarrow> jpeg_image \<Rightarrow> ambience_ctx \<times> screen \<Rightarrow> (ambience_ctx \<times> screen) option" where
  "paint_fallback rnd s i cs =
     (case cs of (c, scr) \<Rightarrow> do {
        b1 \<leftarrow> draw_photo rnd s i (compose_buf scr);
        m \<leftarrow> copy_frame (unat (compose_buf_size s)) b1 (shown scr);
        Some (c, \<lparr>compose_buf = b1, shown = m\<rparr>)
      })"

fun paint :: "(real \<Rightarrow> real) \<Rightarrow> slideshow \<Rightarrow> overlay_env \<Rightarrow> effect \<Rightarrow> ambience_ctx \<times> screen \<Rightarrow> (ambience_ctx \<times> screen) option" where
  "paint rnd s draw (Show_Photo i) cs = paint_photo rnd s draw i cs"
| "paint rnd s draw (Show_Fallback path i) cs = paint_fallback rnd s i cs"
| "paint rnd s draw _ cs = Some cs"

definition screen_round ::
  "(real \<Rightarrow> real) \<Rightarrow> overlay_env \<Rightarrow> round_env \<Rightarrow> slideshow \<Rightarrow> ambience_ctx \<times> screen
     \<Rightarrow> (effect list \<times> slideshow \<times> ambience_ctx \<times> screen) option" where
  "screen_round rnd draw env s cs = do {
     (effs, s') \<leftarrow> worker_round env s;
     (c', scr') \<leftarrow> fold_opt (paint rnd s' draw) effs cs;
     Some (effs, s', c', scr')
   }"

section \<open>The overlay on the composed picture\<close>

definition overlay_px :: "nat \<Rightarrow> nat \<Rightarrow> u32 \<Rightarrow> u32" where
  "overlay_px y x v = (if y < 100 \<and> x < 100 then 0x00FF00FF else v)"

lemma write_bytes_nth:
  assumes "write_bytes b i xs = Some b'" "j < length b"
  shows "b' ! j = (if i \<le> j \<and> j < i + length xs then xs ! (j - i) else b ! j)"
  using assms by (auto simp: write_bytes_def nth_append min_def split: if_splits)

text \<open>Rows of \<open>k\<close> pixels: the first \<open>w\<close> of rows \<open>y\<close> to \<open>y + n\<close> are filled.\<close>

lemma fill_rows_nth:
  assumes "unat stride = 4 * k" "unat w \<le> k" "0 < k" "(y + n) * (4 * k) < 2 ^ 32" "(y + n) * k \<le> length buf"
    and "fill_rows stride w y n buf = Some b" "j < k" "r * k + j < length buf"
  shows "b ! (r * k + j) = (if y \<le> r \<and> r < y + n \<and> j < unat w then 0x00FF00FF else buf ! (r * k + j))"
  using assms(4-6,8)
proof (induction n arbitrary: y buf)
  case (Suc n)
  have "y * (4 * k) \<le> (y + Suc n) * (4 * k)" by (rule mult_le_mono1) simp
  with Suc.prems(1) have "y * (4 * k) < 2 ^ 32" by (rule le_less_trans [rotated])
  moreover have "y * 1 \<le> y * (4 * k)" using assms(3) by (intro mult_le_mono2) simp
  ultimately have "y * (4 * k) < 2 ^ 32" "y < 2 ^ 32" by linarith+
  then have off: "unat (of_nat y * stride) div 4 = y * k"
    by (simp add: unat_word_ariths unat_of_nat_small assms(1) mult.left_commute)
  obtain b1 where b1: "write_bytes buf (y * k) (replicate (unat w) 0xFF00FF) = Some b1"
      "fill_rows stride w (Suc y) n b1 = Some b"
    using Suc.prems(3) off by (auto split: option.splits)
  have len: "length b1 = length buf" by (rule write_bytes_length [OF b1(1)])
  have "b ! (r * k + j) = (if Suc y \<le> r \<and> r < Suc y + n \<and> j < unat w then 0x00FF00FF else b1 ! (r * k + j))"
    using Suc.IH [of "Suc y" b1] Suc.prems b1(2) len by simp
  moreover have "(y * k \<le> r * k + j \<and> r * k + j < y * k + unat w) \<longleftrightarrow> r = y \<and> j < unat w"
  proof
    assume a: "y * k \<le> r * k + j \<and> r * k + j < y * k + unat w"
    then have "r * k + j < Suc y * k" using assms(2) by simp
    then have "r * k < Suc y * k" by linarith
    then have "r < Suc y" using assms(3) by (simp only: mult_less_cancel2)
    moreover have "y * k < Suc r * k" using a assms(7) by simp
    then have "y < Suc r" using assms(3) by (simp only: mult_less_cancel2)
    ultimately have "r = y" by simp
    then show "r = y \<and> j < unat w" using a by simp
  qed simp
  ultimately show ?case using write_bytes_nth [OF b1(1) Suc.prems(4)] assms(7) by auto
qed auto


section \<open>One photo\<close>

text \<open>The pixel the decoded photo gives in column \<open>x\<close> of row \<open>y\<close> of the screen, black outside the picture.\<close>

definition photo_px :: "(real \<Rightarrow> real) \<Rightarrow> slideshow \<Rightarrow> jpeg_image \<Rightarrow> nat \<Rightarrow> nat \<Rightarrow> u32 option" where
  "photo_px rnd s i y x =
     (let fw = fb_width (fbi s); fh = fb_height (fbi s); w = img_width i; h = img_height i;
          W = picture_w rnd fw fh w h (rot s); H = picture_h rnd fw fh w h (rot s);
          ox = (unat fw - W) div 2; oy = (unat fh - H) div 2
      in if in_picture ox W x \<and> in_picture oy H y
         then sample_px rnd (img_pixels i) w h (rot s) INTERP_BILINEAR (picture_scale rnd fw fh w h (rot s)) (x - ox) (y - oy)
         else Some 0)"

text \<open>The screen of a slideshow: both buffers have the size their users count on.\<close>

definition screen_ok :: "slideshow \<Rightarrow> screen \<Rightarrow> bool" where
  "screen_ok s scr \<longleftrightarrow>
     fb_ok (compose_buf scr) (fb_width (fbi s)) (fb_height (fbi s)) (fb_stride (fbi s)) \<and>
     unat (compose_buf_size s) = unat (fb_height (fbi s)) * unat (fb_stride (fbi s)) \<and>
     fb_bytes (compose_buf scr) = unat (compose_buf_size s) \<and>
     unat (compose_buf_size s) \<le> fb_bytes (shown scr)"

definition screen_px :: "slideshow \<Rightarrow> screen \<Rightarrow> nat \<Rightarrow> nat \<Rightarrow> u32" where
  "screen_px s scr y x = fb_px (shown scr) (px_off (unat (fb_stride (fbi s))) y x)"

definition on_screen :: "slideshow \<Rightarrow> nat \<Rightarrow> nat \<Rightarrow> bool" where
  "on_screen s y x \<longleftrightarrow> y < unat (fb_height (fbi s)) \<and> x < unat (fb_width (fbi s))"

lemma draw_photo_result:
  assumes "float_rounding rnd" "image_ok (img_pixels i) (img_width i) (img_height i)"
    and "fb_ok b (fb_width (fbi s)) (fb_height (fbi s)) (fb_stride (fbi s))"
  shows "\<exists>b'. draw_photo rnd s i b = Some b' \<and> fb_bytes b' = fb_bytes b \<and>
     (\<forall>y x. on_screen s y x \<longrightarrow> photo_px rnd s i y x = Some (fb_px b' (px_off (unat (fb_stride (fbi s))) y x)))"
  using img_render_result [OF assms, of "rot s" INTERP_BILINEAR]
  unfolding draw_photo_def photo_px_def on_screen_def Let_def by (auto split: if_splits)

lemma fb_ok_px:
  assumes "fb_ok b (fb_width (fbi s)) (fb_height (fbi s)) (fb_stride (fbi s))" "on_screen s y x"
  shows "px_off (unat (fb_stride (fbi s))) y x + 4 \<le> unat (fb_height (fbi s)) * unat (fb_stride (fbi s))"
    and "4 dvd px_off (unat (fb_stride (fbi s))) y x"
proof -
  let ?st = "unat (fb_stride (fbi s))"
  have "Suc y * ?st \<le> unat (fb_height (fbi s)) * ?st" using assms(2) by (intro mult_le_mono1) (simp add: on_screen_def)
  moreover have "4 * unat (fb_width (fbi s)) \<le> ?st" "4 dvd ?st" using assms(1) by (auto simp: fb_ok_def)
  ultimately show "px_off ?st y x + 4 \<le> unat (fb_height (fbi s)) * ?st" "4 dvd px_off ?st y x"
    using assms(2) by (auto simp: px_off_def on_screen_def)
qed

lemma fb_ok_bytes: "fb_ok b w h st \<Longrightarrow> fb_bytes b' = fb_bytes b \<Longrightarrow> fb_ok b' w h st"
  by (simp add: fb_ok_def)

text \<open>The overlay writes the box and nothing else.\<close>

definition announces :: "overlay_env \<Rightarrow> ambience_ctx \<Rightarrow> bool" where
  "announces env c \<longleftrightarrow> announcement_pending c \<and> surface_usable env"

text \<open>What a pending announcement must be for the layout to stay inside it.\<close>

definition can_announce :: "overlay_env \<Rightarrow> ambience_ctx \<Rightarrow> bool" where
  "can_announce env c \<longleftrightarrow>
     (announces env c \<longrightarrow> (\<exists>msg. announcement c = Some msg \<and> tail_fits (overlay_font env) (c_string msg)))"

definition paints_in_place :: "overlay_env \<Rightarrow> bool" where
  "paints_in_place env \<longleftrightarrow> (\<forall>lines ws. length (paint_text env lines ws) = length ws)"

lemma draw_announcement_result:
  assumes "can_announce env c" "paints_in_place env" "announcement_pending c"
  shows "\<exists>b. draw_announcement env (announcement c) buf = Some b \<and> length b = length buf \<and>
     (\<not> announces env c \<longrightarrow> b = buf)"
proof (cases "surface_usable env")
  case True
  then obtain msg where m: "announcement c = Some msg" "tail_fits (overlay_font env) (c_string msg)"
    using assms(1,3) by (auto simp: can_announce_def announces_def)
  from cairo_render_text_returns [OF m(2), of 1] obtain ls where
    "cairo_render_text (overlay_font env) msg 1 = Some (Inr (drawn_lines (overlay_font env) 1 ls))" by blast
  then show ?thesis
    using True m assms(2,3) by (simp add: draw_announcement_def paints_in_place_def announces_def)
qed (simp add: draw_announcement_def)

lemma on_overlay_result:
  assumes fbok: "fb_ok b w h st" and n: "fb_bytes b = unat h * unat st"
    and drw: "can_announce env c" "paints_in_place env"
  shows "\<exists>ws c'. on_overlay c (frame_words b) w h st env = Some (ws, c') \<and>
     c' = c\<lparr>announcement_pending := False\<rparr> \<and>
     (\<not> announces env c \<longrightarrow> (\<forall>y<unat h. \<forall>x<unat w.
        fb_px (words_frame b ws) (px_off (unat st) y x) = overlay_px y x (fb_px b (px_off (unat st) y x))))"
proof -
  obtain k where k: "unat st = 4 * k" using fbok by (auto simp: fb_ok_def)
  define w1 h1 :: u32 where "w1 = (if 100 < w then 100 else w)" and "h1 = (if 100 < h then 100 else h)"
  have w1: "unat w1 = min 100 (unat w)" "unat h1 = min 100 (unat h)"
    by (auto simp: w1_def h1_def min_def word_less_nat_alt)
  have wk: "unat w \<le> k" "0 < k" "0 < unat w" using fbok k by (auto simp: fb_ok_def)
  have len: "length (frame_words b) = unat h * k" using n k by (simp add: frame_words_def)
  have "unat h1 * (4 * k) \<le> unat h * (4 * k)" by (intro mult_le_mono1) (simp add: w1)
  moreover have "unat h * (4 * k) < 2 ^ 32" using fbok k by (simp add: fb_ok_def)
  ultimately have fit: "(0 + unat h1) * (4 * k) < 2 ^ 32" unfolding add_0 by (rule le_less_trans)
  obtain buf where buf: "(if announcement_pending c
        then map_option (\<lambda>b. (b, c\<lparr>announcement_pending := False\<rparr>)) (draw_announcement env (announcement c) (frame_words b))
        else Some (frame_words b, c)) = Some (buf, c\<lparr>announcement_pending := False\<rparr>)"
      "length buf = length (frame_words b)" "\<not> announces env c \<Longrightarrow> buf = frame_words b"
  proof (cases "announcement_pending c")
    case True
    then show ?thesis using draw_announcement_result [OF drw True, of "frame_words b"] that by auto
  next
    case False
    then have "c\<lparr>announcement_pending := False\<rparr> = c" by simp
    with False show ?thesis by (intro that [of "frame_words b"]) simp_all
  qed
  have blen: "length buf = unat h * k" using len buf(2) by simp
  have rows: "(0 + unat h1) * k \<le> length buf" unfolding blen by (simp add: w1)
  have wle: "unat w1 \<le> k" using wk w1 by simp
  obtain ws where ws: "fill_rows st w1 0 (unat h1) buf = Some ws" "length ws = length buf"
    using fill_rows_fits [OF k wle fit rows] by auto
  have ov: "on_overlay c (frame_words b) w h st env = Some (ws, c\<lparr>announcement_pending := False\<rparr>)"
    unfolding on_overlay_def buf(1) using ws(1) by (simp add: Let_def w1_def h1_def)
  have "fb_px (words_frame b ws) (px_off (unat st) y x) = overlay_px y x (fb_px b (px_off (unat st) y x))"
    if "\<not> announces env c" "y < unat h" "x < unat w" for y x
  proof -
    have off: "px_off (unat st) y x = 4 * (y * k + x)" by (simp add: px_off_def k algebra_simps)
    have "Suc y * k \<le> unat h * k" using that(2) by (intro mult_le_mono1) simp
    then have lt: "y * k + x < length buf" using that(3) wk(1) by (simp add: blen)
    have "ws ! (y * k + x) = (if 0 \<le> y \<and> y < 0 + unat h1 \<and> x < unat w1 then 0xFF00FF else buf ! (y * k + x))"
      by (rule fill_rows_nth [OF k wle wk(2) fit rows ws(1) _ lt]) (use that(3) wk(1) in simp)
    moreover have "buf ! (y * k + x) = fb_px b (4 * (y * k + x))"
      using buf(3) [OF that(1)] lt len blen n k by (simp add: frame_words_def)
    ultimately show ?thesis
      using that(2,3) w1 lt ws(2) by (simp add: words_frame_def off overlay_px_def)
  qed
  with ov show ?thesis by blast
qed


text \<open>A photo shown: the announcement is taken down, the box is in the corner, the rest is the photo.\<close>

definition photo_shown :: "(real \<Rightarrow> real) \<Rightarrow> slideshow \<Rightarrow> jpeg_image \<Rightarrow> bool \<Rightarrow> screen \<Rightarrow> bool" where
  "photo_shown rnd s i boxed scr \<longleftrightarrow>
     (\<forall>y x. on_screen s y x \<longrightarrow>
        map_option (\<lambda>v. if boxed then overlay_px y x v else v) (photo_px rnd s i y x) = Some (screen_px s scr y x))"

lemma copy_frame_px:
  assumes "screen_ok s scr" "fb_bytes b = fb_bytes (compose_buf scr)"
  shows "\<exists>m. copy_frame (unat (compose_buf_size s)) b (shown scr) = Some m \<and> fb_bytes m = fb_bytes (shown scr) \<and>
     screen_ok s \<lparr>compose_buf = b, shown = m\<rparr> \<and>
     (\<forall>off. unat (compose_buf_size s) \<le> off \<longrightarrow> fb_px m off = fb_px (shown scr) off) \<and>
     (\<forall>y x. on_screen s y x \<longrightarrow> screen_px s \<lparr>compose_buf = b, shown = m\<rparr> y x
        = fb_px b (px_off (unat (fb_stride (fbi s))) y x))"
  using assms fb_ok_px [of "compose_buf scr" s]
  by (auto simp: copy_frame_def screen_ok_def screen_px_def fb_ok_def)

lemma paint_photo_result:
  assumes "float_rounding rnd" "image_ok (img_pixels i) (img_width i) (img_height i)" "screen_ok s scr"
    and "can_announce draw c" "paints_in_place draw"
  shows "\<exists>c' scr'. paint_photo rnd s draw i (c, scr) = Some (c', scr') \<and>
     c' = c\<lparr>announcement_pending := False\<rparr> \<and> screen_ok s scr' \<and> fb_bytes (shown scr') = fb_bytes (shown scr) \<and>
     (\<forall>off. unat (compose_buf_size s) \<le> off \<longrightarrow> fb_px (shown scr') off = fb_px (shown scr) off) \<and>
     (\<not> announces draw c \<longrightarrow> photo_shown rnd s i True scr')"
proof -
  have ok: "fb_ok (compose_buf scr) (fb_width (fbi s)) (fb_height (fbi s)) (fb_stride (fbi s))"
    using assms(3) by (simp add: screen_ok_def)
  obtain b1 where b1: "draw_photo rnd s i (compose_buf scr) = Some b1" "fb_bytes b1 = fb_bytes (compose_buf scr)"
      "\<forall>y x. on_screen s y x \<longrightarrow> photo_px rnd s i y x = Some (fb_px b1 (px_off (unat (fb_stride (fbi s))) y x))"
    using draw_photo_result [OF assms(1,2) ok] by auto
  have n: "fb_bytes b1 = unat (fb_height (fbi s)) * unat (fb_stride (fbi s))"
    using assms(3) b1(2) by (simp add: screen_ok_def)
  obtain ws c' where o: "on_overlay c (frame_words b1) (fb_width (fbi s)) (fb_height (fbi s)) (fb_stride (fbi s)) draw
        = Some (ws, c')" "c' = c\<lparr>announcement_pending := False\<rparr>"
      "\<not> announces draw c \<Longrightarrow> \<forall>y x. on_screen s y x \<longrightarrow>
         fb_px (words_frame b1 ws) (px_off (unat (fb_stride (fbi s))) y x)
           = overlay_px y x (fb_px b1 (px_off (unat (fb_stride (fbi s))) y x))"
    using on_overlay_result [OF fb_ok_bytes [OF ok b1(2)] n assms(4,5)] unfolding on_screen_def by blast
  have "fb_bytes (words_frame b1 ws) = fb_bytes (compose_buf scr)" using b1(2) by (simp add: words_frame_def)
  note cp = copy_frame_px [OF assms(3) this]
  then show ?thesis
    using b1 o by (auto simp: paint_photo_def photo_shown_def)
qed

lemma paint_fallback_result:
  assumes "float_rounding rnd" "image_ok (img_pixels i) (img_width i) (img_height i)" "screen_ok s scr"
  shows "\<exists>scr'. paint_fallback rnd s i (c, scr) = Some (c, scr') \<and> screen_ok s scr' \<and>
     fb_bytes (shown scr') = fb_bytes (shown scr) \<and>
     (\<forall>off. unat (compose_buf_size s) \<le> off \<longrightarrow> fb_px (shown scr') off = fb_px (shown scr) off) \<and>
     photo_shown rnd s i False scr'"
proof -
  have ok: "fb_ok (compose_buf scr) (fb_width (fbi s)) (fb_height (fbi s)) (fb_stride (fbi s))"
    using assms(3) by (simp add: screen_ok_def)
  obtain b1 where b1: "draw_photo rnd s i (compose_buf scr) = Some b1" "fb_bytes b1 = fb_bytes (compose_buf scr)"
      "\<forall>y x. on_screen s y x \<longrightarrow> photo_px rnd s i y x = Some (fb_px b1 (px_off (unat (fb_stride (fbi s))) y x))"
    using draw_photo_result [OF assms(1,2) ok] by auto
  show ?thesis
    using b1 copy_frame_px [OF assms(3) b1(2)] by (auto simp: paint_fallback_def photo_shown_def)
qed


section \<open>A round of the worker\<close>

fun is_show :: "effect \<Rightarrow> bool" where
  "is_show (Show_Photo i) = True"
| "is_show (Show_Fallback path i) = True"
| "is_show _ = False"

lemma fold_paint_shows: "fold_opt (paint rnd s draw) effs cs = fold_opt (paint rnd s draw) (filter is_show effs) cs"
proof (induction effs arbitrary: cs)
  case (Cons e es)
  then show ?case by (cases e) (auto split: option.split)
qed simp

definition good_image :: "jpeg_image \<Rightarrow> bool" where
  "good_image i \<longleftrightarrow> image_ok (img_pixels i) (img_width i) (img_height i)"

lemma decoded_good:
  assumes "jpeg_env_ok env" "target_ok tw" "target_ok th" "jpeg_load_file env f tw th = Some (Some i, cl)"
  shows "good_image i"
  using jpeg_load_file_image [OF assms] by (auto simp: good_image_def image_ok_def)

lemma no_show_close [simp]: "filter is_show (map Close fs) = []"
  by (induction fs) simp_all

lemma no_show_meta [simp]: "filter is_show (render_meta s meta) = []"
  by (simp add: render_meta_def)

lemma render_fallback_shows:
  assumes "jpeg_env_ok jenv" "target_ok (fb_width (fbi s))" "target_ok (fb_height (fbi s))"
  shows "\<exists>effs. render_fallback s jenv opened = Some effs \<and>
     (filter is_show effs = [] \<or> (\<exists>p i. good_image i \<and> filter is_show effs = [Show_Fallback p i]))"
proof (cases "fallback_image s = None \<or> opened = None")
  case True
  then show ?thesis by (auto simp: render_fallback_def jpeg_load_def split: option.splits)
next
  case False
  then obtain p g where pg: "fallback_image s = Some p" "opened = Some g" by auto
  obtain img where l: "jpeg_load_file jenv g (fb_width (fbi s)) (fb_height (fbi s)) = Some (img, [g])"
    using jpeg_load_file_fits [OF assms refl, of g] by blast
  show ?thesis
  proof (cases img)
    case None
    then show ?thesis using l pg by (simp add: render_fallback_def jpeg_load_def)
  next
    case (Some i)
    with decoded_good [OF assms] l have "good_image i" by blast
    then show ?thesis using l pg Some by (simp add: render_fallback_def jpeg_load_def)
  qed
qed

lemma render_fd_shows:
  assumes "jpeg_env_ok jenv" "target_ok (fb_width (fbi s))" "target_ok (fb_height (fbi s))"
  shows "\<exists>ok effs. render_fd s jenv fdopen_ok f = Some (ok, effs) \<and>
     (if ok then \<exists>i. good_image i \<and> filter is_show effs = [Show_Photo i] else filter is_show effs = [])"
proof (cases fdopen_ok)
  case True
  obtain img where l: "jpeg_load_file jenv f (fb_width (fbi s)) (fb_height (fbi s)) = Some (img, [f])"
    using jpeg_load_file_fits [OF assms refl, of f] by blast
  show ?thesis
  proof (cases img)
    case None
    then show ?thesis using l True by (intro exI [of _ False]) (simp add: render_fd_def jpeg_load_fd_def)
  next
    case (Some i)
    with decoded_good [OF assms] l have "good_image i" by blast
    then show ?thesis using l True Some by (intro exI [of _ True]) (simp add: render_fd_def jpeg_load_fd_def)
  qed
qed (intro exI [of _ False], simp add: render_fd_def jpeg_load_fd_def)

lemma worker_round_shows:
  assumes "jpeg_env_ok (photo_jpeg env)" "jpeg_env_ok (fallback_jpeg env)"
    and "target_ok (fb_width (fbi s))" "target_ok (fb_height (fbi s))"
  shows "\<exists>effs s'. worker_round env s = Some (effs, s') \<and> s' = s\<lparr>worker_bus := worker_bus s'\<rparr> \<and>
     (filter is_show effs = [] \<or> (\<exists>i. good_image i \<and> filter is_show effs = [Show_Photo i]) \<or>
      (\<exists>p i. good_image i \<and> filter is_show effs = [Show_Fallback p i]))"
proof -
  obtain res closes s1 where f: "fetch_one (fetching env) s = (res, closes, s1)" by (metis prod_cases3)
  have s1: "s1 = s\<lparr>worker_bus := worker_bus s1\<rparr>" by (rule fetch_one_frame [OF f])
  then have "fbi s1 = fbi (s\<lparr>worker_bus := worker_bus s1\<rparr>)" by metis
  then have fb: "fbi s1 = fbi s" by simp
  obtain fe where fe: "render_fallback s1 (fallback_jpeg env) (fallback_opened env) = Some fe"
      "filter is_show fe = [] \<or> (\<exists>p i. good_image i \<and> filter is_show fe = [Show_Fallback p i])"
    using render_fallback_shows [of "fallback_jpeg env" s1 "fallback_opened env"] assms fb by auto
  show ?thesis
  proof (cases res)
    case None
    then show ?thesis using f fe s1 by (auto simp: worker_round_def)
  next
    case (Some fm)
    obtain d meta where d: "res = Some (d, meta)" using Some by (cases fm) simp
    obtain ok effs where r: "render_fd s1 (photo_jpeg env) (photo_fdopen_ok env) d = Some (ok, effs)"
        "if ok then \<exists>i. good_image i \<and> filter is_show effs = [Show_Photo i] else filter is_show effs = []"
      using render_fd_shows [of "photo_jpeg env" s1 "photo_fdopen_ok env" d] assms fb by auto
    then show ?thesis using f d fe s1 by (auto simp: worker_round_def)
  qed
qed

lemma painted_same:
  assumes "fbi s' = fbi s" "rot s' = rot s" "compose_buf_size s' = compose_buf_size s"
  shows "screen_ok s' scr = screen_ok s scr" "photo_shown rnd s' i b scr = photo_shown rnd s i b scr"
  unfolding screen_ok_def photo_shown_def photo_px_def screen_px_def on_screen_def assms by simp_all

lemma screen_round_result:
  assumes "float_rounding rnd" "can_announce draw c" "paints_in_place draw" "screen_ok s scr"
    and "jpeg_env_ok (photo_jpeg env)" "jpeg_env_ok (fallback_jpeg env)"
    and "target_ok (fb_width (fbi s))" "target_ok (fb_height (fbi s))"
  shows "\<exists>effs s' c' scr'. screen_round rnd draw env s (c, scr) = Some (effs, s', c', scr') \<and>
     screen_ok s scr' \<and> fb_bytes (shown scr') = fb_bytes (shown scr) \<and>
     (\<forall>off. unat (compose_buf_size s) \<le> off \<longrightarrow> fb_px (shown scr') off = fb_px (shown scr) off) \<and>
     (\<forall>i. Show_Photo i \<in> set effs \<longrightarrow>
        \<not> announcement_pending c' \<and> (\<not> announces draw c \<longrightarrow> photo_shown rnd s i True scr')) \<and>
     (\<forall>p i. Show_Fallback p i \<in> set effs \<longrightarrow> c' = c \<and> photo_shown rnd s i False scr') \<and>
     (filter is_show effs = [] \<longrightarrow> c' = c \<and> scr' = scr)"
proof -
  obtain effs s' where w: "worker_round env s = Some (effs, s')" "s' = s\<lparr>worker_bus := worker_bus s'\<rparr>"
      "filter is_show effs = [] \<or> (\<exists>i. good_image i \<and> filter is_show effs = [Show_Photo i]) \<or>
       (\<exists>p i. good_image i \<and> filter is_show effs = [Show_Fallback p i])"
    using worker_round_shows [OF assms(5-8)] by blast
  define t where "t = s\<lparr>worker_bus := worker_bus s'\<rparr>"
  have s't: "s' = t" using w(2) by (simp add: t_def)
  have same: "fbi t = fbi s" "rot t = rot s" "compose_buf_size t = compose_buf_size s" by (simp_all add: t_def)
  note eq = painted_same [OF same]
  have okt: "screen_ok t scr" using assms(4) by (simp add: eq)
  have mem: "e \<in> set effs \<longleftrightarrow> e \<in> set (filter is_show effs)" if "is_show e" for e using that by auto
  have run: "screen_round rnd draw env s (c, scr) =
      (case fold_opt (paint rnd t draw) (filter is_show effs) (c, scr) of
         None \<Rightarrow> None | Some (c', scr') \<Rightarrow> Some (effs, t, c', scr'))"
    using w(1) s't by (simp add: screen_round_def fold_paint_shows [of rnd t draw effs] split: option.split)
  consider "filter is_show effs = []" | i where "good_image i" "filter is_show effs = [Show_Photo i]"
    | p i where "good_image i" "filter is_show effs = [Show_Fallback p i]" using w(3) by blast
  then show ?thesis
  proof cases
    case 1
    then show ?thesis using run assms(4) mem [of "Show_Photo _"] mem [of "Show_Fallback _ _"] by auto
  next
    case 2
    obtain c' scr' where q: "paint_photo rnd t draw i (c, scr) = Some (c', scr')"
       "c' = c\<lparr>announcement_pending := False\<rparr>" "screen_ok t scr'" "fb_bytes (shown scr') = fb_bytes (shown scr)"
       "\<forall>off. unat (compose_buf_size t) \<le> off \<longrightarrow> fb_px (shown scr') off = fb_px (shown scr) off"
       "\<not> announces draw c \<longrightarrow> photo_shown rnd t i True scr'"
      using paint_photo_result [OF assms(1) 2(1) [unfolded good_image_def] okt assms(2,3)] by blast
    show ?thesis
      using run 2 q mem [of "Show_Photo _"] mem [of "Show_Fallback _ _"] by (simp add: eq same)
  next
    case 3
    obtain scr' where q: "paint_fallback rnd t i (c, scr) = Some (c, scr')"
       "screen_ok t scr'" "fb_bytes (shown scr') = fb_bytes (shown scr)"
       "\<forall>off. unat (compose_buf_size t) \<le> off \<longrightarrow> fb_px (shown scr') off = fb_px (shown scr) off"
       "photo_shown rnd t i False scr'"
      using paint_fallback_result [OF assms(1) 3(1) [unfolded good_image_def] okt, of c] by blast
    show ?thesis
      using run 3 q mem [of "Show_Photo _"] mem [of "Show_Fallback _ _"] by (simp add: eq same)
  qed
qed


section \<open>From the graphics device to the pixels\<close>

text \<open>
  The rounds of the worker; each has the announcement state its callback finds, which the D-Bus
  thread may have changed since the round before.
\<close>

fun screen_run ::
  "(real \<Rightarrow> real) \<Rightarrow> overlay_env \<Rightarrow> (round_env \<times> ambience_ctx) list \<Rightarrow> slideshow \<Rightarrow> screen \<Rightarrow> (slideshow \<times> screen) option" where
  "screen_run rnd draw [] s scr = Some (s, scr)"
| "screen_run rnd draw ((env, c) # rounds) s scr =
     (case screen_round rnd draw env s (c, scr) of
        None \<Rightarrow> None
      | Some (_, s', _, scr') \<Rightarrow> screen_run rnd draw rounds s' scr')"

text \<open>What the kernel promises of a dumb buffer of 32 bits per pixel.\<close>

definition dumb_buffer_ok :: "u32 \<Rightarrow> u32 \<Rightarrow> fb_env \<Rightarrow> bool" where
  "dumb_buffer_ok w h env \<longleftrightarrow>
     (\<forall>handle pitch sz. create_dumb env = Some (handle, pitch, sz) \<longrightarrow>
        4 * unat w \<le> unat pitch \<and> 4 dvd unat pitch \<and> unat h * unat pitch \<le> unat sz)"

definition decoders_ok :: "round_env \<Rightarrow> bool" where
  "decoders_ok env \<longleftrightarrow> jpeg_env_ok (photo_jpeg env) \<and> jpeg_env_ok (fallback_jpeg env)"

lemma created_buffer:
  assumes "drm_create_framebuffer accepts fenv st k = (0, dev, k')"
    and "dumb_buffer_ok (info_width (info dev)) (info_height (info dev)) fenv"
  shows "4 * unat (info_width (info dev)) \<le> unat (info_stride (info dev)) \<and> 4 dvd unat (info_stride (info dev)) \<and>
     unat (info_height (info dev)) * unat (info_stride (info dev)) \<le> unat (info_size (info dev))"
  using assms by (auto simp: drm_create_framebuffer_def dumb_buffer_ok_def Let_def split: option.splits if_splits list.splits)

lemma slideshow_init_fields:
  assumes "slideshow_init i secs deg qr use_eink fallback senv = Some (Some s, ieffs, calls)"
  shows "fbi s = i \<and> compose_buf_size s = fb_height i * fb_stride i"
  using assms by (auto simp: slideshow_init_def Let_def split: if_splits option.splits bind_splits)

lemma first_screen_ok:
  assumes "drm_create_framebuffer accepts fenv st k = (0, dev, k')"
    and "dumb_buffer_ok (info_width (info dev)) (info_height (info dev)) fenv"
    and "target_ok (info_width (info dev))" "target_ok (info_height (info dev))"
    and "slideshow_init (fb_info_of (info dev)) secs deg qr use_eink fallback senv = Some (Some s, ieffs, calls)"
    and "fb_bytes (compose_buf scr) = unat (compose_buf_size s)" "fb_bytes (shown scr) = unat (info_size (info dev))"
  shows "screen_ok s scr" "target_ok (fb_width (fbi s))" "target_ok (fb_height (fbi s))"
proof -
  note i = slideshow_init_fields [OF assms(5)]
  note b = created_buffer [OF assms(1,2)]
  have lt: "unat (info_height (info dev)) * unat (info_stride (info dev)) < 2 ^ 32"
  proof -
    have "unat (info_size (info dev)) < 2 ^ 32" using unsigned_less [of "info_size (info dev)"] by simp
    then show ?thesis using b by (meson le_less_trans)
  qed
  have size: "unat (compose_buf_size s) = unat (info_height (info dev)) * unat (info_stride (info dev))"
    using i unat_mult_small [OF lt] by (simp add: fb_info_of_def)
  have t: "0 < unat n \<and> unat n \<le> 2 ^ 16" if "target_ok n" for n
    using that by (auto simp: target_ok_def word_le_nat_alt word_less_nat_alt)
  show "screen_ok s scr"
    using size b lt i t [OF assms(3)] t [OF assms(4)] assms(6,7) by (simp add: screen_ok_def fb_ok_def fb_info_of_def)
  show "target_ok (fb_width (fbi s))" "target_ok (fb_height (fbi s))"
    using assms(3,4) i by (simp_all add: fb_info_of_def)
qed

lemma screen_run_ok:
  assumes "float_rounding rnd" "paints_in_place draw"
    and "\<forall>(env, c) \<in> set rounds. decoders_ok env \<and> can_announce draw c"
    and "screen_ok s scr" "target_ok (fb_width (fbi s))" "target_ok (fb_height (fbi s))"
  shows "\<exists>s' scr'. screen_run rnd draw rounds s scr = Some (s', scr') \<and> fbi s' = fbi s \<and> rot s' = rot s \<and>
     compose_buf_size s' = compose_buf_size s \<and> screen_ok s scr' \<and> fb_bytes (shown scr') = fb_bytes (shown scr)"
  using assms(3-)
proof (induction rounds arbitrary: s scr)
  case (Cons ec rounds)
  obtain env c where ec: "ec = (env, c)" by (cases ec)
  have j: "jpeg_env_ok (photo_jpeg env)" "jpeg_env_ok (fallback_jpeg env)" and ca: "can_announce draw c"
    using Cons.prems(1) ec by (auto simp: decoders_ok_def)
  obtain effs s1 c1 scr1 where r: "screen_round rnd draw env s (c, scr) = Some (effs, s1, c1, scr1)"
      "screen_ok s scr1" "fb_bytes (shown scr1) = fb_bytes (shown scr)"
    using screen_round_result [OF assms(1) ca assms(2) Cons.prems(2) j Cons.prems(3,4)] by blast
  have "\<exists>b. s1 = s\<lparr>worker_bus := b\<rparr>"
    using r(1) worker_round_frame by (fastforce simp: screen_round_def split: bind_splits)
  then obtain t where t: "fbi t = fbi s" "rot t = rot s" "compose_buf_size t = compose_buf_size s" "s1 = t" by force
  have "\<forall>(env, c) \<in> set rounds. decoders_ok env \<and> can_announce draw c" using Cons.prems(1) by simp
  moreover have "screen_ok t scr1" using r(2) painted_same(1) [OF t(1-3)] by simp
  ultimately obtain s' scr' where "screen_run rnd draw rounds t scr1 = Some (s', scr')" "fbi s' = fbi t" "rot s' = rot t"
      "compose_buf_size s' = compose_buf_size t" "screen_ok t scr'" "fb_bytes (shown scr') = fb_bytes (shown scr1)"
    using Cons.IH [of t scr1] Cons.prems(3,4) t by auto
  with r t ec show ?case using painted_same(1) [OF t(1-3)] by simp
qed simp

text \<open>
  C34. A photo reaches the screen, from the graphics device to the pixels. With the buffer the
  display manager created mapped by the ambience service, the decoder keeping libjpeg's
  contract, and any announcement that is drawn being one the text layout can break (every end
  of it without an inner blank fits the width), no round of the slideshow accesses memory outside
  the photo, the composed picture, the announcement or the mapping, whatever happened in the rounds
  before; a round that shows a photo without drawing an announcement over it leaves every
  visible pixel of the mapping at the photo's sample (or black beside it) under the overlay's box,
  a round that falls back shows the fallback image, a round that does neither leaves the screen
  as it was, and memory behind the visible rows is never written.
\<close>

theorem photo_reaches_screen:
  assumes "drm_create_framebuffer accepts fenv st k = (0, dev, k')"
    and "dumb_buffer_ok (info_width (info dev)) (info_height (info dev)) fenv"
    and "target_ok (info_width (info dev))" "target_ok (info_height (info dev))"
    and "slideshow_init (fb_info_of (info dev)) secs deg qr use_eink fallback senv = Some (Some s, ieffs, calls)"
    and "fb_bytes (compose_buf scr) = unat (compose_buf_size s)" "fb_bytes (shown scr) = unat (info_size (info dev))"
    and "float_rounding rnd" "paints_in_place draw"
    and "\<forall>(env, c) \<in> set rounds. decoders_ok env \<and> can_announce draw c" "decoders_ok env" "can_announce draw c"
  shows "\<exists>s1 scr1 effs s2 c2 scr2. screen_run rnd draw rounds s scr = Some (s1, scr1) \<and>
     screen_round rnd draw env s1 (c, scr1) = Some (effs, s2, c2, scr2) \<and>
     (\<forall>i. Show_Photo i \<in> set effs \<and> \<not> announces draw c \<longrightarrow> photo_shown rnd s i True scr2) \<and>
     (\<forall>p i. Show_Fallback p i \<in> set effs \<longrightarrow> photo_shown rnd s i False scr2) \<and>
     (filter is_show effs = [] \<longrightarrow> scr2 = scr1) \<and>
     (\<forall>off. unat (compose_buf_size s) \<le> off \<longrightarrow> fb_px (shown scr2) off = fb_px (shown scr1) off)"
proof -
  note first = first_screen_ok [OF assms(1-7)]
  obtain s1 scr1 where run: "screen_run rnd draw rounds s scr = Some (s1, scr1)" "fbi s1 = fbi s" "rot s1 = rot s"
      "compose_buf_size s1 = compose_buf_size s" "screen_ok s scr1"
    using screen_run_ok [OF assms(8-10) first] by blast
  note same = painted_same [OF run(2-4)]
  have "screen_ok s1 scr1" "target_ok (fb_width (fbi s1))" "target_ok (fb_height (fbi s1))"
    using run first same by simp_all
  with screen_round_result [OF assms(8,12,9), of s1 scr1 env] assms(11) run same show ?thesis
    by (auto simp: decoders_ok_def)
qed


text \<open>An overlay over a surface 1024 wide, with an announcement that fits.\<close>

definition overlay_example :: overlay_env where
  "overlay_example = \<lparr>surface_usable = True, overlay_font = mono_font 1024, paint_text = (\<lambda>_ ws. ws)\<rparr>"

definition announcing :: ambience_ctx where
  "announcing = ambience_start\<lparr>announcement_pending := True, announcement := Some ''hi''\<rparr>"

theorem photo_reaches_screen_witness:
  "(\<exists>effs s2 c2 scr2.
     screen_round (\<lambda>x. x) overlay_example round_example slides_example
       (ambience_start, \<lparr>compose_buf = \<lparr>fb_bytes = 2457600, fb_px = (\<lambda>_. 9)\<rparr>,
                         shown = \<lparr>fb_bytes = 2457600, fb_px = (\<lambda>_. 7)\<rparr>\<rparr>) = Some (effs, s2, c2, scr2) \<and>
     (\<forall>i. Show_Photo i \<in> set effs \<longrightarrow> photo_shown (\<lambda>x. x) slides_example i True scr2))
   \<and> screen_round (\<lambda>x. x) overlay_example round_example slides_example
       (announcing, \<lparr>compose_buf = \<lparr>fb_bytes = 2457600, fb_px = (\<lambda>_. 9)\<rparr>,
                     shown = \<lparr>fb_bytes = 2457600, fb_px = (\<lambda>_. 7)\<rparr>\<rparr>) \<noteq> None"
proof -
  let ?scr = "\<lparr>compose_buf = \<lparr>fb_bytes = 2457600, fb_px = (\<lambda>_. 9)\<rparr>, shown = \<lparr>fb_bytes = 2457600, fb_px = (\<lambda>_. 7)\<rparr>\<rparr>"
  have i: "info_width (info panel_started) = 1024" "info_height (info panel_started) = 600"
      "info_size (info panel_started) = 2457600" "fb_info_of (info panel_started)
        = \<lparr>fb_width = 1024, fb_height = 600, fb_stride = 4096, fb_format = 0x34325258, fb_size = 2457600\<rparr>"
    by (simp_all add: panel_started_def fb_info_of_def DRM_FORMAT_XRGB8888_def)
  have dumb: "dumb_buffer_ok (info_width (info panel_started)) (info_height (info panel_started)) panel_fb_env"
    by (simp add: dumb_buffer_ok_def panel_fb_env_def i)
  have t: "target_ok (info_width (info panel_started))" "target_ok (info_height (info panel_started))"
    by (simp_all add: target_ok_def i)
  have "fb_bytes (compose_buf ?scr) = unat (compose_buf_size slides_example)"
      "fb_bytes (shown ?scr) = unat (info_size (info panel_started))"
    by (simp_all add: slides_example_def i)
  note start = photo_reaches_screen [OF panel_create dumb t slides_example_init [folded i(4)] this exact_rounding]
  have j: "decoders_ok round_example" using jpeg_example_ok by (simp add: decoders_ok_def round_example_def)
  have "tail_fits (overlay_font overlay_example) ''hi''"
    by (auto simp: tail_fits_def overlay_example_def mono_font_def fits_def line_of_def max_width_def MARGIN_def)
  then have ca: "can_announce overlay_example c" if "c \<in> {ambience_start, announcing}" for c
    using that by (auto simp: can_announce_def announces_def announcing_def ambience_start_def c_string_def)
  have pip: "paints_in_place overlay_example" by (simp add: paints_in_place_def overlay_example_def)
  show ?thesis
    using start [of overlay_example "[]" round_example ambience_start] start [of overlay_example "[]" round_example announcing]
      j ca pip by (auto simp: announces_def ambience_start_def)
qed

end
