(* ===== verification/Ambience_Life.thy ===== *)
theory Ambience_Life
  imports Config_Files Ambience Eink_Meta
begin

text \<open>
  What the parts of the ambience service hold from their start to their end: the watch on a bus
  name (\<^verbatim>\<open>dbus_helpers.c\<close>), the slideshow with its buffer, thread, connection and e-ink panel
  (\<^verbatim>\<open>slideshow.c\<close>, \<^verbatim>\<open>eink_meta.c\<close>) and the display controller (\<^verbatim>\<open>display.c\<close>). The descriptors of photos
  are opened and closed within one call and are not in this log.
\<close>

section \<open>The bus daemon\<close>

text \<open>Whether a name is on the bus: the reply is kept by the code, and so is an error.\<close>

definition is_service_up_io :: "int \<Rightarrow> io list \<Rightarrow> bool \<times> io list" where
  "is_service_up_io r l =
     (if r < 0 then (False, l @ [Bus_Call ''GetNameOwner'', Acquire (Heap ''error'')])
      else (True, l @ [Bus_Call ''GetNameOwner'', Acquire (Heap ''reply'')]))"

text \<open>\<^verbatim>\<open>on_service_updown\<close>: the context is freed by the slot's destroy callback once that is set.\<close>

record watch_env =
  ctx_alloc_ok :: bool
  add_match_result :: int
  destroy_result :: int

definition on_service_updown :: "watch_env \<Rightarrow> io list \<Rightarrow> unit option \<times> io list" where
  "on_service_updown env l =
     (if \<not> ctx_alloc_ok env then (None, l)
      else
        let l1 = l @ [Acquire (Heap ''updown_ctx'')]
        in if add_match_result env < 0 then (None, l1 @ [Release (Heap ''updown_ctx'')])
           else
             let l2 = l1 @ [Acquire (Heap ''slot'')]
             in if destroy_result env < 0 then (None, l2 @ [Release (Heap ''slot''), Release (Heap ''updown_ctx'')])
                else (Some (), l2))"

definition unwatch :: "watch_env \<Rightarrow> unit option \<Rightarrow> io list \<Rightarrow> io list" where
  "unwatch env w l =
     (case w of None \<Rightarrow> l | Some _ \<Rightarrow> l @ [Release (Heap ''slot''), Release (Heap ''updown_ctx'')])"

definition watch_owned :: "unit \<Rightarrow> resource multiset" where
  "watch_owned _ = {#Heap ''updown_ctx'', Heap ''slot''#}"

lemma unwatch_ledger: "ledger l = Some (R + watch_owned u) \<Longrightarrow> ledger (unwatch env (Some u) l) = Some R"
  by (simp add: unwatch_def watch_owned_def)

interpretation name_watch: device_handle on_service_updown unwatch watch_owned "\<lambda>_. True"
proof
  fix k l R h l'
  assume "ledger l = Some R" "on_service_updown k l = (h, l')"
  then show "ledger l' = Some (R + (case h of None \<Rightarrow> {#} | Some x \<Rightarrow> watch_owned x))"
    by (auto simp: on_service_updown_def watch_owned_def Let_def ledger_append_steps simp del: ledger_snoc ledger_snoc2
        split: if_splits)
qed (use unwatch_ledger in \<open>simp_all add: unwatch_def\<close>)

section \<open>The captions\<close>

definition meta_owned :: "'s eink_meta \<Rightarrow> resource multiset" where
  "meta_owned em = display_owned (em_display em) + {#Heap ''eink_meta''#}"

lemma meta_init_ledger:
  assumes "eink_meta_init C k l = (h, l')" "lines_have_fds k" "ledger l = Some R"
  shows "ledger l' = Some (R + (case h of None \<Rightarrow> {#} | Some em \<Rightarrow> meta_owned em))"
    and "h = Some em \<Longrightarrow> panel_live (em_display em)"
proof -
  obtain got l1 where b: "take_block k ''eink_meta'' l = (got, l1)" by fastforce
  have l1: "ledger l1 = Some (if got then R + {#Heap ''eink_meta''#} else R)"
    using b assms(3) by (auto simp: take_block_def split: if_splits)
  obtain d l2 where e: "eink_init C False None k l1 = (d, l2)" by fastforce
  have l2: "ledger l2 = Some (R + {#Heap ''eink_meta''#} + (case d of None \<Rightarrow> {#} | Some x \<Rightarrow> display_owned x))" if got
    using eink_panel.acquire_owned [OF assms(2) _ e] l1 that by simp
  show "ledger l' = Some (R + (case h of None \<Rightarrow> {#} | Some em \<Rightarrow> meta_owned em))"
    using assms(1) b l1 e l2
    by (auto simp: eink_meta_init_def meta_owned_def drop_block_def Let_def split: if_splits option.splits)
  show "panel_live (em_display em)" if "h = Some em"
    using assms(1,2) b e eink_init_live that
    by (auto simp: eink_meta_init_def Let_def split: if_splits option.splits)
qed

lemma meta_clear_step:
  assumes "panel_live (em_display em)"
  shows "\<exists>em' l'. eink_meta_clear C k em l = Some (em', l') \<and> panel_live (em_display em')
     \<and> meta_owned em' = meta_owned em \<and> ledger l' = ledger l"
proof -
  obtain d l' where c: "eink_clear C k (em_display em) l = Some (d, l')" "same_panel (em_display em) d" "ledger l' = ledger l"
    using clear_step [OF assms, of C k l] by blast
  show ?thesis using c assms same_panel_live same_panel_owned
    by (intro exI [of _ "em\<lparr>em_display := d\<rparr>"] exI [of _ l']) (auto simp: eink_meta_clear_def meta_owned_def)
qed

lemma meta_render_step:
  assumes "panel_live (em_display em)" "eink_meta_render C k J em m l = Some (em', l')"
  shows "panel_live (em_display em') \<and> meta_owned em' = meta_owned em \<and> ledger l' = ledger l"
proof (cases "em' = em \<and> l' = l")
  case False
  then obtain t d where d: "eink_quick_announce C k t (em_display em) l = Some (d, l')" "em_display em' = d"
    using assms(2) by (auto simp: meta_render_caption split: option.splits if_splits)
  note a = announce_step [OF assms(1) d(1)]
  then show ?thesis using d(2) assms(1) same_panel_live same_panel_owned by (auto simp: meta_owned_def)
qed (use assms in simp)

lemma meta_free_ledger:
  assumes "panel_live (em_display em)" "ledger l = Some (R + meta_owned em)"
  shows "\<exists>l'. eink_meta_free C k (Some em) l = Some l' \<and> ledger l' = Some R"
proof -
  obtain d l1 where c: "eink_clear C k (em_display em) l = Some (d, l1)" "same_panel (em_display em) d" "ledger l1 = ledger l"
    using clear_step [OF assms(1), of C k l] by blast
  have "ledger l1 = Some (R + {#Heap ''eink_meta''#} + display_owned d)"
    using c(3) assms(2) same_panel_owned [OF c(2)] by (simp add: meta_owned_def ac_simps)
  then have "ledger (eink_delete k (Some d) l1) = Some (R + {#Heap ''eink_meta''#})" by (rule eink_panel.release_owned)
  then show ?thesis using c by (simp add: eink_meta_free_def drop_block_def)
qed

section \<open>The slideshow\<close>

record 's slide_handle =
  show_of :: slideshow
  meta_of :: "'s eink_meta option"
  watch_of :: "unit option"

record slide_env =
  memory_env :: setup_env
  dev_kernel :: kernel
  slide_watch :: watch_env
  slide_owner :: int

text \<open>The block, the off-screen buffer, the semaphore and the worker's connection, and the way back.\<close>

definition slide_memory :: "setup_env \<Rightarrow> io list \<Rightarrow> bool \<times> io list" where
  "slide_memory env l =
     (if \<not> struct_ok env then (False, l)
      else
        let l1 = l @ [Acquire (Heap ''slideshow'')]
        in if \<not> compose_ok env then (False, l1 @ [Release (Heap ''slideshow'')])
           else
             let l2 = l1 @ [Acquire (Heap ''compose_buf'')]
             in if \<not> sem_ok env then (False, l2 @ [Release (Heap ''compose_buf''), Release (Heap ''slideshow'')])
                else
                  let l3 = l2 @ [Acquire (Heap ''wake_sem'')]
                  in if \<not> bus_ok env
                     then (False, l3 @ [Release (Heap ''wake_sem''), Release (Heap ''compose_buf''), Release (Heap ''slideshow'')])
                     else (True, l3 @ [Acquire (Heap ''worker_bus'')]))"

text \<open>
  \<^verbatim>\<open>slideshow_init\<close> with what it takes; whether the panel could be opened decides the \<open>eink_ok\<close> of
  the functional model.
\<close>

definition slideshow_open ::
  "'s cairo \<Rightarrow> slide_env \<Rightarrow> fb_info \<Rightarrow> ambience_config \<Rightarrow> io list \<Rightarrow> ('s slide_handle option \<times> io list) option" where
  "slideshow_open C env info cfg l =
     (if cfg_transition_time_s cfg = 0 \<or> rotation_of (cfg_rotation cfg) = None then Some (None, l)
      else (case slide_memory (memory_env env) l of (got, l1) \<Rightarrow>
        if \<not> got then Some (None, l1)
        else (case (if cfg_use_eink cfg then eink_meta_init C (dev_kernel env) l1 else (None, l1)) of (em, l2) \<Rightarrow>
          (case slideshow_init info (cfg_transition_time_s cfg) (cfg_rotation cfg) (cfg_embed_qr cfg) (cfg_use_eink cfg)
                  (Some (cfg_fallback_image cfg)) ((memory_env env)\<lparr>eink_ok := em \<noteq> None\<rparr>) of
             None \<Rightarrow> None
           | Some (None, _, _) \<Rightarrow> None
           | Some (Some s, _, _) \<Rightarrow>
               (case on_service_updown (slide_watch env)
                       (if fallback_image s = None then l2 else l2 @ [Acquire (Heap ''fallback_image'')]) of (w, l3) \<Rightarrow>
                  Some (Some \<lparr>show_of = s, meta_of = em, watch_of = w\<rparr>, snd (is_service_up_io (slide_owner env) l3)))))))"

text \<open>Starting and stopping the worker; stopping clears the panel.\<close>

definition slideshow_start :: "bool \<Rightarrow> 's slide_handle \<Rightarrow> io list \<Rightarrow> 's slide_handle \<times> io list" where
  "slideshow_start spawned h l =
     (if worker_running (show_of h) \<or> \<not> spawned then (h, l)
      else (h\<lparr>show_of := (show_of h)\<lparr>worker_running := True\<rparr>\<rparr>, l @ [Acquire (Thread ''slides'')]))"

definition slideshow_stop ::
  "'s cairo \<Rightarrow> kernel \<Rightarrow> 's slide_handle \<Rightarrow> io list \<Rightarrow> ('s slide_handle \<times> io list) option" where
  "slideshow_stop C k h l =
     (if \<not> worker_running (show_of h) then Some (h, l)
      else
        let h1 = h\<lparr>show_of := (show_of h)\<lparr>worker_running := False, stop_requested := False, wake_sem := 0, skip_count := 0\<rparr>\<rparr>;
            l1 = l @ [Release (Thread ''slides'')]
        in case meta_of h of
             None \<Rightarrow> Some (h1, l1)
           | Some em \<Rightarrow> map_option (\<lambda>(em1, l2). (h1\<lparr>meta_of := Some em1\<rparr>, l2)) (eink_meta_clear C k em l1))"

definition slideshow_free :: "'s cairo \<Rightarrow> slide_env \<Rightarrow> 's slide_handle option \<Rightarrow> io list \<Rightarrow> io list option" where
  "slideshow_free C env hp l =
     (case hp of
        None \<Rightarrow> Some l
      | Some h \<Rightarrow>
          (case slideshow_stop C (dev_kernel env) h l of
             None \<Rightarrow> None
           | Some (h1, l1) \<Rightarrow>
               (case eink_meta_free C (dev_kernel env) (meta_of h1)
                       (unwatch (slide_watch env) (watch_of h1) (l1 @ [Release (Heap ''wake_sem'')])
                          @ (if worker_bus (show_of h1) then [Release (Heap ''worker_bus'')] else [])) of
                  None \<Rightarrow> None
                | Some l2 \<Rightarrow>
                    Some (l2 @ [Release (Heap ''compose_buf'')]
                            @ (if fallback_image (show_of h1) = None then [] else [Release (Heap ''fallback_image'')])
                            @ [Release (Heap ''slideshow'')]))))"

text \<open>What happens to a slideshow that is open; the worker reconnects and shows captions.\<close>

definition reconnect :: "bool \<Rightarrow> 's slide_handle \<Rightarrow> io list \<Rightarrow> 's slide_handle \<times> io list" where
  "reconnect opened h l =
     (h\<lparr>show_of := snd (connect_worker_bus opened (show_of h))\<rparr>,
      l @ (if worker_bus (show_of h) then [Release (Heap ''worker_bus'')] else [])
        @ (if opened then [Acquire (Heap ''worker_bus'')] else []))"

datatype slide_act = Start_Slides bool | Stop_Slides | Reconnect bool | Show_Caption "string option"

fun slide_do ::
  "'s cairo \<Rightarrow> kernel \<Rightarrow> 'j meta_json \<Rightarrow> slide_act \<Rightarrow> 's slide_handle \<Rightarrow> io list \<Rightarrow> ('s slide_handle \<times> io list) option" where
  "slide_do C k J (Start_Slides spawned) h l = Some (slideshow_start spawned h l)"
| "slide_do C k J Stop_Slides h l = slideshow_stop C k h l"
| "slide_do C k J (Reconnect opened) h l =
     (if worker_running (show_of h) then Some (reconnect opened h l) else Some (h, l))"
| "slide_do C k J (Show_Caption m) h l =
     (case meta_of h of
        None \<Rightarrow> Some (h, l)
      | Some em \<Rightarrow>
          if worker_running (show_of h)
          then map_option (\<lambda>(em1, l1). (h\<lparr>meta_of := Some em1\<rparr>, l1)) (eink_meta_render C k J em m l)
          else Some (h, l))"

fun slides_run ::
  "'s cairo \<Rightarrow> kernel \<Rightarrow> 'j meta_json \<Rightarrow> slide_act list \<Rightarrow> 's slide_handle \<Rightarrow> io list \<Rightarrow> ('s slide_handle \<times> io list) option" where
  "slides_run C k J [] h l = Some (h, l)"
| "slides_run C k J (a # acts) h l =
     (case slide_do C k J a h l of None \<Rightarrow> None | Some (h1, l1) \<Rightarrow> slides_run C k J acts h1 l1)"

section \<open>What the slideshow holds\<close>

text \<open>
  What the code never gives back: each call of \<^verbatim>\<open>is_service_up\<close>, and the last call of
  \<^verbatim>\<open>display_free\<close>, keeps its reply or its error.
\<close>

definition kept_replies :: "nat \<Rightarrow> resource multiset \<Rightarrow> bool" where
  "kept_replies n L \<longleftrightarrow> size L = n \<and> set_mset L \<subseteq> {Heap ''reply'', Heap ''error''}"

lemma kept_replies_none [simp]: "kept_replies 0 L \<longleftrightarrow> L = {#}"
  by (auto simp: kept_replies_def)

lemma kept_replies_add: "kept_replies m L \<Longrightarrow> kept_replies n M \<Longrightarrow> kept_replies (m + n) (L + M)"
  by (auto simp: kept_replies_def)

lemma is_service_up_keeps:
  "ledger l = Some R \<Longrightarrow> \<exists>L. ledger (snd (is_service_up_io n l)) = Some (R + L) \<and> kept_replies 1 L"
  by (auto simp: is_service_up_io_def kept_replies_def intro: exI [of _ "{#Heap ''error''#}"] exI [of _ "{#Heap ''reply''#}"])

definition slide_owned :: "'s slide_handle \<Rightarrow> resource multiset" where
  "slide_owned h =
     {#Heap ''slideshow'', Heap ''compose_buf'', Heap ''wake_sem''#}
     + (if worker_bus (show_of h) then {#Heap ''worker_bus''#} else {#})
     + (if fallback_image (show_of h) = None then {#} else {#Heap ''fallback_image''#})
     + (if worker_running (show_of h) then {#Thread ''slides''#} else {#})
     + (case meta_of h of None \<Rightarrow> {#} | Some em \<Rightarrow> meta_owned em)
     + (case watch_of h of None \<Rightarrow> {#} | Some w \<Rightarrow> watch_owned w)"

definition slide_live :: "'s slide_handle \<Rightarrow> bool" where
  "slide_live h \<longleftrightarrow> (\<forall>em. meta_of h = Some em \<longrightarrow> panel_live (em_display em))"

lemma slide_memory_ledger:
  assumes "slide_memory env l = (ok, l')" "ledger l = Some R"
  shows "ledger l' = Some (if ok
      then R + {#Heap ''slideshow'', Heap ''compose_buf'', Heap ''wake_sem'', Heap ''worker_bus''#} else R)"
    and "ok = (struct_ok env \<and> compose_ok env \<and> sem_ok env \<and> bus_ok env)"
  using assms
  by (auto simp: slide_memory_def Let_def ledger_append_steps simp del: ledger_snoc ledger_snoc2 split: if_splits)

lemma slideshow_init_made:
  assumes "slideshow_init info secs deg qr eink fallback env = Some (Some s, effs, calls)"
  shows "worker_bus s \<and> \<not> worker_running s"
  using assms by (auto simp: slideshow_init_def Let_def split: if_splits option.splits bind_splits)

lemma slideshow_open_ledger:
  assumes "slideshow_open C env info cfg l = Some (h, l')" "lines_have_fds (dev_kernel env)" "ledger l = Some R"
  shows "\<exists>L. ledger l' = Some (R + (case h of None \<Rightarrow> {#} | Some x \<Rightarrow> slide_owned x) + L)
     \<and> kept_replies (if h = None then 0 else 1) L \<and> (\<forall>x. h = Some x \<longrightarrow> slide_live x)"
proof (cases "cfg_transition_time_s cfg = 0 \<or> rotation_of (cfg_rotation cfg) = None")
  case True
  then show ?thesis using assms by (auto simp: slideshow_open_def)
next
  case ok: False
  obtain got l1 where m: "slide_memory (memory_env env) l = (got, l1)" by fastforce
  note l1 = slide_memory_ledger(1) [OF m assms(3)]
  show ?thesis
  proof (cases got)
    case False
    then show ?thesis using assms(1) ok m l1 by (auto simp: slideshow_open_def)
  next
    case True
    let ?M = "{#Heap ''slideshow'', Heap ''compose_buf'', Heap ''wake_sem'', Heap ''worker_bus''#}"
    obtain em l2 where e: "(if cfg_use_eink cfg then eink_meta_init C (dev_kernel env) l1 else (None, l1)) = (em, l2)" by fastforce
    have l2: "ledger l2 = Some (R + ?M + (case em of None \<Rightarrow> {#} | Some x \<Rightarrow> meta_owned x))"
      and live: "\<And>x. em = Some x \<Longrightarrow> panel_live (em_display x)"
      using e meta_init_ledger [of C "dev_kernel env" l1 em l2] assms(2) l1 True by (auto split: if_splits)
    obtain s effs calls where s: "slideshow_init info (cfg_transition_time_s cfg) (cfg_rotation cfg) (cfg_embed_qr cfg) (cfg_use_eink cfg)
          (Some (cfg_fallback_image cfg)) ((memory_env env)\<lparr>eink_ok := em \<noteq> None\<rparr>) = Some (Some s, effs, calls)"
      using assms(1) ok m True e by (auto simp: slideshow_open_def split: option.splits prod.splits)
    define l3 where "l3 = (if fallback_image s = None then l2 else l2 @ [Acquire (Heap ''fallback_image'')])"
    have l3: "ledger l3 = Some (R + ?M + (case em of None \<Rightarrow> {#} | Some x \<Rightarrow> meta_owned x)
        + (if fallback_image s = None then {#} else {#Heap ''fallback_image''#}))"
      using l2 by (auto simp: l3_def)
    obtain w l4 where w: "on_service_updown (slide_watch env) l3 = (w, l4)" by fastforce
    note l4 = name_watch.acquire_owned [OF TrueI l3 w]
    let ?h = "\<lparr>show_of = s, meta_of = em, watch_of = w\<rparr>"
    have h: "h = Some ?h" "l' = snd (is_service_up_io (slide_owner env) l4)"
      using assms(1) ok m True e s w by (auto simp: slideshow_open_def l3_def)
    have "ledger l4 = Some (R + slide_owned ?h)"
      using l4 slideshow_init_made [OF s] by (simp add: slide_owned_def ac_simps)
    from is_service_up_keeps [OF this, of "slide_owner env"] show ?thesis
      using h live by (auto simp: slide_live_def)
  qed
qed

lemma slideshow_stop_step:
  assumes "slide_live h" "ledger l = Some (R + slide_owned h)"
  shows "\<exists>h' l'. slideshow_stop C k h l = Some (h', l') \<and> slide_live h' \<and> ledger l' = Some (R + slide_owned h')
     \<and> \<not> worker_running (show_of h')"
proof (cases "worker_running (show_of h)")
  case False
  then show ?thesis using assms by (simp add: slideshow_stop_def)
next
  case True
  let ?h1 = "h\<lparr>show_of := (show_of h)\<lparr>worker_running := False, stop_requested := False, wake_sem := 0, skip_count := 0\<rparr>\<rparr>"
  let ?l1 = "l @ [Release (Thread ''slides'')]"
  have l1: "ledger ?l1 = Some (R + slide_owned ?h1)"
    using assms(2) True by (simp add: slide_owned_def)
  show ?thesis
  proof (cases "meta_of h")
    case None
    then show ?thesis using l1 True by (simp add: slideshow_stop_def slide_live_def)
  next
    case (Some em)
    then have "panel_live (em_display em)" using assms(1) by (simp add: slide_live_def)
    from meta_clear_step [OF this, of C k ?l1] obtain em1 l2 where
      c: "eink_meta_clear C k em ?l1 = Some (em1, l2)" "panel_live (em_display em1)" "meta_owned em1 = meta_owned em"
        "ledger l2 = ledger ?l1" by blast
    have "slideshow_stop C k h l = Some (?h1\<lparr>meta_of := Some em1\<rparr>, l2)"
      using True Some c(1) by (simp add: slideshow_stop_def)
    moreover have "ledger l2 = Some (R + slide_owned (?h1\<lparr>meta_of := Some em1\<rparr>))"
      using c(3,4) l1 Some by (simp add: slide_owned_def)
    ultimately show ?thesis using c(2) by (simp add: slide_live_def)
  qed
qed

lemma reconnect_step:
  assumes "reconnect opened h l = (h', l')" "ledger l = Some (R + slide_owned h)" "slide_live h"
  shows "slide_live h' \<and> ledger l' = Some (R + slide_owned h')"
  using assms
  by (auto simp: reconnect_def connect_worker_bus_def slide_live_def slide_owned_def ledger_append_steps
      simp del: ledger_snoc ledger_snoc2 split: if_splits)

lemma slideshow_start_step:
  assumes "slideshow_start spawned h l = (h', l')" "ledger l = Some (R + slide_owned h)" "slide_live h"
  shows "slide_live h' \<and> ledger l' = Some (R + slide_owned h')"
  using assms by (auto simp: slideshow_start_def slide_live_def slide_owned_def split: if_splits)

lemma slide_do_step:
  assumes "slide_live h" "ledger l = Some (R + slide_owned h)" "slide_do C k J a h l = Some (h', l')"
  shows "slide_live h' \<and> ledger l' = Some (R + slide_owned h')"
proof (cases a)
  case Stop_Slides
  then show ?thesis using slideshow_stop_step [OF assms(1,2), of C k] assms(3) by auto
next
  case (Show_Caption m)
  show ?thesis
  proof (cases "h' = h \<and> l' = l")
    case False
    then obtain em em1 where r: "meta_of h = Some em" "eink_meta_render C k J em m l = Some (em1, l')" "h' = h\<lparr>meta_of := Some em1\<rparr>"
      using assms(3) Show_Caption by (auto split: option.splits if_splits)
    have "panel_live (em_display em)" using assms(1) r(1) by (simp add: slide_live_def)
    from meta_render_step [OF this r(2)] show ?thesis
      using assms(2) r(1,3) by (simp add: slide_live_def slide_owned_def)
  qed (use assms in simp)
next
  case (Start_Slides sp)
  then show ?thesis using slideshow_start_step [OF _ assms(2,1), of sp h' l'] assms(3) by simp
next
  case (Reconnect op)
  then show ?thesis using reconnect_step [OF _ assms(2,1), of op h' l'] assms by (auto split: if_splits)
qed

lemma slides_run_step:
  assumes "slide_live h" "ledger l = Some (R + slide_owned h)" "slides_run C k J acts h l = Some (h', l')"
  shows "slide_live h' \<and> ledger l' = Some (R + slide_owned h')"
  using assms
proof (induction acts arbitrary: h l)
  case (Cons a acts)
  obtain h1 l1 where 1: "slide_do C k J a h l = Some (h1, l1)" "slides_run C k J acts h1 l1 = Some (h', l')"
    using Cons.prems(3) by (auto split: option.splits)
  show ?case using slide_do_step [OF Cons.prems(1,2) 1(1)] Cons.IH 1(2) by blast
qed simp

text \<open>Freeing an open slideshow gives everything back, whether or not the worker runs.\<close>

lemma slideshow_free_ledger:
  assumes "slide_live h" "ledger l = Some (R + slide_owned h)"
  shows "\<exists>l'. slideshow_free C env (Some h) l = Some l' \<and> ledger l' = Some R"
proof -
  obtain h1 l1 where s: "slideshow_stop C (dev_kernel env) h l = Some (h1, l1)" "slide_live h1"
      "ledger l1 = Some (R + slide_owned h1)" "\<not> worker_running (show_of h1)"
    using slideshow_stop_step [OF assms] by blast
  let ?fb = "if fallback_image (show_of h1) = None then {#} else {#Heap ''fallback_image''#}"
  let ?meta = "case meta_of h1 of None \<Rightarrow> {#} | Some em \<Rightarrow> meta_owned em"
  let ?bus = "if worker_bus (show_of h1) then {#Heap ''worker_bus''#} else {#}"
  let ?R = "R + {#Heap ''slideshow'', Heap ''compose_buf''#} + ?fb"
  define l2 where "l2 = unwatch (slide_watch env) (watch_of h1) (l1 @ [Release (Heap ''wake_sem'')])"
  define l3 where "l3 = l2 @ (if worker_bus (show_of h1) then [Release (Heap ''worker_bus'')] else [])"
  have "ledger (l1 @ [Release (Heap ''wake_sem'')])
      = Some ((?R + ?meta + ?bus) + (case watch_of h1 of None \<Rightarrow> {#} | Some w \<Rightarrow> watch_owned w))"
    using s(3,4) by (simp add: slide_owned_def ac_simps)
  from name_watch.release_held [OF this, of "slide_watch env"]
  have "ledger l2 = Some (?R + ?meta + ?bus)" by (simp only: l2_def)
  then have l3: "ledger l3 = Some (?R + ?meta)" by (auto simp: l3_def)
  have "\<exists>l4. eink_meta_free C (dev_kernel env) (meta_of h1) l3 = Some l4 \<and> ledger l4 = Some ?R"
  proof (cases "meta_of h1")
    case None
    then show ?thesis using l3 by (simp add: eink_meta_free_def)
  next
    case (Some em)
    then show ?thesis using meta_free_ledger [of em l3 ?R C "dev_kernel env"] l3 s(2) by (simp add: slide_live_def)
  qed
  then obtain l4 where l4: "eink_meta_free C (dev_kernel env) (meta_of h1) l3 = Some l4" "ledger l4 = Some ?R" by blast
  have "slideshow_free C env (Some h) l = Some (l4 @ [Release (Heap ''compose_buf'')]
      @ (if fallback_image (show_of h1) = None then [] else [Release (Heap ''fallback_image'')]) @ [Release (Heap ''slideshow'')])"
    using s(1) l4(1) by (simp add: slideshow_free_def l2_def l3_def)
  then show ?thesis using l4(2) by (auto simp: ledger_append_steps simp del: ledger_snoc ledger_snoc2)
qed

section \<open>The display controller\<close>

record display_handle =
  dh_monitor :: bool
  dh_watch :: "unit option"

record display_env =
  display_alloc_ok :: bool
  match_result :: int
  display_watch :: watch_env
  display_owner :: int
  off_result :: int

text \<open>\<^verbatim>\<open>display_free\<close> switches the panel off; the reply, or the error, is kept.\<close>

definition display_close :: "display_env \<Rightarrow> display_handle option \<Rightarrow> io list \<Rightarrow> io list" where
  "display_close env hp l =
     (case hp of
        None \<Rightarrow> l
      | Some h \<Rightarrow>
          unwatch (display_watch env) (dh_watch h) (l @ (if dh_monitor h then [Release (Heap ''monitor'')] else []))
            @ [Bus_Call ''Off'', Acquire (Heap (if off_result env < 0 then ''error'' else ''reply'')), Release (Heap ''display'')])"

definition display_open :: "display_env \<Rightarrow> io list \<Rightarrow> display_handle option \<times> io list" where
  "display_open env l =
     (if \<not> display_alloc_ok env then (None, l)
      else
        let l1 = l @ [Acquire (Heap ''display'')]
        in if match_result env < 0 then (None, display_close env (Some \<lparr>dh_monitor = False, dh_watch = None\<rparr>) l1)
           else (case on_service_updown (display_watch env) (l1 @ [Acquire (Heap ''monitor'')]) of (w, l2) \<Rightarrow>
             (Some \<lparr>dh_monitor = True, dh_watch = w\<rparr>, snd (is_service_up_io (display_owner env) l2))))"

definition panel_owned :: "display_handle \<Rightarrow> resource multiset" where
  "panel_owned h = {#Heap ''display''#} + (if dh_monitor h then {#Heap ''monitor''#} else {#})
     + (case dh_watch h of None \<Rightarrow> {#} | Some w \<Rightarrow> watch_owned w)"

lemma display_close_ledger:
  assumes "ledger l = Some (R + panel_owned h)"
  shows "\<exists>L. ledger (display_close env (Some h) l) = Some (R + L) \<and> kept_replies 1 L"
proof -
  let ?l1 = "l @ (if dh_monitor h then [Release (Heap ''monitor'')] else [])"
  let ?L = "{#Heap (if off_result env < 0 then ''error'' else ''reply'')#}"
  have "ledger ?l1 = Some ((R + {#Heap ''display''#}) + (case dh_watch h of None \<Rightarrow> {#} | Some w \<Rightarrow> watch_owned w))"
    using assms by (auto simp: panel_owned_def ac_simps)
  from name_watch.release_held [OF this, of "display_watch env"]
  have "ledger (display_close env (Some h) l) = Some (R + ?L)"
    by (simp add: display_close_def ledger_append_steps del: ledger_snoc ledger_snoc2)
  then show ?thesis by (intro exI [of _ ?L]) (simp add: kept_replies_def)
qed

lemma display_open_ledger:
  assumes "display_open env l = (h, l')" "ledger l = Some R"
  shows "\<exists>L n. ledger l' = Some (R + (case h of None \<Rightarrow> {#} | Some x \<Rightarrow> panel_owned x) + L) \<and> kept_replies n L
     \<and> n = (if display_alloc_ok env then 1 else 0)"
proof -
  let ?l1 = "l @ [Acquire (Heap ''display'')]"
  consider "\<not> display_alloc_ok env" | "display_alloc_ok env" "match_result env < 0"
    | "display_alloc_ok env" "\<not> match_result env < 0" by blast
  then show ?thesis
  proof cases
    case 1
    then show ?thesis using assms by (auto simp: display_open_def)
  next
    case 2
    have "ledger ?l1 = Some (R + panel_owned \<lparr>dh_monitor = False, dh_watch = None\<rparr>)"
      using assms(2) by (simp add: panel_owned_def)
    from display_close_ledger [OF this, of env] show ?thesis using assms(1) 2 by (auto simp: display_open_def)
  next
    case 3
    let ?l2 = "?l1 @ [Acquire (Heap ''monitor'')]"
    obtain w l3 where w: "on_service_updown (display_watch env) ?l2 = (w, l3)" by fastforce
    have "ledger ?l2 = Some (R + {#Heap ''display'', Heap ''monitor''#})"
      using assms(2) by (simp add: ledger_append_steps del: ledger_snoc ledger_snoc2)
    from name_watch.acquire_owned [OF TrueI this w]
    have "ledger l3 = Some (R + panel_owned \<lparr>dh_monitor = True, dh_watch = w\<rparr>)"
      by (simp add: panel_owned_def ac_simps)
    from is_service_up_keeps [OF this, of "display_owner env"] show ?thesis
      using assms(1) 3 w by (auto simp: display_open_def)
  qed
qed

end
