(* ===== verification/Ambience_Main.thy ===== *)
theory Ambience_Main
  imports Ambience_Life
begin

text \<open>
  The ambience process as a whole: the methods of its D-Bus interface (\<^verbatim>\<open>ambience/dbus.c\<close>), and
  start-up, service and clean-up (\<^verbatim>\<open>main.c\<close>). What the process holds is followed with the ledger of
  its \<open>io\<close> events; following a null pointer is the value \<open>None\<close>.
\<close>

section \<open>The D-Bus interface\<close>

text \<open>\<open>rd\<close> is what reading the arguments returned, \<open>r\<close> what the display manager answers.\<close>

datatype ambience_request =
    Next
  | Prev
  | Force_Slideshow_On int
  | Force_Slideshow_Off int
  | Set_Transition_Time_Secs int u32
  | Announce int u32 string

datatype ambience_reply = Returned | Failed int string

record ambience_service =
  srv_ctx :: ambience_ctx
  srv_slides :: slideshow

definition slideshow_next :: "slideshow \<Rightarrow> slideshow" where
  "slideshow_next s =
     (if \<not> worker_running s then s
      else s\<lparr>skip_count := skip_count s + 1, wake_sem := wake_sem s + 1\<rparr>)"

definition slideshow_prev :: "slideshow \<Rightarrow> slideshow" where
  "slideshow_prev s =
     (if \<not> worker_running s then s
      else s\<lparr>skip_count := skip_count s - 1, wake_sem := wake_sem s + 1\<rparr>)"

text \<open>The display controller's effects run the callbacks that start and stop the slideshow.\<close>

definition force_display :: "bool \<Rightarrow> int \<Rightarrow> ambience_service \<Rightarrow> ambience_service" where
  "force_display on r v =
     (let c = ambience_display_step (srv_ctx v)
        (if on then Force_On else Force_Off, \<lparr>call_rc = r, thread_created = True\<rparr>)
      in v\<lparr>srv_ctx := c, srv_slides := (srv_slides v)\<lparr>worker_running := slideshow_on c\<rparr>\<rparr>)"

fun ambience_method :: "ambience_service \<Rightarrow> ambience_request \<Rightarrow> ambience_reply \<times> ambience_service" where
  "ambience_method v Next = (Returned, v\<lparr>srv_slides := slideshow_next (srv_slides v)\<rparr>)"
| "ambience_method v Prev = (Returned, v\<lparr>srv_slides := slideshow_prev (srv_slides v)\<rparr>)"
| "ambience_method v (Force_Slideshow_On r) = (Returned, force_display True r v)"
| "ambience_method v (Force_Slideshow_Off r) = (Returned, force_display False r v)"
| "ambience_method v (Set_Transition_Time_Secs rd secs) =
     (case method_set_transition_time (srv_slides v) rd secs of
        (r, s) \<Rightarrow>
          (if r < 0 then Failed r (if rd < 0 then [] else ''invalid transition time '' @ decimal (unat secs)) else Returned,
           v\<lparr>srv_slides := s\<rparr>))"
| "ambience_method v (Announce rd secs msg) =
     (case method_announce_requested (srv_ctx v) rd secs msg of
        (e, c) \<Rightarrow>
          (case e of None \<Rightarrow> Returned | Some (r, m) \<Rightarrow> Failed r m, v\<lparr>srv_ctx := c\<rparr>))"

definition ambience_serve :: "ambience_service \<Rightarrow> ambience_request list \<Rightarrow> ambience_service" where
  "ambience_serve v rs = fold (\<lambda>r v. snd (ambience_method v r)) rs v"

section \<open>Resources\<close>




section \<open>The process\<close>









section \<open>What the methods keep\<close>

definition slides_time_ok :: "slideshow \<Rightarrow> bool" where
  "slides_time_ok s \<longleftrightarrow> 3 \<le> transition_time_s s \<and> transition_time_s s \<le> 300"

text \<open>A refused request changes nothing.\<close>

lemma refused_request: "ambience_method v r = (Failed n m, v') \<Longrightarrow> v' = v \<and> n < 0"
  by (cases r)
    (auto simp: method_set_transition_time_def slideshow_set_transition_time_s_def method_announce_requested_def
      on_announce_requested_cb_def EINVAL_def EBUSY_def split: if_splits option.splits)

lemma ambience_method_time:
  "transition_time_s (srv_slides (snd (ambience_method v r))) = transition_time_s (srv_slides v) \<or>
   slides_time_ok (srv_slides (snd (ambience_method v r)))"
  by (cases r)
    (auto simp: method_set_transition_time_def slideshow_set_transition_time_s_def slideshow_next_def
      slideshow_prev_def force_display_def slides_time_ok_def Let_def not_less split: if_splits prod.split)

text \<open>Whatever is asked, the transition time is the configured one or lies between 3 and 300 seconds.\<close>

lemma ambience_serve_time:
  "transition_time_s (srv_slides (ambience_serve v rs)) = transition_time_s (srv_slides v) \<or>
   slides_time_ok (srv_slides (ambience_serve v rs))"
proof (induction rs arbitrary: v)
  case (Cons r rs)
  show ?case
    using Cons.IH [of "snd (ambience_method v r)"] ambience_method_time [of v r]
    by (auto simp: ambience_serve_def slides_time_ok_def)
qed (simp add: ambience_serve_def)

section \<open>How the process ends\<close>




definition held :: "('h \<Rightarrow> resource multiset) \<Rightarrow> 'h option \<Rightarrow> resource multiset" where
  "held owned h = (case h of None \<Rightarrow> {#} | Some x \<Rightarrow> owned x)"

lemma held_simps [simp]: "held owned None = {#}" "held owned (Some x) = owned x"
  by (simp_all add: held_def)





















end
