(* ===== verification/Bridge_Main.thy ===== *)
theory Bridge_Main
  imports Mqtt_Bridge Ledger "HOL-Library.Sublist"
begin

text \<open>
  The MQTT bridge as a process: its connection to the bus and the handlers of the signals
  (\<^verbatim>\<open>dbus-mqtt-bridge/dbus_client.c\<close>), and the loop that serves both sides (\<^verbatim>\<open>main.c\<close>). The bus
  library keeps messages it has read while it waited for the reply of a call in a queue of its
  own; how many it reads then is an input of each iteration.
\<close>

section \<open>The bus client\<close>

datatype bus_slot = Occupancy_Slot | Displayed_Photo_Slot | Slideshow_Active_Slot

record rc_dbus_env =
  rd_alloc_ok :: bool
  rd_open :: int
  rd_match :: "bus_slot \<Rightarrow> int"

definition slot_name :: "bus_slot \<Rightarrow> string" where
  "slot_name s = (case s of Occupancy_Slot \<Rightarrow> ''occupancy_slot'' | Displayed_Photo_Slot \<Rightarrow> ''displayed_photo_slot''
     | Slideshow_Active_Slot \<Rightarrow> ''slideshow_active_slot'')"

text \<open>\<open>slots\<close> are the subscriptions made.\<close>

definition rc_dbus_free :: "bus_slot list option \<Rightarrow> io list \<Rightarrow> io list" where
  "rc_dbus_free d l =
     (case d of
        None \<Rightarrow> l
      | Some slots \<Rightarrow>
          l @ map (\<lambda>s. Release (Heap (slot_name s))) slots
            @ [Release (Heap ''rc_dbus.bus''), Release (Heap ''rc_dbus'')])"

fun subscribe_all :: "rc_dbus_env \<Rightarrow> bus_slot list \<Rightarrow> bus_slot list \<Rightarrow> io list \<Rightarrow> bus_slot list option \<times> io list" where
  "subscribe_all env done [] l = (Some done, l)"
| "subscribe_all env done (s # ss) l =
     (if rd_match env s < 0 then (None, rc_dbus_free (Some done) l)
      else subscribe_all env (done @ [s]) ss (l @ [Acquire (Heap (slot_name s))]))"

definition rc_dbus_init :: "rc_dbus_env \<Rightarrow> io list \<Rightarrow> bus_slot list option \<times> io list" where
  "rc_dbus_init env l =
     (if \<not> rd_alloc_ok env then (None, l)
      else
        let l1 = l @ [Acquire (Heap ''rc_dbus'')]
        in if rd_open env < 0 then (None, l1 @ [Release (Heap ''rc_dbus'')])
           else subscribe_all env [] [Occupancy_Slot, Displayed_Photo_Slot, Slideshow_Active_Slot]
                  (l1 @ [Acquire (Heap ''rc_dbus.bus'')]))"

text \<open>A signal as it is delivered: what reading its arguments returns, and the arguments.\<close>

datatype bus_signal =
    State_Changed int int u32 nat
  | Displaying_Photo int "string option"
  | Slideshow_Active int int

text \<open>\<open>answer\<close> is what \<^verbatim>\<open>mosquitto_publish\<close> answers if it is called.\<close>

definition on_state_changed :: "rc_mqtt \<Rightarrow> int \<Rightarrow> int \<Rightarrow> u32 \<Rightarrow> nat \<Rightarrow> int \<Rightarrow> publication list" where
  "on_state_changed m rd occ dist ts answer =
     (if rd < 0 then []
      else (case on_occupancy m (occ \<noteq> 0) dist ts answer of None \<Rightarrow> [] | Some p \<Rightarrow> [p]))"

definition on_displaying_photo :: "rc_mqtt \<Rightarrow> int \<Rightarrow> string option \<Rightarrow> int \<Rightarrow> publication list" where
  "on_displaying_photo m rd meta answer =
     (if rd < 0 then [] else [on_displayed_photo_changed m (case meta of None \<Rightarrow> [] | Some s \<Rightarrow> s) answer])"

definition on_slideshow_active_signal :: "rc_mqtt \<Rightarrow> int \<Rightarrow> int \<Rightarrow> int \<Rightarrow> publication list" where
  "on_slideshow_active_signal m rd active answer =
     (if rd < 0 then [] else [on_slideshow_active_changed m (active \<noteq> 0) answer])"

fun relay :: "rc_mqtt \<Rightarrow> bus_signal \<times> int \<Rightarrow> publication list" where
  "relay m (State_Changed rd occ dist ts, a) = on_state_changed m rd occ dist ts a"
| "relay m (Displaying_Photo rd meta, a) = on_displaying_photo m rd meta a"
| "relay m (Slideshow_Active rd active, a) = on_slideshow_active_signal m rd active a"

text \<open>The calls of the bus, by destination and arguments, and what they return.\<close>

definition call_target :: "bus_call \<Rightarrow> string \<times> string" where
  "call_target c =
     (case c of
        Ambience_Call method \<Rightarrow> (''io.homeboard.Ambience'', method)
      | Set_Transition_Time _ \<Rightarrow> (''io.homeboard.Ambience'', ''SetTransitionTimeSecs'')
      | Set_Embed_Qr _ \<Rightarrow> (''io.homeboard.PhotoProvider'', ''SetEmbedQr'')
      | Set_Target_Size _ _ \<Rightarrow> (''io.homeboard.PhotoProvider'', ''SetTargetSize''))"

section \<open>The loop\<close>

record bridge =
  br_mqtt :: rc_mqtt
  unread :: "bus_signal list"
  queued :: "bus_signal list"
  published :: "publication list"
  bus_calls :: "bus_call list"
  connects :: "connect_call list"

datatype poll_result = Poll_Error | Poll_Interrupted | Polled

text \<open>
  One message read from the broker: topic, payload and its length; the signals that arrive while
  the call it causes waits for its reply, and how many of those unread the library reads then.
\<close>

record broker_message =
  msg_topic :: "string option"
  msg_payload :: "string option"
  msg_len :: int
  meanwhile :: "bus_signal list"
  call_reads :: nat

record iteration =
  arrived :: "bus_signal list"
  publish_answer :: "nat \<Rightarrow> int"
  poll_answer :: poll_result
  readable :: bool
  messages :: "broker_message list"
  read_answer :: int
  misc_answer :: int
  socket_open :: bool
  at_time :: int

definition process_bus :: "(nat \<Rightarrow> int) \<Rightarrow> bridge \<Rightarrow> bridge" where
  "process_bus answers b =
     (if unread b = [] then b
      else
        let sigs = queued b @ unread b
        in b\<lparr>published := published b @ concat (map (relay (br_mqtt b)) (zip sigs (map answers [0..<length sigs]))),
             queued := [], unread := []\<rparr>)"

definition handle_message :: "broker_message \<Rightarrow> bridge \<Rightarrow> bridge" where
  "handle_message x b =
     (case on_message_cb (br_mqtt b) (msg_topic x) (msg_payload x) (msg_len x) of
        None \<Rightarrow> b
      | Some c \<Rightarrow>
          let waiting = unread b @ meanwhile x
          in b\<lparr>bus_calls := bus_calls b @ [c], queued := queued b @ take (call_reads x) waiting,
               unread := drop (call_reads x) waiting\<rparr>)"

definition loop_call :: "int \<Rightarrow> loop_event \<Rightarrow> bridge \<Rightarrow> bridge" where
  "loop_call now e b =
     (case mqtt_loop now e (br_mqtt b) of
        (c, m) \<Rightarrow> b\<lparr>br_mqtt := m, connects := connects b @ (case c of None \<Rightarrow> [] | Some x \<Rightarrow> [x])\<rparr>)"

text \<open>The state after the iteration, and whether the loop goes on.\<close>

definition bridge_iteration :: "iteration \<Rightarrow> bridge \<Rightarrow> bool \<times> bridge" where
  "bridge_iteration it b0 =
     (let b1 = b0\<lparr>unread := unread b0 @ arrived it\<rparr>
      in case poll_answer it of
           Poll_Error \<Rightarrow> (False, b1)
         | Poll_Interrupted \<Rightarrow> (True, b1)
         | Polled \<Rightarrow>
             let b2 = process_bus (publish_answer it) b1;
                 b3 = (if readable it
                       then loop_call (at_time it) (Loop_Read (read_answer it) (socket_open it))
                              (fold handle_message (messages it) b2)
                       else b2)
             in (True, loop_call (at_time it) (Loop_Misc (misc_answer it) (socket_open it)) b3))"

fun bridge_run :: "iteration list \<Rightarrow> bridge \<Rightarrow> bridge" where
  "bridge_run [] b = b"
| "bridge_run (it # its) b =
     (case bridge_iteration it b of (go_on, b') \<Rightarrow> if go_on then bridge_run its b' else b')"



section \<open>Resources of the bus client\<close>

definition rc_dbus_owned :: "bus_slot list \<Rightarrow> resource multiset" where
  "rc_dbus_owned slots = mset (map (Heap \<circ> slot_name) slots @ [Heap ''rc_dbus.bus'', Heap ''rc_dbus''])"

lemma rc_dbus_free_ledger:
  assumes "ledger l = Some (R + rc_dbus_owned slots)"
  shows "ledger (rc_dbus_free (Some slots) l) = Some R"
proof -
  let ?rs = "map (Heap \<circ> slot_name) slots @ [Heap ''rc_dbus.bus'', Heap ''rc_dbus'']"
  have "rc_dbus_free (Some slots) l = l @ map Release ?rs" by (simp add: rc_dbus_free_def)
  then show ?thesis
    using ledger_release_all [of R ?rs] assms unfolding rc_dbus_owned_def by (simp add: ledger_append_steps)
qed

lemma subscribe_all_ledger:
  assumes "subscribe_all env made ss l = (r, l')" "ledger l = Some (R + rc_dbus_owned made)"
  shows "ledger l' = Some (R + (case r of None \<Rightarrow> {#} | Some slots \<Rightarrow> rc_dbus_owned slots))"
  using assms
proof (induction ss arbitrary: made l)
  case (Cons s ss)
  show ?case
  proof (cases "rd_match env s < 0")
    case True
    then show ?thesis using Cons.prems rc_dbus_free_ledger by auto
  next
    case False
    have "ledger (l @ [Acquire (Heap (slot_name s))]) = Some (R + rc_dbus_owned (made @ [s]))"
      using Cons.prems(2) by (simp add: rc_dbus_owned_def)
    with Cons.IH Cons.prems(1) False show ?thesis by simp
  qed
qed auto

lemma rc_dbus_init_ledger:
  assumes "rc_dbus_init env l = (r, l')" "ledger l = Some R"
  shows "ledger l' = Some (R + (case r of None \<Rightarrow> {#} | Some slots \<Rightarrow> rc_dbus_owned slots))"
proof (cases "rd_alloc_ok env \<and> 0 \<le> rd_open env")
  case True
  have "ledger (l @ [Acquire (Heap ''rc_dbus''), Acquire (Heap ''rc_dbus.bus'')]) = Some (R + rc_dbus_owned [])"
    using assms(2) by (simp add: rc_dbus_owned_def)
  moreover have "subscribe_all env [] [Occupancy_Slot, Displayed_Photo_Slot, Slideshow_Active_Slot]
      (l @ [Acquire (Heap ''rc_dbus''), Acquire (Heap ''rc_dbus.bus'')]) = (r, l')"
    using assms(1) True by (simp add: rc_dbus_init_def Let_def del: subscribe_all.simps)
  ultimately show ?thesis by (intro subscribe_all_ledger)
next
  case False
  then show ?thesis using assms by (auto simp: rc_dbus_init_def Let_def split: if_splits)
qed

interpretation bridge_bus: device_handle rc_dbus_init "\<lambda>_. rc_dbus_free" rc_dbus_owned "\<lambda>_. True"
  by unfold_locales
    (use rc_dbus_init_ledger in blast, auto simp: rc_dbus_free_ledger, simp add: rc_dbus_free_def)

section \<open>Signals are relayed in order\<close>






























text \<open>
  The loop looks at the bus only when its socket has something to read. A signal the library
  read during a call is therefore not published, however often the loop turns, until another
  message arrives on the bus.
\<close>

definition quiet_iteration :: "iteration \<Rightarrow> bool" where
  "quiet_iteration it \<longleftrightarrow> arrived it = [] \<and> messages it = []"

lemma quiet_iteration_publishes_nothing:
  assumes "quiet_iteration it" "unread b = []"
  shows "unread (snd (bridge_iteration it b)) = [] \<and> queued (snd (bridge_iteration it b)) = queued b
     \<and> published (snd (bridge_iteration it b)) = published b"
  using assms
  by (simp add: bridge_iteration_def quiet_iteration_def process_bus_def loop_call_def Let_def
      split: poll_result.split prod.split)

lemma signal_read_in_call_waits:
  assumes "\<forall>it \<in> set its. quiet_iteration it" "unread b = []"
  shows "queued (bridge_run its b) = queued b \<and> published (bridge_run its b) = published b"
  using assms
proof (induction its arbitrary: b)
  case (Cons it its)
  then show ?case
    using quiet_iteration_publishes_nothing [of it b] by (fastforce split: prod.split)
qed simp

text \<open>As soon as something arrives on the socket, everything received so far is published.\<close>

lemma activity_catches_up:
  assumes "unread b @ arrived it \<noteq> []" "poll_answer it = Polled" "messages it = []"
  shows "queued (snd (bridge_iteration it b)) = [] \<and> unread (snd (bridge_iteration it b)) = []"
  using assms by (auto simp: bridge_iteration_def process_bus_def loop_call_def Let_def split: prod.split)

end
