(* ===== verification/Photo_Delivery.thy ===== *)
theory Photo_Delivery
  imports Photo_Provider Ledger C_Strings
begin

text \<open>
  A photo on its way from the photo server to a file: the download into a memory file
  (\<^verbatim>\<open>write_to_fd\<close> and \<^verbatim>\<open>fetch_img_into_fd\<close> of \<^verbatim>\<open>www_session.c\<close>), the D-Bus methods of the photo provider
  (\<^verbatim>\<open>photo-provider/dbus.c\<close>), and the client of the command line (\<^verbatim>\<open>photo-provider-cli/main.c\<close>). A
  descriptor sent over the bus shares the open file with the sender's: all its holders move one
  file offset.
\<close>

section \<open>Open files\<close>

record open_file =
  file_bytes :: "u8 list"
  file_pos :: nat

text \<open>The answer of one \<^verbatim>\<open>read\<close> or \<^verbatim>\<open>write\<close>: interrupted, failed, or at most so many bytes moved.\<close>

datatype sys_answer = Interrupted | Failed_Call | Moved nat

text \<open>
  \<^verbatim>\<open>write_to_fd\<close> on the memory file, which is only ever written at its end: whether all of the
  data was written. The loop is still waiting when the answers run out (\<open>None\<close>).
\<close>

fun write_to_fd :: "sys_answer list \<Rightarrow> u8 list \<Rightarrow> open_file \<Rightarrow> (bool \<times> open_file) option" where
  "write_to_fd answers [] f = Some (True, f)"
| "write_to_fd [] (x # data) f = None"
| "write_to_fd (a # answers) (x # data) f =
     (case a of
        Moved (Suc n) \<Rightarrow>
          let w = take (Suc n) (x # data)
          in write_to_fd answers (drop (Suc n) (x # data))
               (f\<lparr>file_bytes := file_bytes f @ w, file_pos := file_pos f + length w\<rparr>)
      | _ \<Rightarrow> Some (False, f))"

text \<open>The transfer hands over the body in pieces and stops when one is not taken whole.\<close>

fun transfer :: "(u8 list \<times> sys_answer list) list \<Rightarrow> open_file \<Rightarrow> (bool \<times> open_file) option" where
  "transfer [] f = Some (True, f)"
| "transfer ((data, answers) # pieces) f =
     (case write_to_fd answers data f of
        None \<Rightarrow> None
      | Some (ok, f') \<Rightarrow> if ok then transfer pieces f' else Some (False, f'))"

text \<open>The image fetch with the pieces of the body; \<open>complete\<close> is whether libcurl reports success.\<close>

definition fetch_img_bytes ::
  "fd \<Rightarrow> (u8 list \<times> sys_answer list) list \<Rightarrow> bool \<Rightarrow> int \<Rightarrow> bool \<Rightarrow> (fd \<times> fd list \<times> open_file) option" where
  "fetch_img_bytes mfd pieces complete code rewind =
     (case transfer pieces \<lparr>file_bytes = [], file_pos = 0\<rparr> of
        None \<Rightarrow> None
      | Some (ok, f) \<Rightarrow>
          (case fetch_img_into_fd \<lparr>memfd = mfd, transfer_ok = ok \<and> complete, http_code = code, rewind_ok = rewind\<rparr> of
             (r, closes) \<Rightarrow> Some (r, closes, if r < 0 then f else f\<lparr>file_pos := 0\<rparr>)))"

section \<open>The methods of the photo provider\<close>

datatype provider_reply =
    Provider_Error string
  | Errno int
  | Photo_Reply fd string
  | Empty_Reply

text \<open>\<^verbatim>\<open>lseek\<close> answers a negative error number or succeeds.\<close>

definition reply_with_fd :: "int \<Rightarrow> fd \<Rightarrow> string option \<Rightarrow> open_file \<Rightarrow> provider_reply \<times> open_file" where
  "reply_with_fd seek f meta x =
     (if seek < 0 then (Errno (- seek), x)
      else (Photo_Reply f (case meta of None \<Rightarrow> [] | Some m \<Rightarrow> m), x\<lparr>file_pos := 0\<rparr>))"

text \<open>
  What the methods do with what the cache gave them: \<open>ofd\<close> is the open file a descriptor refers
  to; the descriptor delivered is a duplicate of the cache's and is closed after the reply.
\<close>

definition deliver_photo ::
  "(fd \<Rightarrow> nat) \<Rightarrow> string \<Rightarrow> int \<Rightarrow> (fd \<times> string option) option \<Rightarrow> (nat \<Rightarrow> open_file) \<Rightarrow> io list
     \<Rightarrow> provider_reply \<times> (nat \<Rightarrow> open_file) \<times> io list" where
  "deliver_photo ofd unavailable seek popped files l =
     (case popped of
        None \<Rightarrow> (Provider_Error unavailable, files, l)
      | Some (f, meta) \<Rightarrow>
          (case reply_with_fd seek f meta (files (ofd f)) of
             (r, x) \<Rightarrow> (r, files(ofd f := x), l @ [Acquire (Fd f), Release (Fd f)])))"

definition method_get_photo ::
  "(fd \<Rightarrow> nat) \<Rightarrow> (fd \<Rightarrow> fd) \<Rightarrow> int \<Rightarrow> (cache_op list \<times> bool) list \<Rightarrow> pp_cache \<Rightarrow> (nat \<Rightarrow> open_file) \<Rightarrow> io list
     \<Rightarrow> (provider_reply \<times> pp_cache \<times> (nat \<Rightarrow> open_file) \<times> io list) option" where
  "method_get_photo ofd dup seek wakes c files l =
     (case pp_cache_pop dup c wakes of
        None \<Rightarrow> None
      | Some (Pop_Timeout c') \<Rightarrow> Some (Provider_Error ''no photo available'', c', files, l)
      | Some (Popped p c') \<Rightarrow>
          (case deliver_photo ofd ''no photo available'' seek p files l of (r, fs, l') \<Rightarrow> Some (r, c', fs, l')))"

definition method_get_prev_photo ::
  "(fd \<Rightarrow> nat) \<Rightarrow> (fd \<Rightarrow> fd) \<Rightarrow> int \<Rightarrow> pp_cache \<Rightarrow> (nat \<Rightarrow> open_file) \<Rightarrow> io list
     \<Rightarrow> provider_reply \<times> pp_cache \<times> (nat \<Rightarrow> open_file) \<times> io list" where
  "method_get_prev_photo ofd dup seek c files l =
     (case pp_cache_pop_prev dup c of
        (p, c') \<Rightarrow>
          (case deliver_photo ofd ''no previous photo available'' seek p files l of (r, fs, l') \<Rightarrow> (r, c', fs, l')))"

text \<open>The setters; \<open>rd\<close> is what reading the arguments returned.\<close>

definition set_reply :: "setter_result \<Rightarrow> provider_reply" where
  "set_reply res = (if rc res < 0 then Provider_Error ''re-register failed'' else Empty_Reply)"

definition method_set_target_size :: "int \<Rightarrow> u32 \<Rightarrow> u32 \<Rightarrow> string option \<Rightarrow> www_session \<Rightarrow> provider_reply \<times> www_session" where
  "method_set_target_size rd w h response s =
     (if rd < 0 then (Errno (- rd), s)
      else let res = pp_www_session_set_target_size s w h response in (set_reply res, new_session res))"

definition method_set_embed_qr :: "int \<Rightarrow> int \<Rightarrow> string option \<Rightarrow> www_session \<Rightarrow> provider_reply \<times> www_session" where
  "method_set_embed_qr rd v response s =
     (if rd < 0 then (Errno (- rd), s)
      else let res = pp_www_session_set_embed_qr s (v \<noteq> 0) response in (set_reply res, new_session res))"

section \<open>The client\<close>

definition COPY_BUF :: nat where "COPY_BUF = 65536"

text \<open>
  What happens next to the copy loop: the answer of its call, or another holder of the open file
  rewinding it. A read moves at least one byte while there is one.
\<close>

datatype copy_event = Answer sys_answer | Rewound_By_Other

definition read_chunk :: "nat \<Rightarrow> open_file \<Rightarrow> u8 list" where
  "read_chunk n f = take (min (max 1 n) COPY_BUF) (drop (file_pos f) (file_bytes f))"

fun copy_loop :: "copy_event list \<Rightarrow> u8 list \<Rightarrow> open_file \<Rightarrow> u8 list \<Rightarrow> (int \<times> open_file \<times> u8 list) option" where
  "copy_loop [] pend f out = None"
| "copy_loop (Rewound_By_Other # es) pend f out = copy_loop es pend (f\<lparr>file_pos := 0\<rparr>) out"
| "copy_loop (Answer a # es) [] f out =
     (case a of
        Interrupted \<Rightarrow> copy_loop es [] f out
      | Failed_Call \<Rightarrow> Some (- 1, f, out)
      | Moved n \<Rightarrow>
          let chunk = read_chunk n f
          in if chunk = [] then Some (0, f, out)
             else copy_loop es chunk (f\<lparr>file_pos := file_pos f + length chunk\<rparr>) out)"
| "copy_loop (Answer a # es) (x # pend) f out =
     (case a of
        Interrupted \<Rightarrow> copy_loop es (x # pend) f out
      | Failed_Call \<Rightarrow> Some (- 1, f, out)
      | Moved n \<Rightarrow> copy_loop es (drop n (x # pend)) f (out @ take n (x # pend)))"

record cli_env =
  cli_call :: int
  cli_read :: int
  cli_open :: fd
  cli_seek :: int
  cli_events :: "copy_event list"

text \<open>The return code, what was written to the file, and what is held.\<close>

definition cmd_get_photo :: "cli_env \<Rightarrow> open_file \<Rightarrow> io list \<Rightarrow> (int \<times> u8 list \<times> open_file \<times> io list) option" where
  "cmd_get_photo env f l =
     (if cli_call env < 0 then Some (- 1, [], f, l)
      else
        let l1 = l @ [Acquire (Heap ''reply'')]; unref = Release (Heap ''reply'')
        in if cli_read env < 0 then Some (- 1, [], f, l1 @ [unref])
           else if cli_open env < 0 then Some (- 1, [], f, l1 @ [unref])
           else
             let l2 = l1 @ [Acquire (Fd (cli_open env))]; shut = [Release (Fd (cli_open env)), unref]
             in if cli_seek env < 0 then Some (- 1, [], f, l2 @ shut)
                else (case copy_loop (cli_events env) [] (f\<lparr>file_pos := 0\<rparr>) [] of
                  None \<Rightarrow> None
                | Some (r, f', out) \<Rightarrow> Some (r, out, f', l2 @ shut)))"

datatype cli_request = Cli_Get string string | Cli_Qr int | Cli_Size u32 u32

text \<open>\<^verbatim>\<open>sscanf\<close> with \<^verbatim>\<open>"%ux%u"\<close>; a number is read as \<^verbatim>\<open>strtoul\<close> reads it.\<close>

definition scan_size :: "string \<Rightarrow> (u32 \<times> u32) option" where
  "scan_size s =
     (case strtoul s of (w, r1) \<Rightarrow>
        if r1 = s \<or> r1 = [] \<or> hd r1 \<noteq> CHR ''x'' then None
        else case strtoul (tl r1) of (h, r2) \<Rightarrow> if r2 = tl r1 then None else Some (w, h))"

text \<open>The request the arguments make, if they make one.\<close>

definition requested :: "string list \<Rightarrow> cli_request option" where
  "requested args =
     (case args of
        [] \<Rightarrow> None
      | a # rest \<Rightarrow>
          if a = ''-qr'' then (case rest of [v] \<Rightarrow> Some (Cli_Qr (atoi v)) | _ \<Rightarrow> None)
          else if a = ''-size'' then
            (case rest of [v] \<Rightarrow> map_option (\<lambda>(w, h). Cli_Size w h) (scan_size v) | _ \<Rightarrow> None)
          else if a = ''-prev'' then (case rest of [v] \<Rightarrow> Some (Cli_Get ''GetPrevPhoto'' v) | _ \<Rightarrow> None)
          else if a \<noteq> [] \<and> hd a = CHR ''-'' then None
          else Some (Cli_Get ''GetPhoto'' a))"

text \<open>A call without an answer to keep: what building, filling and sending the message returned.\<close>

definition call_simple :: "int \<Rightarrow> int \<Rightarrow> int \<Rightarrow> io list \<Rightarrow> int \<times> io list" where
  "call_simple created appended called l =
     (if created < 0 then (- 1, l)
      else
        let l1 = l @ [Acquire (Heap ''call'')]; unref = Release (Heap ''call'')
        in if appended < 0 then (- 1, l1 @ [unref])
           else if called < 0 then (- 1, l1 @ [unref])
           else (0, l1 @ [Acquire (Heap ''reply''), unref, Release (Heap ''reply'')]))"

text \<open>
  \<^verbatim>\<open>main\<close>: the exit code, the bytes that went to the requested file, and what is held. The client
  serves one request with the outcomes \<open>env\<close> of its calls.
\<close>

definition cli_main ::
  "int \<Rightarrow> int \<times> int \<times> int \<Rightarrow> cli_env \<Rightarrow> string list \<Rightarrow> open_file \<Rightarrow> io list
     \<Rightarrow> (int \<times> (string \<times> u8 list) option \<times> io list) option" where
  "cli_main opened simple env args f l =
     (if args = [] \<or> opened < 0 then Some (1, None, l)
      else
        let l1 = l @ [Acquire (Heap ''bus'')]; close = Release (Heap ''bus'')
        in case requested args of
          None \<Rightarrow> Some (1, None, l1 @ [close])
        | Some (Cli_Get method path) \<Rightarrow>
            (case cmd_get_photo env f l1 of
               None \<Rightarrow> None
             | Some (r, out, f', l2) \<Rightarrow> Some (if r < 0 then 1 else 0, Some (path, out), l2 @ [close]))
        | Some _ \<Rightarrow>
            (case simple of (created, appended, called) \<Rightarrow>
               (case call_simple created appended called l1 of
                  (r, l2) \<Rightarrow> Some (if r < 0 then 1 else 0, None, l2 @ [close]))))"

section \<open>The bytes arrive\<close>

lemma write_to_fd_bytes: "write_to_fd answers data f = Some (True, f') \<Longrightarrow> file_bytes f' = file_bytes f @ data"
  by (induction answers data f rule: write_to_fd.induct)
    (auto simp: Let_def split: sys_answer.splits nat.splits)

lemma transfer_bytes: "transfer pieces f = Some (True, f') \<Longrightarrow> file_bytes f' = file_bytes f @ concat (map fst pieces)"
proof (induction pieces f rule: transfer.induct)
  case (2 data answers pieces f)
  then obtain f1 where w: "write_to_fd answers data f = Some (True, f1)" "transfer pieces f1 = Some (True, f')"
    by (auto split: option.splits if_splits)
  have "file_bytes f1 = file_bytes f @ data" by (rule write_to_fd_bytes [OF w(1)])
  then show ?case using "2.IH" [OF w(1) refl] w by simp
qed simp

lemma fetch_img_bytes_content:
  assumes "fetch_img_bytes mfd pieces complete code rewind = Some (r, closes, f)" "0 \<le> r"
  shows "file_bytes f = concat (map fst pieces) \<and> file_pos f = 0 \<and> r = mfd \<and> closes = []"
proof -
  obtain ok g where t: "transfer pieces \<lparr>file_bytes = [], file_pos = 0\<rparr> = Some (ok, g)"
    using assms(1) by (auto simp: fetch_img_bytes_def split: option.splits)
  show ?thesis
    using assms t transfer_bytes [of pieces "\<lparr>file_bytes = [], file_pos = 0\<rparr>" g]
    by (auto simp: fetch_img_bytes_def fetch_img_into_fd_def split: if_splits)
qed

text \<open>Nobody else moves the offset while the client copies; the calls that move data.\<close>

definition undisturbed :: "copy_event list \<Rightarrow> bool" where
  "undisturbed es \<longleftrightarrow> Rewound_By_Other \<notin> set es"

fun is_progress :: "copy_event \<Rightarrow> bool" where
  "is_progress (Answer (Moved n)) = (0 < n)"
| "is_progress _ = False"

lemma undisturbed_Cons [simp]: "undisturbed (e # es) \<longleftrightarrow> e \<noteq> Rewound_By_Other \<and> undisturbed es"
  by (auto simp: undisturbed_def)

lemma read_chunk_end: "read_chunk n f = [] \<longleftrightarrow> drop (file_pos f) (file_bytes f) = []"
  by (auto simp: read_chunk_def COPY_BUF_def min_def)

lemma read_chunk_rest:
  "read_chunk n f @ drop (file_pos f + length (read_chunk n f)) (file_bytes f) = drop (file_pos f) (file_bytes f)"
proof -
  have "read_chunk n f = take (length (read_chunk n f)) (drop (file_pos f) (file_bytes f))"
    by (simp add: read_chunk_def min_def)
  then show ?thesis by (metis add.commute append_take_drop_id drop_drop)
qed

lemma copy_loop_copies:
  assumes "copy_loop es pend f out = Some (0, f', out')" "undisturbed es"
  shows "out' = out @ pend @ drop (file_pos f) (file_bytes f) \<and> file_bytes f' = file_bytes f"
  using assms
proof (induction es pend f out rule: copy_loop.induct)
  case (3 a es f out)
  show ?case
  proof (cases a)
    case (Moved n)
    show ?thesis
    proof (cases "read_chunk n f = []")
      case True
      then show ?thesis using 3 Moved read_chunk_end [of n f] by (simp add: Let_def)
    next
      case False
      then have "out' = out @ read_chunk n f @ drop (file_pos f + length (read_chunk n f)) (file_bytes f)
          \<and> file_bytes f' = file_bytes f"
        using "3.IH"(2) [OF Moved refl False] "3.prems" Moved by (simp add: Let_def)
      then show ?thesis by (simp add: read_chunk_rest)
    qed
  qed (use 3 in simp_all)
next
  case (4 a es x pend f out)
  show ?case
  proof (cases a)
    case (Moved n)
    then have "out' = out @ (take n (x # pend) @ drop n (x # pend)) @ drop (file_pos f) (file_bytes f)
        \<and> file_bytes f' = file_bytes f"
      using "4.IH"(2) [OF Moved] "4.prems" by (simp del: append_take_drop_id)
    then show ?thesis by (simp only: append_take_drop_id)
  qed (use 4 in simp_all)
qed simp_all

lemma copy_loop_returns:
  assumes "undisturbed es" "Answer Failed_Call \<notin> set es"
    and "2 * length (drop (file_pos f) (file_bytes f)) + length pend < length (filter is_progress es)"
  shows "\<exists>f' out'. copy_loop es pend f out = Some (0, f', out')"
  using assms
proof (induction es pend f out rule: copy_loop.induct)
  case (3 a es f out)
  show ?case
  proof (cases a)
    case (Moved n)
    show ?thesis
    proof (cases "read_chunk n f = []")
      case True
      then show ?thesis using Moved by simp
    next
      case False
      let ?k = "length (read_chunk n f)"
      have le: "?k \<le> length (drop (file_pos f) (file_bytes f))" by (simp add: read_chunk_def)
      have pos: "0 < ?k" using False by simp
      have "length (filter is_progress (Answer a # es)) \<le> Suc (length (filter is_progress es))" by simp
      moreover have "length (drop (file_pos f + ?k) (file_bytes f)) + ?k = length (drop (file_pos f) (file_bytes f))"
        using le by simp
      ultimately have "2 * length (drop (file_pos f + ?k) (file_bytes f)) + ?k < length (filter is_progress es)"
        using "3.prems"(3) pos by linarith
      then show ?thesis using "3.IH"(2) [OF Moved refl False] "3.prems" Moved False by (simp add: Let_def)
    qed
  qed (use 3 in simp_all)
next
  case (4 a es x pend f out)
  show ?case
  proof (cases a)
    case (Moved n)
    then show ?thesis using 4 by (cases n) auto
  qed (use 4 in simp_all)
qed simp_all

text \<open>Every path of the command gives back what it opened.\<close>

lemma cmd_get_photo_balanced:
  assumes "cmd_get_photo env f l = Some (n, out, f2, l')" "ledger l = Some R"
  shows "ledger l' = Some R"
  using assms
  by (auto simp: cmd_get_photo_def Let_def ledger_append_steps simp del: ledger_snoc ledger_snoc2
      split: if_splits option.splits)

lemma call_simple_balanced:
  assumes "call_simple created appended called l = (r, l')" "ledger l = Some R"
  shows "ledger l' = Some R"
  using assms
  by (auto simp: call_simple_def Let_def ledger_append_steps simp del: ledger_snoc ledger_snoc2 split: if_splits)

lemma cli_main_balanced:
  assumes "cli_main opened simple env args f [] = Some (code, out, l')"
  shows "ledger l' = Some {#}"
proof -
  have bus: "ledger ([Acquire (Heap ''bus'')]) = Some {#Heap ''bus''#}"
    "ledger ([Acquire (Heap ''bus''), Release (Heap ''bus'')]) = Some {#}"
    by (simp_all add: ledger_def)
  show ?thesis
    using assms bus(2) cmd_get_photo_balanced [OF _ bus(1)] call_simple_balanced [OF _ bus(1)]
    by (auto simp: cli_main_def Let_def ledger_append_steps split: if_splits option.splits cli_request.splits prod.splits)
qed

lemma cmd_get_photo_copied:
  assumes "cmd_get_photo env f l = Some (0, out, f2, l')"
  shows "copy_loop (cli_events env) [] (f\<lparr>file_pos := 0\<rparr>) [] = Some (0, f2, out)"
  using assms by (auto simp: cmd_get_photo_def Let_def split: if_splits option.splits)

lemma cmd_get_photo_copies:
  assumes "0 \<le> cli_call env" "0 \<le> cli_read env" "0 \<le> cli_open env" "0 \<le> cli_seek env"
    and "copy_loop (cli_events env) [] (f\<lparr>file_pos := 0\<rparr>) [] = Some (0, f2, out)"
  shows "\<exists>l'. cmd_get_photo env f l = Some (0, out, f2, l')"
  using assms by (simp add: cmd_get_photo_def Let_def)

text \<open>
  C37. A photo is copied byte for byte. Let nobody else move the offset of the shared open file while
  the client copies: a second delivery of the same photo in that time rewinds it, and then even a
  complete copy can be corrupt (lemma \<open>shared_offset_corrupts\<close>). Then, however libcurl cuts the
  download and however the writes and reads of both processes are split or interrupted, and
  wherever earlier readers left the offset before the delivery, a copy the client reports as
  complete is exactly the body the server sent, and the client gives back what it opened. The copy
  completes when the call of the service, reading its reply, opening the output and seeking succeed, no
  read or write fails, and the system goes on moving data: more than two moves for each byte are
  never needed.
\<close>

theorem photo_copied_intact:
  assumes "fetch_img_bytes mfd pieces complete code rewind = Some (r, closes, f0)" "0 \<le> r"
    and "file_bytes f = file_bytes f0" "reply_with_fd seek d meta f = (Photo_Reply d m, g)"
    and "undisturbed (cli_events env)" "ledger l = Some R"
  shows "(\<forall>n out f2 l'. cmd_get_photo env g l = Some (n, out, f2, l') \<longrightarrow>
        ledger l' = Some R \<and> (n = 0 \<longrightarrow> out = concat (map fst pieces) \<and> file_bytes f2 = file_bytes f))
    \<and> (0 \<le> cli_call env \<and> 0 \<le> cli_read env \<and> 0 \<le> cli_open env \<and> 0 \<le> cli_seek env
        \<and> Answer Failed_Call \<notin> set (cli_events env)
        \<and> 2 * length (concat (map fst pieces)) < length (filter is_progress (cli_events env)) \<longrightarrow>
        (\<exists>out f2 l'. cmd_get_photo env g l = Some (0, out, f2, l')))"
proof -
  have body: "file_bytes f = concat (map fst pieces)" using fetch_img_bytes_content [OF assms(1,2)] assms(3) by simp
  have g: "g = f\<lparr>file_pos := 0\<rparr>" using assms(4) by (auto simp: reply_with_fd_def split: if_splits)
  have 1: "out = concat (map fst pieces) \<and> file_bytes f2 = file_bytes f"
    if "cmd_get_photo env g l = Some (0, out, f2, l')" for out f2 l'
    using copy_loop_copies [OF cmd_get_photo_copied [OF that] assms(5)] body by (simp add: g)
  have 2: "\<exists>f' out'. copy_loop (cli_events env) [] (g\<lparr>file_pos := 0\<rparr>) [] = Some (0, f', out')"
    if "Answer Failed_Call \<notin> set (cli_events env)"
      "2 * length (concat (map fst pieces)) < length (filter is_progress (cli_events env))"
    by (rule copy_loop_returns [OF assms(5) that(1)]) (use that(2) body in \<open>simp add: g\<close>)
  show ?thesis using 1 2 cmd_get_photo_balanced [OF _ assms(6)] cmd_get_photo_copies by blast
qed

text \<open>The photo \<open>[1, 2, 3]\<close>, downloaded in two pieces and copied with interrupted calls.\<close>

definition small_photo :: "(u8 list \<times> sys_answer list) list" where
  "small_photo = [([1, 2], [Moved 1, Moved 1]), ([3], [Moved 1])]"

definition small_copy :: cli_env where
  "small_copy = \<lparr>cli_call = 1, cli_read = 1, cli_open = 5, cli_seek = 0,
     cli_events = map Answer [Moved 2, Interrupted, Moved 1, Moved 1, Moved 2, Moved 1, Moved 1, Moved 1]\<rparr>"

lemma small_photo_fetched:
  "fetch_img_bytes 7 small_photo True 200 True = Some (7, [], \<lparr>file_bytes = [1, 2, 3], file_pos = 0\<rparr>)"
  by (simp add: fetch_img_bytes_def fetch_img_into_fd_def small_photo_def Let_def)

theorem photo_copied_intact_witness:
  "\<exists>out f2 l'. cmd_get_photo small_copy \<lparr>file_bytes = [1, 2, 3], file_pos = 0\<rparr> [] = Some (0, out, f2, l')"
  by (rule mp [OF conjunct2 [OF photo_copied_intact [OF small_photo_fetched,
        where f = "\<lparr>file_bytes = [1, 2, 3], file_pos = 3\<rparr>" and seek = 0 and d = 7 and meta = "Some ''{}''"
          and R = "{#}"]]])
    (simp_all add: reply_with_fd_def small_copy_def undisturbed_def small_photo_def)

text \<open>
  The offset belongs to every holder of the photo: asking for the previous photo again rewinds
  it under a client that is still copying, whose copy is then reported complete and is not the
  photo.
\<close>

lemma redelivery_rewinds:
  assumes "pp_cache_pop_prev dup c = (Some (d, meta), c')" "0 \<le> seek"
  shows "\<exists>r l'. method_get_prev_photo ofd dup seek c files l = (r, c', files(ofd d := (files (ofd d))\<lparr>file_pos := 0\<rparr>), l')"
  using assms by (auto simp: method_get_prev_photo_def deliver_photo_def reply_with_fd_def)

lemma shared_offset_corrupts:
  "copy_loop [Answer (Moved 2), Answer (Moved 2), Rewound_By_Other, Answer (Moved 3), Answer (Moved 3), Answer (Moved 1)]
     [] \<lparr>file_bytes = [1, 2, 3], file_pos = 0\<rparr> [] = Some (0, \<lparr>file_bytes = [1, 2, 3], file_pos = 3\<rparr>, [1, 2, 1, 2, 3])"
  by (simp add: read_chunk_def COPY_BUF_def Let_def)

text \<open>A method that found a photo gives back the descriptor the cache lent it, also when it fails.\<close>

lemma get_photo_gives_back:
  assumes "method_get_photo ofd dup seek wakes c files l = Some (r, c', files', l')" "ledger l = Some R"
  shows "ledger l' = Some R"
  using assms
  by (auto simp: method_get_photo_def deliver_photo_def ledger_append_steps simp del: ledger_snoc ledger_snoc2
      split: option.splits pop_result.splits prod.splits)

text \<open>A size printed in decimal with an \<open>x\<close> between is read back.\<close>

lemma scan_size_prints:
  assumes "w \<le> 4294967295" "h \<le> 4294967295"
  shows "scan_size (decimal w @ CHR ''x'' # decimal h) = Some (of_nat w, of_nat h)"
proof -
  have "decimal h \<noteq> []" using decimal_is_number [of h] unfolding is_number_def by blast
  then have "[] \<noteq> decimal h" by metis
  then show ?thesis
    using strtoul_number_then [OF decimal_is_number, of w "CHR ''x''" "decimal h"]
      strtoul_number [OF decimal_is_number, of h] assms
    by (simp add: scan_size_def digits_value_decimal c_isdigit_def)
qed

end
