(* ===== verification/Gpio_Mon.thy ===== *)
theory Gpio_Mon
  imports C_Strings Ledger
begin

text \<open>
  The pin monitor (\<^verbatim>\<open>gpiomon/main.c\<close>): its arguments, the sampling loop and what it prints, and the
  memory it maps. The input register is sampled once a second; what it held is the input of the
  model, and the log of system calls its output.
\<close>

section \<open>Arguments\<close>

definition GPIO_PINS :: nat where "GPIO_PINS = 32"

definition GPIO_MEM_SZ :: nat where "GPIO_MEM_SZ = 4096"

record monitor_opts =
  update_in_place :: bool
  log_change :: bool
  monitor_pin :: int

text \<open>The loop that is to check for digits moves past each character before it is known to be one.\<close>

fun skip_digits :: "string \<Rightarrow> string" where
  "skip_digits [] = []"
| "skip_digits (c # s) = (if c_isdigit c then skip_digits s else s)"

definition pin_argument :: "string \<Rightarrow> int option" where
  "pin_argument s =
     (let is_num = (skip_digits s = []); pin = strtol s
      in if is_num \<and> 0 \<le> pin \<and> pin < int GPIO_PINS then Some pin else None)"

text \<open>The settings, or \<open>None\<close> when help was asked for.\<close>

fun parse_args :: "string list \<Rightarrow> monitor_opts \<Rightarrow> monitor_opts option" where
  "parse_args [] o1 = Some o1"
| "parse_args (a # args) o1 =
     (if a = ''--update_in_place'' \<or> a = ''-u'' then parse_args args (o1\<lparr>update_in_place := True\<rparr>)
      else if a = ''--log_change'' \<or> a = ''-l'' then parse_args args (o1\<lparr>log_change := True\<rparr>)
      else if a = ''-h'' \<or> a = ''--help'' then None
      else parse_args args (case pin_argument a of None \<Rightarrow> o1 | Some p \<Rightarrow> o1\<lparr>monitor_pin := p\<rparr>))"

definition no_opts :: monitor_opts where
  "no_opts = \<lparr>update_in_place = False, log_change = False, monitor_pin = - 1\<rparr>"

section \<open>Sampling\<close>

text \<open>A pin as printed: its number, its level, and whether it is marked as changed.\<close>

record cell =
  cell_pin :: nat
  level :: bool
  marked :: bool

datatype line_end = Newline | Carriage_Return

record frame =
  frame_no :: u32
  frame_pin :: "int option"
  cells :: "cell list"
  frame_end :: line_end

definition pin_bit :: "u32 \<Rightarrow> nat \<Rightarrow> bool" where
  "pin_bit reg i \<longleftrightarrow> reg AND push_bit i 1 \<noteq> 0"

definition pin_range :: "monitor_opts \<Rightarrow> nat list" where
  "pin_range o1 =
     (if monitor_pin o1 \<noteq> - 1 then [nat (monitor_pin o1)..<nat (monitor_pin o1) + 1] else [0..<GPIO_PINS])"

definition sample :: "monitor_opts \<Rightarrow> u32 \<Rightarrow> u32 \<Rightarrow> u32 \<Rightarrow> frame" where
  "sample o1 cnt prev reg =
     (let cs = map (\<lambda>i. \<lparr>cell_pin = i, level = pin_bit reg i, marked = (pin_bit reg i \<noteq> pin_bit prev i)\<rparr>) (pin_range o1);
          change_detected = list_ex marked cs
      in \<lparr>frame_no = cnt,
          frame_pin = (if monitor_pin o1 \<noteq> - 1 then Some (monitor_pin o1) else None),
          cells = cs,
          frame_end = (if \<not> update_in_place o1 then Newline
                       else if log_change o1 \<and> change_detected then Newline else Carriage_Return)\<rparr>)"

text \<open>The loop over the register values it reads until it is interrupted.\<close>

fun monitor :: "monitor_opts \<Rightarrow> u32 \<Rightarrow> u32 \<Rightarrow> u32 list \<Rightarrow> frame list" where
  "monitor o1 cnt prev [] = []"
| "monitor o1 cnt prev (reg # regs) = sample o1 cnt prev reg # monitor o1 (cnt + 1) reg regs"

section \<open>The program\<close>

record mon_env =
  me_open :: int
  me_mmap :: "u32 option"
  me_regs :: "u32 list"

datatype mon_result = Help | Failed | Monitored monitor_opts "frame list"

definition mon_main :: "mon_env \<Rightarrow> string list \<Rightarrow> io list \<Rightarrow> int \<times> mon_result \<times> io list" where
  "mon_main env args l =
     (case parse_args args no_opts of
        None \<Rightarrow> (0, Help, l)
      | Some o1 \<Rightarrow>
          if me_open env < 0 then (1, Failed, l)
          else
            let l1 = l @ [Acquire (Fd (me_open env))]
            in (case me_mmap env of
                  None \<Rightarrow> (1, Failed, l1 @ [Release (Fd (me_open env))])
                | Some addr \<Rightarrow>
                    (0, Monitored o1 (monitor o1 0 0 (me_regs env)),
                     l1 @ [Acquire (Mapped addr GPIO_MEM_SZ)] @ replicate (length (me_regs env)) (Slept 1000)
                       @ [Release (Mapped addr GPIO_MEM_SZ), Release (Fd (me_open env))])))"

section \<open>What is shown\<close>

text \<open>The register value before the \<open>n\<close>-th sample; the monitor takes all pins to be low at first.\<close>

definition before :: "u32 list \<Rightarrow> nat \<Rightarrow> u32" where
  "before regs n = (0 # regs) ! n"

lemma monitor_frame:
  "n < length regs \<Longrightarrow> monitor o1 cnt prev regs ! n = sample o1 (cnt + of_nat n) ((prev # regs) ! n) (regs ! n)"
proof (induction regs arbitrary: n cnt prev)
  case (Cons reg regs)
  then show ?case by (cases n) (simp_all add: ac_simps)
qed simp

lemma monitor_length [simp]: "length (monitor o1 cnt prev regs) = length regs"
  by (induction regs arbitrary: cnt prev) simp_all

lemma pin_bit_iff: "pin_bit reg i \<longleftrightarrow> bit reg i"
  unfolding pin_bit_def using and_exp_eq_0_iff_not_bit [of reg i] by (simp add: push_bit_of_1)

lemma skip_number: "is_number s \<Longrightarrow> skip_digits s = []"
  proof -
  have "list_all c_isdigit s \<Longrightarrow> skip_digits s = []" by (induction s) auto
  then show "is_number s \<Longrightarrow> skip_digits s = []" by (simp add: is_number_def)
qed

text \<open>A pin number is taken for what it says; what is not one is not always refused.\<close>

lemma pin_argument_number: "p < 32 \<Longrightarrow> pin_argument (decimal p) = Some (int p)"
  by (simp add: pin_argument_def skip_number strtol_number decimal_is_number digits_value_decimal GPIO_PINS_def)

lemma pin_argument_accepts:
  "pin_argument ''x'' = Some 0" "pin_argument '''' = Some 0" "pin_argument ''1a'' = Some 1" "pin_argument ''ab'' = None"
  by (simp_all add: pin_argument_def strtol_def c_isdigit_def c_isspace_def GPIO_PINS_def Let_def)

text \<open>The last pin given is the one monitored.\<close>

lemma parse_args_pin:
  assumes "parse_args args o1 = Some o2" "p < 32"
  shows "parse_args (args @ [decimal p]) o1 = Some (o2\<lparr>monitor_pin := int p\<rparr>)"
  using assms(1)
proof (induction args o1 rule: parse_args.induct)
  case (1 o1)
  have n: "is_number (decimal p)" by (rule decimal_is_number)
  then have "decimal p \<noteq> CHR ''-'' # s" for s using digit_is_plain(2) by (force simp: is_number_def)
  then show ?case using 1 by (simp add: pin_argument_number [OF assms(2)])
qed (auto split: if_splits)

definition pin_cell :: "monitor_opts \<Rightarrow> frame \<Rightarrow> nat \<Rightarrow> cell" where
  "pin_cell o1 fr i = cells fr ! (if monitor_pin o1 = - 1 then i else 0)"

definition pins_shown :: "monitor_opts \<Rightarrow> nat set" where
  "pins_shown o1 = set (pin_range o1)"

lemma sample_cell:
  assumes "i \<in> pins_shown o1"
  shows "pin_cell o1 (sample o1 cnt prev reg) i
     = \<lparr>cell_pin = i, level = bit reg i, marked = (bit reg i \<noteq> bit prev i)\<rparr>"
  using assms by (auto simp: pin_cell_def pins_shown_def sample_def Let_def pin_range_def pin_bit_iff split: if_splits)

lemma sample_overwritten:
  assumes "i \<in> pins_shown o1" "log_change o1" "frame_end (sample o1 cnt prev reg) = Carriage_Return"
  shows "\<not> marked (pin_cell o1 (sample o1 cnt prev reg) i)"
proof -
  have "pin_cell o1 (sample o1 cnt prev reg) i \<in> set (cells (sample o1 cnt prev reg))"
    unfolding sample_cell [OF assms(1)] using assms(1) by (simp add: sample_def Let_def pins_shown_def pin_bit_iff)
  moreover have "\<not> list_ex marked (cells (sample o1 cnt prev reg))"
    using assms(2,3) by (simp add: sample_def Let_def split: if_splits)
  ultimately show ?thesis by (simp only: list_ex_iff) blast
qed

lemma count_changes:
  assumes "n < length regs"
  shows "bit (regs ! n) i \<longleftrightarrow>
     bit prev i \<noteq> odd (length (filter (\<lambda>m. bit (regs ! m) i \<noteq> bit ((prev # regs) ! m) i) [0..<Suc n]))"
  using assms
proof (induction n)
  case (Suc n)
  then show ?case by (auto simp del: upt_Suc simp: upt_Suc_append)
qed auto

text \<open>
  What the monitor prints: in every frame each pin asked for is shown at its level in that sample
  and marked when the level differs from the sample before (low before the first), so that the
  marks alone give back the levels; and when lines are overwritten with changes logged, only
  frames without a change are overwritten.
\<close>

theorem monitor_shows_pins:
  assumes "mon_main env args l = (code, Monitored o1 frames, l')" "n < length (me_regs env)" "i \<in> pins_shown o1"
  shows "length frames = length (me_regs env)
     \<and> pin_cell o1 (frames ! n) i = \<lparr>cell_pin = i, level = bit (me_regs env ! n) i,
         marked = (bit (me_regs env ! n) i \<noteq> bit (before (me_regs env) n) i)\<rparr>
     \<and> (level (pin_cell o1 (frames ! n) i) \<longleftrightarrow>
         odd (length (filter (\<lambda>m. marked (pin_cell o1 (frames ! m) i)) [0..<Suc n])))
     \<and> (log_change o1 \<and> frame_end (frames ! n) = Carriage_Return \<longrightarrow> \<not> marked (pin_cell o1 (frames ! n) i))"
proof -
  have fr: "frames = monitor o1 0 0 (me_regs env)"
    using assms(1) by (auto simp: mon_main_def Let_def split: option.splits if_splits)
  have cell: "pin_cell o1 (frames ! m) i = \<lparr>cell_pin = i, level = bit (me_regs env ! m) i,
         marked = (bit (me_regs env ! m) i \<noteq> bit (before (me_regs env) m) i)\<rparr>" if "m < length (me_regs env)" for m
    using that by (simp add: fr monitor_frame sample_cell [OF assms(3)] before_def)
  have marks: "filter (\<lambda>m. marked (pin_cell o1 (frames ! m) i)) [0..<Suc n]
      = filter (\<lambda>m. bit (me_regs env ! m) i \<noteq> bit ((0 # me_regs env) ! m) i) [0..<Suc n]"
    using assms(2) cell by (intro filter_cong) (auto simp: before_def simp del: upt_Suc)
  have "level (pin_cell o1 (frames ! n) i) = bit (me_regs env ! n) i" using cell [OF assms(2)] by simp
  also have "\<dots> = odd (length (filter (\<lambda>m. bit (me_regs env ! m) i \<noteq> bit ((0 # me_regs env) ! m) i) [0..<Suc n]))"
    using count_changes [OF assms(2), of i 0] by (simp only: bit_0_eq bot_apply bot_bool_def not_False_eq_True) blast
  finally have 1: "level (pin_cell o1 (frames ! n) i) \<longleftrightarrow>
         odd (length (filter (\<lambda>m. marked (pin_cell o1 (frames ! m) i)) [0..<Suc n]))"
    by (simp only: marks)
  have 2: "\<not> marked (pin_cell o1 (frames ! n) i)" if "log_change o1" "frame_end (frames ! n) = Carriage_Return"
    using that sample_overwritten [OF assms(3)] assms(2) by (simp add: fr monitor_frame)
  show ?thesis using 1 2 cell [OF assms(2)] by (simp add: fr)
qed

text \<open>Whatever the arguments and the system say, the descriptor and the mapping are given back.\<close>

theorem monitor_gives_back:
  assumes "mon_main env args l = (code, res, l')" "ledger l = Some R"
  shows "ledger l' = Some R \<and> (code = 0 \<longleftrightarrow> res \<noteq> Failed)"
proof -
  have "foldl ledger_step (Some Q) (replicate k (Slept 1000)) = Some Q" for Q k by (induction k) auto
  then show ?thesis
    using assms by (auto simp: mon_main_def Let_def ledger_append_steps simp del: ledger_snoc ledger_snoc2
        split: option.splits if_splits)
qed

end
