(* ===== verification/Screen_Tools.thy ===== *)
theory Screen_Tools
  imports Screen C_Strings
begin

text \<open>
  The command line tools around the screen: showing one image (\<^verbatim>\<open>show-img/main.c\<close>), the test
  pattern (\<^verbatim>\<open>drm-render-test/main.c\<close>) and switching the display (\<^verbatim>\<open>display-ctrl/main.c\<close>). They are
  clients of the display manager; the lease, the decoder, the renderer and the daemon are those
  of the other theories. Leaving a buffer is the value \<open>None\<close>.
\<close>

section \<open>Showing an image\<close>

definition show_options :: option_spec where
  "show_options c = (if c = CHR ''r'' \<or> c = CHR ''i'' then Some True else None)"

definition rotation_arg :: "int \<Rightarrow> rotation option" where
  "rotation_arg deg =
     (if deg = 0 then Some ROT_0 else if deg = 90 then Some ROT_90
      else if deg = 180 then Some ROT_180 else if deg = 270 then Some ROT_270 else None)"

fun show_option :: "char \<times> string \<Rightarrow> rotation \<times> interpolation \<Rightarrow> (rotation \<times> interpolation) option" where
  "show_option (c, arg) (turn, interp) =
     (if c = CHR ''r'' then map_option (\<lambda>t. (t, interp)) (rotation_arg (atoi arg))
      else if c = CHR ''i'' then
        (if arg = ''nearest'' then Some (turn, INTERP_NEAREST)
         else if arg = ''bilinear'' then Some (turn, INTERP_BILINEAR) else None)
      else None)"

text \<open>The image to show and how, unless the arguments are refused.\<close>

definition show_args :: "string list \<Rightarrow> (rotation \<times> interpolation \<times> string) option" where
  "show_args args =
     (case getopt show_options args of
        (found, operands) \<Rightarrow>
          (case fold_opt show_option found (ROT_0, INTERP_BILINEAR) of
             None \<Rightarrow> None
           | Some (turn, interp) \<Rightarrow> (case operands of [] \<Rightarrow> None | path # _ \<Rightarrow> Some (turn, interp, path))))"

record show_env =
  se_client :: client_env
  se_answer :: lease_answer
  se_file :: "string \<Rightarrow> fd option"
  se_jpeg :: jpeg_env

text \<open>
  From the lease to the picture: what remains to be given back is the lease client. The log has
  the opening of the file and the block of the decoded image.
\<close>

definition show_leased ::
  "(real \<Rightarrow> real) \<Rightarrow> show_env \<Rightarrow> rotation \<times> interpolation \<times> string \<Rightarrow> fb_info \<Rightarrow> frame_buffer \<Rightarrow> io list
     \<Rightarrow> (bool \<times> frame_buffer \<times> io list) option" where
  "show_leased rnd env request i fb l =
     (case request of (turn, interp, path) \<Rightarrow>
        (case jpeg_load (se_jpeg env) (se_file env path) (fb_width i) (fb_height i) of
           None \<Rightarrow> None
         | Some (loaded, closes) \<Rightarrow>
             let l1 = l @ (case se_file env path of None \<Rightarrow> [] | Some f \<Rightarrow> [io.Acquire (Fd f)]) @ map (\<lambda>f. io.Release (Fd f)) closes
             in (case loaded of
                   None \<Rightarrow> Some (False, fb, l1)
                 | Some img \<Rightarrow>
                     map_option (\<lambda>fb'. (True, fb', l1 @ [io.Acquire (Heap ''image''), io.Release (Heap ''image'')]))
                       (img_render rnd fb (fb_width i) (fb_height i) (fb_stride i)
                          (img_pixels img) (img_width img) (img_height img) turn interp))))"

text \<open>\<^verbatim>\<open>main\<close>: the exit code, the frame buffer as it was when the lease was returned, and the log.\<close>

definition show_main ::
  "(real \<Rightarrow> real) \<Rightarrow> show_env \<Rightarrow> string list \<Rightarrow> frame_buffer \<Rightarrow> io list \<Rightarrow> (int \<times> frame_buffer \<times> io list) option" where
  "show_main rnd env args fb l =
     (case show_args args of
        None \<Rightarrow> Some (1, fb, l)
      | Some request \<Rightarrow>
          (case drm_mgr_init (se_client env) l of
             (None, l1) \<Rightarrow> Some (1, fb, l1)
           | (mgr, l1) \<Rightarrow>
               (case drm_mgr_acquire_fb (se_client env) (se_answer env) mgr l1 of
                  (addr, filled, mgr', l2) \<Rightarrow>
                    if addr = 0 then Some (1, fb, drm_mgr_free mgr' l2)
                    else
                      (case filled of None \<Rightarrow> None | Some i \<Rightarrow>
                        (case show_leased rnd env request i fb l2 of
                           None \<Rightarrow> None
                         | Some (ok, fb', l3) \<Rightarrow>
                             (case drm_mgr_release_fb mgr' l3 of
                                None \<Rightarrow> None
                              | Some (m, l4) \<Rightarrow> Some (if ok then 0 else 1, fb', drm_mgr_free (Some m) l4)))))))"

section \<open>The test pattern\<close>

definition fill_color :: "frame_buffer \<Rightarrow> u32 \<Rightarrow> u32 \<Rightarrow> u32 \<Rightarrow> u32 \<Rightarrow> frame_buffer option" where
  "fill_color fb width height stride color =
     fold_opt (\<lambda>y. fold_opt (\<lambda>x. store_px (unat (of_nat y * stride) + 4 * x) color) [0..<unat width])
       [0..<unat height] fb"

definition test_colors :: "u32 list" where
  "test_colors = [0x00FF0000, 0x0000FF00, 0x000000FF, 0x00FFFF00, 0x00FF00FF, 0x0000FFFF]"

text \<open>The frames shown until the tool is interrupted; \<open>i\<close> counts them.\<close>

fun test_frames :: "fb_info \<Rightarrow> u32 \<Rightarrow> nat \<Rightarrow> frame_buffer \<Rightarrow> frame_buffer list option" where
  "test_frames fi i 0 fb = Some []"
| "test_frames fi i (Suc n) fb =
     (case fill_color fb (fb_width fi) (fb_height fi) (fb_stride fi) (test_colors ! (unat i mod length test_colors)) of
        None \<Rightarrow> None
      | Some fb' \<Rightarrow> map_option ((#) fb') (test_frames fi (i + 1) n fb'))"

definition test_main ::
  "client_env \<Rightarrow> lease_answer \<Rightarrow> nat \<Rightarrow> frame_buffer \<Rightarrow> io list \<Rightarrow> (int \<times> frame_buffer list \<times> io list) option" where
  "test_main env answer n fb l =
     (case drm_mgr_init env l of
        (None, l1) \<Rightarrow> Some (1, [], l1)
      | (mgr, l1) \<Rightarrow>
          (case drm_mgr_acquire_fb env answer mgr l1 of
             (addr, filled, mgr', l2) \<Rightarrow>
               if addr = 0 then Some (1, [], drm_mgr_free mgr' l2)
               else
                 (case filled of None \<Rightarrow> None | Some i \<Rightarrow>
                   (case test_frames i 0 n fb of
                      None \<Rightarrow> None
                    | Some shots \<Rightarrow>
                        (case drm_mgr_release_fb mgr' l2 of
                           None \<Rightarrow> None
                         | Some (m, l3) \<Rightarrow> Some (0, shots, drm_mgr_free (Some m) l3))))))"

section \<open>Switching the display\<close>

definition method_status :: "display_mgr \<Rightarrow> string" where
  "method_status m = (if display_on m then ''on'' else ''off'')"

record ctl_env =
  ctl_open :: int
  ctl_delivered :: bool
  ctl_called :: int
  ctl_read :: int

text \<open>
  The exit code, what is printed, the daemon afterwards and the log. A call that fails may have
  reached the daemon all the same.
\<close>

definition ctl_main ::
  "(u32 \<Rightarrow> u32 \<Rightarrow> bool) \<Rightarrow> ctl_env \<Rightarrow> string list \<Rightarrow> display_mgr \<Rightarrow> io list
     \<Rightarrow> int \<times> string option \<times> display_mgr \<times> io list" where
  "ctl_main accepts env args m l =
     (if args \<noteq> [''on''] \<and> args \<noteq> [''off''] \<and> args \<noteq> [''status''] then (1, None, m, l)
      else if ctl_open env < 0 then (1, None, m, l)
      else
        let l1 = l @ [io.Acquire (Heap ''bus'')]; close = io.Release (Heap ''bus'');
            reply = [io.Acquire (Heap ''reply''), io.Release (Heap ''reply''), close];
            m' = (if ctl_delivered env \<and> args \<noteq> [''status''] then set_display_on accepts (args = [''on'']) m else m)
        in if ctl_called env < 0 then (1, None, m', l1 @ [close])
           else if args = [''status''] then
             (if ctl_read env < 0 then (1, None, m', l1 @ reply) else (0, Some (method_status m), m', l1 @ reply))
           else (0, Some ''ok'', m', l1 @ reply))"

section \<open>What the tools show\<close>

text \<open>The picture of an image in a frame: its samples in the centred rectangle, black around it.\<close>

definition shows_image ::
  "(real \<Rightarrow> real) \<Rightarrow> fb_info \<Rightarrow> rotation \<Rightarrow> interpolation \<Rightarrow> jpeg_image \<Rightarrow> frame_buffer \<Rightarrow> bool" where
  "shows_image rnd i turn interp img fb \<longleftrightarrow>
     (let fw = fb_width i; fh = fb_height i; w = img_width img; h = img_height img;
          W = picture_w rnd fw fh w h turn; H = picture_h rnd fw fh w h turn;
          ox = (unat fw - W) div 2; oy = (unat fh - H) div 2
      in \<forall>y<unat fh. \<forall>x<unat fw.
           if in_picture ox W x \<and> in_picture oy H y
           then sample_px rnd (img_pixels img) w h turn interp (picture_scale rnd fw fh w h turn) (x - ox) (y - oy)
             = Some (fb_px fb (px_off (unat (fb_stride i)) y x))
           else fb_px fb (px_off (unat (fb_stride i)) y x) = 0)"

definition outside_rows :: "fb_info \<Rightarrow> nat \<Rightarrow> bool" where
  "outside_rows i off \<longleftrightarrow> (\<forall>y<unat (fb_height i). \<forall>x<unat (fb_width i). off \<noteq> px_off (unat (fb_stride i)) y x)"

lemma granted_frame_ok:
  assumes "drm_create_framebuffer accepts fenv st k = (0, dev, k')"
    and "dumb_buffer_ok (info_width (info dev)) (info_height (info dev)) fenv"
    and "target_ok (info_width (info dev))" "target_ok (info_height (info dev))"
    and "i = fb_info_of (info dev)" "fb_bytes fb = unat (fb_size i)"
  shows "fb_ok fb (fb_width i) (fb_height i) (fb_stride i)"
proof -
  note b = created_buffer [OF assms(1,2)]
  have "unat (info_size (info dev)) < 2 ^ 32" using unsigned_less [of "info_size (info dev)"] by simp
  then have "unat (info_height (info dev)) * unat (info_stride (info dev)) < 2 ^ 32" using b by (meson le_less_trans)
  moreover have "0 < unat n \<and> unat n \<le> 2 ^ 16" if "target_ok n" for n
    using that by (auto simp: target_ok_def word_le_nat_alt word_less_nat_alt)
  ultimately show ?thesis using b assms(3-6) by (simp add: fb_ok_def fb_info_of_def)
qed

definition show_picture :: "show_env \<Rightarrow> fb_info \<Rightarrow> string \<Rightarrow> jpeg_image option" where
  "show_picture env i path =
     (case jpeg_load (se_jpeg env) (se_file env path) (fb_width i) (fb_height i) of
        None \<Rightarrow> None | Some (loaded, _) \<Rightarrow> loaded)"

definition lease_mapped :: "client_env \<Rightarrow> lease_answer \<Rightarrow> io list \<Rightarrow> bool" where
  "lease_mapped env answer l \<longleftrightarrow>
     (case drm_mgr_init env l of
        (None, _) \<Rightarrow> False
      | (mgr, l1) \<Rightarrow> fst (drm_mgr_acquire_fb env answer mgr l1) \<noteq> 0)"

lemma show_leased_result:
  assumes "float_rounding rnd" "jpeg_env_ok (se_jpeg env)" "target_ok (fb_width i)" "target_ok (fb_height i)"
    and "fb_ok fb (fb_width i) (fb_height i) (fb_stride i)" "ledger l = Some R"
  shows "\<exists>ok fb' l'. show_leased rnd env (turn, interp, path) i fb l = Some (ok, fb', l') \<and> ledger l' = Some R \<and>
     (\<forall>off. outside_rows i off \<longrightarrow> fb_px fb' off = fb_px fb off) \<and>
     (case show_picture env i path of Some img \<Rightarrow> ok \<and> shows_image rnd i turn interp img fb' | None \<Rightarrow> \<not> ok \<and> fb' = fb)"
proof (cases "se_file env path")
  case None
  then show ?thesis using assms(6) by (auto simp: show_leased_def jpeg_load_def show_picture_def intro!: exI [of _ False])
next
  case (Some f)
  obtain loaded where load: "jpeg_load_file (se_jpeg env) f (fb_width i) (fb_height i) = Some (loaded, [f])"
    using jpeg_load_file_fits [OF assms(2-4) refl] by blast
  have closed: "ledger (l @ [io.Acquire (Fd f), io.Release (Fd f)]) = Some R"
    using assms(6) by (simp add: ledger_append_steps)
  show ?thesis
  proof (cases loaded)
    case None
    then show ?thesis using load closed Some by (auto simp: show_leased_def jpeg_load_def show_picture_def intro!: exI [of _ False])
  next
    case (Some img)
    have "image_ok (img_pixels img) (img_width img) (img_height img)"
      using decoded_good [OF assms(2-4)] load Some by (simp add: good_image_def)
    from img_render_result [OF assms(1) this assms(5), of turn interp]
    obtain fb' where "img_render rnd fb (fb_width i) (fb_height i) (fb_stride i)
          (img_pixels img) (img_width img) (img_height img) turn interp = Some fb'"
        "fb_bytes fb' = fb_bytes fb" "shows_image rnd i turn interp img fb'"
        "\<forall>off. outside_rows i off \<longrightarrow> fb_px fb' off = fb_px fb off"
      unfolding shows_image_def outside_rows_def Let_def by blast
    then show ?thesis using load closed Some \<open>se_file env path = Some f\<close>
      by (auto simp: show_leased_def jpeg_load_def show_picture_def ledger_append_steps intro!: exI [of _ True])
  qed
qed

text \<open>A client that asks once: refused it has only itself to free, granted it gives the lease back first.\<close>

lemma leased_once:
  assumes "drm_mgr_init env l = (Some s, l1)" "drm_mgr_acquire_fb env answer (Some s) l1 = (addr, filled, sp, l2)"
    and "maps_above_null env" "ledger l = Some R"
  shows "if addr = 0 then ledger (drm_mgr_free sp l2) = Some R
     else \<exists>Q f i. ledger l2 = Some Q \<and> filled = Some i \<and> answer = Some (f, i) \<and>
       (\<forall>l3. ledger l3 = Some Q \<longrightarrow>
          (\<exists>m l4. drm_mgr_release_fb sp l3 = Some (m, l4) \<and> ledger (drm_mgr_free (Some m) l4) = Some R))"
proof -
  have s: "s = drm_mgr_calloc" "ledger l1 = Some (R + drm_mgr_owned s)"
    using drm_mgr_init_ledger [OF assms(1,4)] by auto
  let ?base = "R + {#Heap ''drm_mgr'', Heap ''drm_mgr.bus''#}"
  have base: "ledger l1 = Some ?base" using s by (simp add: drm_mgr_owned_def)
  obtain s' where s': "sp = Some s'"
    "if addr = 0 then s' = s \<and> ledger l2 = Some ?base
     else ledger l2 = Some (?base + lease_owned s') \<and> fb_addr s' = addr \<and> holds_drm s' \<and> drm_mgr_ok s' \<and>
       (\<exists>f i. answer = Some (f, i) \<and> filled = Some i \<and> map_size s' = fb_size i)"
    using drm_mgr_acquire_fb_ledger [OF assms(2,3) base] by blast
  show ?thesis
  proof (cases "addr = 0")
    case True
    then have "ledger l2 = Some (R + drm_mgr_owned s)" "sp = Some s" using s' s(1) by (auto simp: drm_mgr_owned_def)
    then show ?thesis using True drm_mgr_free_ledger by simp
  next
    case False
    have "\<exists>m l4. drm_mgr_release_fb sp l3 = Some (m, l4) \<and> ledger (drm_mgr_free (Some m) l4) = Some R"
      if l3: "ledger l3 = Some (?base + lease_owned s')" for l3
    proof -
      obtain m l4 where r: "drm_mgr_release_fb (Some s') l3 = Some (m, l4)" using release_returns by blast
      note rel = drm_mgr_release_fb_ledger [OF r l3]
      then have "ledger l4 = Some (R + drm_mgr_owned m)" by (simp add: drm_mgr_owned_def lease_owned_def)
      then show ?thesis using r s'(1) drm_mgr_free_ledger by blast
    qed
    then show ?thesis using False s'(2) by auto
  qed
qed

text \<open>What a granted lease carries: the buffer the display manager created, mapped at its size.\<close>

definition answers_from :: "drm_state \<Rightarrow> lease_answer \<Rightarrow> frame_buffer \<Rightarrow> bool" where
  "answers_from dev answer fb \<longleftrightarrow>
     (\<forall>f i. answer = Some (f, i) \<longrightarrow> i = fb_info_of (info dev) \<and> fb_bytes fb = unat (fb_size i))"

text \<open>
  C38. One image on the screen from the command line. Whatever the arguments and however the
  lease, the file and the decoder turn out, \<^verbatim>\<open>show-img\<close> ends without leaving the mapped buffer
  and gives back the lease, the file and every block; it reports success exactly when the
  arguments were accepted, the buffer was mapped and the image was decoded, and then the
  screen shows the image turned and interpolated as asked, centred, with black around it;
  otherwise the screen is untouched, and memory outside the visible rows always is.
\<close>

theorem show_img_shows:
  assumes "drm_create_framebuffer accepts fenv st k = (0, dev, k')"
    and "dumb_buffer_ok (info_width (info dev)) (info_height (info dev)) fenv"
    and "target_ok (info_width (info dev))" "target_ok (info_height (info dev))"
    and "answers_from dev (se_answer env) fb" "maps_above_null (se_client env)" "jpeg_env_ok (se_jpeg env)"
    and "float_rounding rnd" "ledger l = Some R" and i: "i = fb_info_of (info dev)"
  shows "\<exists>code fb' l'. show_main rnd env args fb l = Some (code, fb', l') \<and> ledger l' = Some R \<and>
     (\<forall>off. outside_rows i off \<longrightarrow> fb_px fb' off = fb_px fb off) \<and>
     (case show_args args of
        None \<Rightarrow> code = 1 \<and> fb' = fb
      | Some (turn, interp, path) \<Rightarrow>
          if \<not> lease_mapped (se_client env) (se_answer env) l then code = 1 \<and> fb' = fb
          else (case show_picture env i path of
             None \<Rightarrow> code = 1 \<and> fb' = fb
           | Some img \<Rightarrow> code = 0 \<and> shows_image rnd i turn interp img fb'))"
proof (cases "show_args args")
  case None
  then show ?thesis using assms(9) by (simp add: show_main_def)
next
  case (Some request)
  note args = Some
  obtain turn interp path where req: "request = (turn, interp, path)" by (cases request)
  obtain sp l1 where ini: "drm_mgr_init (se_client env) l = (sp, l1)" by fastforce
  show ?thesis
  proof (cases sp)
    case None
    then show ?thesis using drm_mgr_init_ledger [OF ini assms(9)] ini args req
      by (simp add: show_main_def lease_mapped_def)
  next
    case (Some s)
    obtain addr filled sp' l2 where acq:
        "drm_mgr_acquire_fb (se_client env) (se_answer env) (Some s) l1 = (addr, filled, sp', l2)" by (metis prod_cases4)
    note once = leased_once [OF ini [unfolded Some] acq assms(6,9)]
    have mapped: "lease_mapped (se_client env) (se_answer env) l \<longleftrightarrow> addr \<noteq> 0"
      using ini acq Some by (simp add: lease_mapped_def)
    show ?thesis
    proof (cases "addr = 0")
      case True
      then show ?thesis using once ini acq Some args req mapped by (simp add: show_main_def)
    next
      case False
      then obtain Q f j where g: "ledger l2 = Some Q" "filled = Some j" "se_answer env = Some (f, j)"
        and returned: "\<And>l3. ledger l3 = Some Q \<Longrightarrow>
          \<exists>m l4. drm_mgr_release_fb sp' l3 = Some (m, l4) \<and> ledger (drm_mgr_free (Some m) l4) = Some R"
        using once by auto
      have j: "j = i" "fb_bytes fb = unat (fb_size i)" using assms(5) g(3) i by (auto simp: answers_from_def)
      have t: "target_ok (fb_width i)" "target_ok (fb_height i)" using assms(3,4) i by (simp_all add: fb_info_of_def)
      obtain ok fb' l3 where sl: "show_leased rnd env (turn, interp, path) i fb l2 = Some (ok, fb', l3)"
          "ledger l3 = Some Q" "\<forall>off. outside_rows i off \<longrightarrow> fb_px fb' off = fb_px fb off"
          "case show_picture env i path of Some img \<Rightarrow> ok \<and> shows_image rnd i turn interp img fb' | None \<Rightarrow> \<not> ok \<and> fb' = fb"
        using show_leased_result [OF assms(8,7) t granted_frame_ok [OF assms(1-4) i j(2)] g(1), of turn interp path]
        by blast
      obtain m l4 where rel: "drm_mgr_release_fb sp' l3 = Some (m, l4)" "ledger (drm_mgr_free (Some m) l4) = Some R"
        using returned [OF sl(2)] by blast
      have "show_main rnd env args fb l = Some (if ok then 0 else 1, fb', drm_mgr_free (Some m) l4)"
        using ini acq Some False g(2) j(1) sl(1) rel(1) args req by (simp add: show_main_def)
      then show ?thesis
        using rel(2) sl(3,4) args req mapped False by (cases "show_picture env i path") auto
    qed
  qed
qed

text \<open>The pattern is drawn on every visible pixel and nowhere else, the colours in turn.\<close>

lemma test_frames_result:
  assumes "fb_ok fb (fb_width i) (fb_height i) (fb_stride i)"
  shows "\<exists>shots. test_frames i c n fb = Some shots \<and> length shots = n \<and>
     (\<forall>j<n. (\<forall>y<unat (fb_height i). \<forall>x<unat (fb_width i).
         fb_px (shots ! j) (px_off (unat (fb_stride i)) y x) = test_colors ! (unat (c + of_nat j) mod 6)) \<and>
       (\<forall>off. outside_rows i off \<longrightarrow> fb_px (shots ! j) off = fb_px fb off))"
  using assms
proof (induction n arbitrary: c fb)
  case (Suc n)
  have six: "length test_colors = 6" by (simp add: test_colors_def)
  obtain fb' where fb': "fill_color fb (fb_width i) (fb_height i) (fb_stride i) (test_colors ! (unat c mod 6)) = Some fb'"
      "fb_bytes fb' = fb_bytes fb"
      "\<forall>y<unat (fb_height i). \<forall>x<unat (fb_width i).
         fb_px fb' (px_off (unat (fb_stride i)) y x) = test_colors ! (unat c mod 6)"
      "\<forall>off. outside_rows i off \<longrightarrow> fb_px fb' off = fb_px fb off"
    using fill_frame_result [OF Suc.prems, of "test_colors ! (unat c mod 6)"]
    unfolding fill_color_def outside_rows_def by blast
  have "fb_ok fb' (fb_width i) (fb_height i) (fb_stride i)" using fb_ok_bytes [OF Suc.prems fb'(2)] .
  then obtain shots where s: "test_frames i (c + 1) n fb' = Some shots" "length shots = n"
      "\<forall>j<n. (\<forall>y<unat (fb_height i). \<forall>x<unat (fb_width i).
         fb_px (shots ! j) (px_off (unat (fb_stride i)) y x) = test_colors ! (unat (c + 1 + of_nat j) mod 6)) \<and>
       (\<forall>off. outside_rows i off \<longrightarrow> fb_px (shots ! j) off = fb_px fb' off)"
    using Suc.IH [of fb' "c + 1"] by blast
  have "(\<forall>y<unat (fb_height i). \<forall>x<unat (fb_width i).
         fb_px ((fb' # shots) ! j) (px_off (unat (fb_stride i)) y x) = test_colors ! (unat (c + of_nat j) mod 6)) \<and>
       (\<forall>off. outside_rows i off \<longrightarrow> fb_px ((fb' # shots) ! j) off = fb_px fb off)" if "j < Suc n" for j
  proof (cases j)
    case 0
    then show ?thesis using fb'(3,4) by simp
  next
    case (Suc k)
    then have "k < n" using that by simp
    then show ?thesis using s(3) fb'(4) Suc by (simp add: ac_simps)
  qed
  then show ?case using fb'(1) s(1,2) by (simp add: six)
qed simp

theorem test_pattern_drawn:
  assumes "drm_create_framebuffer accepts fenv st k = (0, dev, k')"
    and "dumb_buffer_ok (info_width (info dev)) (info_height (info dev)) fenv"
    and "target_ok (info_width (info dev))" "target_ok (info_height (info dev))"
    and "answers_from dev answer fb" "maps_above_null env" "ledger l = Some R"
  shows "\<exists>code shots l'. test_main env answer n fb l = Some (code, shots, l') \<and> ledger l' = Some R \<and>
     (code = 0 \<longrightarrow> length shots = n \<and> (\<forall>j<n. \<forall>y<unat (info_height (info dev)). \<forall>x<unat (info_width (info dev)).
        fb_px (shots ! j) (px_off (unat (info_stride (info dev))) y x) = test_colors ! (unat (of_nat j :: u32) mod 6)))"
proof -
  obtain sp l1 where ini: "drm_mgr_init env l = (sp, l1)" by fastforce
  show ?thesis
  proof (cases sp)
    case None
    then show ?thesis using drm_mgr_init_ledger [OF ini assms(7)] ini by (simp add: test_main_def)
  next
    case (Some s)
    obtain addr filled sp' l2 where acq: "drm_mgr_acquire_fb env answer (Some s) l1 = (addr, filled, sp', l2)"
      by (metis prod_cases4)
    note once = leased_once [OF ini [unfolded Some] acq assms(6,7)]
    show ?thesis
    proof (cases "addr = 0")
      case True
      then show ?thesis using once ini acq Some by (simp add: test_main_def)
    next
      case False
      then obtain Q f i where g: "ledger l2 = Some Q" "filled = Some i" "answer = Some (f, i)"
        and returned: "\<exists>m l4. drm_mgr_release_fb sp' l2 = Some (m, l4) \<and> ledger (drm_mgr_free (Some m) l4) = Some R"
        using once by auto
      have i: "i = fb_info_of (info dev)" "fb_bytes fb = unat (fb_size i)"
        using assms(5) g(3) by (auto simp: answers_from_def)
      obtain shots where "test_frames i 0 n fb = Some shots" "length shots = n"
          "\<forall>j<n. \<forall>y<unat (fb_height i). \<forall>x<unat (fb_width i).
             fb_px (shots ! j) (px_off (unat (fb_stride i)) y x) = test_colors ! (unat (of_nat j :: u32) mod 6)"
        using test_frames_result [OF granted_frame_ok [OF assms(1-4) i], of 0 n] by auto
      moreover obtain m l4 where "drm_mgr_release_fb sp' l2 = Some (m, l4)" "ledger (drm_mgr_free (Some m) l4) = Some R"
        using returned by blast
      ultimately show ?thesis using ini acq Some False g(2) i(1) by (simp add: test_main_def fb_info_of_def)
    qed
  qed
qed

text \<open>A photo turned on its side on a panel of 1024 by 600.\<close>

definition show_example :: show_env where
  "show_example = \<lparr>
     se_client = \<lparr>ce_alloc = (\<lambda>_. True), ce_open_bus = (\<lambda>_. 0), ce_read_reply = (\<lambda>_. 1), ce_dup = (\<lambda>_ _. 6),
       ce_mmap = (\<lambda>_ _ _. Some 0x1000)\<rparr>,
     se_answer = Some (9, fb_info_of (info panel_started)),
     se_file = (\<lambda>_. Some 5), se_jpeg = jpeg_example\<rparr>"

theorem show_img_shows_witness:
  "\<exists>fb' l' img. show_main (\<lambda>x. x) show_example [''photo.jpg'', ''-r'', ''90'', ''-inearest''] \<lparr>fb_bytes = 2457600, fb_px = (\<lambda>_. 7)\<rparr> []
       = Some (0, fb', l') \<and> ledger l' = Some {#} \<and>
     shows_image (\<lambda>x. x) (fb_info_of (info panel_started)) ROT_90 INTERP_NEAREST img fb'"
proof -
  have i: "info_width (info panel_started) = 1024" "info_height (info panel_started) = 600"
      "info_size (info panel_started) = 2457600"
    by (simp_all add: panel_started_def)
  have dumb: "dumb_buffer_ok (info_width (info panel_started)) (info_height (info panel_started)) panel_fb_env"
    by (simp add: dumb_buffer_ok_def panel_fb_env_def i)
  have t: "target_ok (info_width (info panel_started))" "target_ok (info_height (info panel_started))"
    by (simp_all add: target_ok_def i)
  have a: "answers_from panel_started (se_answer show_example) \<lparr>fb_bytes = 2457600, fb_px = (\<lambda>_. 7)\<rparr>"
    by (simp add: answers_from_def show_example_def fb_info_of_def i)
  have e: "maps_above_null (se_client show_example)" "jpeg_env_ok (se_jpeg show_example)"
    by (simp_all add: maps_above_null_def show_example_def jpeg_example_ok)
  have args: "show_args [''photo.jpg'', ''-r'', ''90'', ''-inearest''] = Some (ROT_90, INTERP_NEAREST, ''photo.jpg'')"
    by (simp add: show_args_def show_options_def rotation_arg_def atoi_def strtol_def c_isspace_def c_isdigit_def)
  have m: "lease_mapped (se_client show_example) (se_answer show_example) []"
    by (simp add: lease_mapped_def show_example_def drm_mgr_init_def drm_mgr_acquire_fb_def acquire_answered_def Let_def)
  obtain img where img: "show_picture show_example (fb_info_of (info panel_started)) ''photo.jpg'' = Some img"
    using jpeg_load_file_fits [OF jpeg_example_ok t refl, of 5]
    by (auto simp: show_picture_def show_example_def jpeg_load_def fb_info_of_def jpeg_example_def)
  show ?thesis
    using show_img_shows [OF panel_create dumb t a e exact_rounding ledger_Nil refl,
        of "[''photo.jpg'', ''-r'', ''90'', ''-inearest'']"]
    by (auto simp: args m img)
qed

section \<open>What switching does\<close>

lemma ctl_main_balanced: "ledger l = Some R \<Longrightarrow> ctl_main accepts env args m l = (code, out, m', l') \<Longrightarrow> ledger l' = Some R"
  by (auto simp: ctl_main_def Let_def ledger_append_steps simp del: ledger_snoc ledger_snoc2 split: if_splits)

text \<open>A switch that was answered took effect, and the status printed is then the state of the screen.\<close>

theorem ctl_switches:
  assumes "ctl_main accepts env [word] m l = (0, out, m1, l1)" "ctl_delivered env" "word \<noteq> ''status''"
    and "ctl_main accepts env' [''status''] m1 l1 = (0, printed, m2, l2)"
    and "truthful m" "\<forall>c b. accepts c b"
  shows "printed = Some word \<and> m2 = m1 \<and> (word = ''on'' \<longrightarrow> lit (drm m2) (kms m2)) \<and> (word = ''off'' \<longrightarrow> dark (drm m2) (kms m2))"
proof -
  have w: "word = ''on'' \<or> word = ''off''" "m1 = set_display_on accepts (word = ''on'') m"
    using assms(1-3) by (auto simp: ctl_main_def Let_def split: if_splits)
  have "printed = Some (method_status m1)" "m2 = m1"
    using assms(4) by (auto simp: ctl_main_def Let_def split: if_splits)
  then show ?thesis
    using w set_display_on_fields(1) [of accepts "word = ''on''" m]
      set_display_on_truthful [OF assms(6,5), of "word = ''on''"]
    by (auto simp: method_status_def truthful_def)
qed

end
