(* ===== verification/Eink_Write.thy ===== *)
theory Eink_Write
  imports Eink C_Strings
begin

text \<open>
  Writing on the e-ink panel from the command line (\<^verbatim>\<open>eink-write/main.c\<close>): the mode the arguments
  ask for, the text put together from the operands in a buffer of fixed size, and the session
  with the panel of theory \<open>Eink\<close>. Reading past the end of the text is the value \<open>None\<close>.
\<close>

section \<open>Arguments\<close>

datatype write_mode = MODE_TEXT | MODE_WHITE | MODE_BLACK | MODE_DEMO

definition write_options :: option_spec where
  "write_options c = (if c \<in> {CHR ''w'', CHR ''b'', CHR ''d'', CHR ''h''} then Some False else None)"

text \<open>The mode of the last option, or the exit code when help is asked for or an option is unknown.\<close>

fun write_mode_of :: "(char \<times> string) list \<Rightarrow> write_mode \<Rightarrow> int + write_mode" where
  "write_mode_of [] mode = Inr mode"
| "write_mode_of ((c, _) # found) mode =
     (if c = CHR ''w'' then write_mode_of found MODE_WHITE
      else if c = CHR ''b'' then write_mode_of found MODE_BLACK
      else if c = CHR ''d'' then write_mode_of found MODE_DEMO
      else Inl (if c = CHR ''h'' then 0 else 1))"

definition TEXT_BUF :: nat where "TEXT_BUF = 1024"

definition strncat :: "string \<Rightarrow> string \<Rightarrow> nat \<Rightarrow> string" where
  "strncat s t n = s @ take n (c_string t)"

fun join_operands :: "string \<Rightarrow> bool \<Rightarrow> string list \<Rightarrow> string" where
  "join_operands s first [] = s"
| "join_operands s first (a # operands) =
     (let s1 = (if first then s else strncat s '' '' (TEXT_BUF - length s - 1))
      in join_operands (strncat s1 a (TEXT_BUF - length s1 - 1)) False operands)"

section \<open>The session\<close>

text \<open>What \<^verbatim>\<open>cairo_text_extents\<close> reports of the demo's text: width, height and the two bearings.\<close>

type_synonym extents = "real \<times> real \<times> real \<times> real"

definition demo_drawing :: "nat \<Rightarrow> nat \<Rightarrow> extents \<Rightarrow> string \<Rightarrow> cairo_op list" where
  "demo_drawing width height e built =
     (case e of (w, h, xb, yb) \<Rightarrow>
        let x = (real width - w) / 2 - xb; y = (real height - h) / 2 - yb
        in [Set_Source_Alpha 1, Select_Sans_Bold, Set_Font_Size 20, Move_To x y, Show_Text (''Built @ '' @ built),
            Set_Line_Width 2, Rectangle_At (x + xb - 10) (y + yb - 10) (w + 20) (h + 20), Stroke])"

fun mode_ops :: "extents \<Rightarrow> string \<Rightarrow> 's eink_display \<Rightarrow> string list \<Rightarrow> write_mode \<Rightarrow> eink_op list" where
  "mode_ops e built d operands MODE_WHITE = [Op_Clear]"
| "mode_ops e built d operands MODE_BLACK = [Op_Draw [Set_Source_Alpha 1, Paint], Op_Render False]"
| "mode_ops e built d operands MODE_DEMO = [Op_Draw (demo_drawing (e_width d) (e_height d) e built), Op_Render False]"
| "mode_ops e built d operands MODE_TEXT = [Op_Announce (join_operands [] True operands)]"

definition write_main ::
  "'s cairo \<Rightarrow> kernel \<Rightarrow> extents \<Rightarrow> string \<Rightarrow> string list \<Rightarrow> io list \<Rightarrow> (int \<times> io list) option" where
  "write_main C k e built args l =
     (case getopt write_options args of
        (found, operands) \<Rightarrow>
          (case write_mode_of found MODE_TEXT of
             Inl code \<Rightarrow> Some (code, l)
           | Inr mode \<Rightarrow>
               if mode = MODE_TEXT \<and> operands = [] then Some (1, l)
               else
                 (case eink_init C False None k l of
                    (None, l1) \<Rightarrow> Some (1, l1)
                  | (Some d, l1) \<Rightarrow>
                      (case eink_run C k (mode_ops e built d operands mode) d l1 of
                         None \<Rightarrow> None
                       | Some (d', l2) \<Rightarrow> Some (0, eink_delete k (Some d') l2)))))"

section \<open>The text written\<close>

fun spaced :: "string list \<Rightarrow> string" where
  "spaced [] = []"
| "spaced [a] = a"
| "spaced (a # b # operands) = a @ CHR '' '' # spaced (b # operands)"

definition no_nul :: "string \<Rightarrow> bool" where
  "no_nul s \<longleftrightarrow> CHR 0x00 \<notin> set s"

lemma c_string_no_nul: "no_nul s \<Longrightarrow> c_string s = s"
  unfolding c_string_def no_nul_def by (simp add: takeWhile_eq_all_conv) (metis)

text \<open>Appending in pieces, each cut to the room left, is appending and cutting once.\<close>

lemma strncat_cut: "no_nul t \<Longrightarrow> strncat (take 1023 s) t (TEXT_BUF - length (take 1023 s) - 1) = take 1023 (s @ t)"
  by (simp add: strncat_def TEXT_BUF_def c_string_no_nul min_def)

lemma join_more:
  "\<forall>a \<in> set operands. no_nul a \<Longrightarrow>
     join_operands (take 1023 s) False operands = take 1023 (s @ concat (map (\<lambda>a. CHR '' '' # a) operands))"
proof (induction operands arbitrary: s)
  case (Cons a operands)
  have sp: "no_nul '' ''" by (simp add: no_nul_def)
  have "join_operands (take 1023 s) False (a # operands)
      = join_operands (take 1023 (s @ CHR '' '' # a)) False operands"
    using strncat_cut [OF sp, of s] strncat_cut [of a "s @ '' ''"] Cons.prems by (simp add: Let_def)
  then show ?case using Cons.IH [of "s @ CHR '' '' # a"] Cons.prems by simp
qed simp

lemma spaced_Cons: "spaced (a # operands) = a @ concat (map (\<lambda>a. CHR '' '' # a) operands)"
  by (induction operands arbitrary: a) simp_all

lemma joined_text:
  assumes "\<forall>a \<in> set operands. no_nul a"
  shows "join_operands [] True operands = take 1023 (spaced operands)"
proof (cases operands)
  case (Cons a rest)
  then show ?thesis
    using strncat_cut [of a "[]"] join_more [of rest a] assms by (simp add: Let_def spaced_Cons)
qed simp

lemma text_mode_default: "write_mode_of found mode = Inr MODE_TEXT \<Longrightarrow> found = [] \<and> mode = MODE_TEXT"
proof (induction found mode rule: write_mode_of.induct)
  case (2 c a found mode)
  then show ?case by (auto split: if_splits)
qed simp

text \<open>
  Whatever the arguments and the kernel say, a run that ends has given the panel back, and every
  run but one that writes a text ends; a text is written as the operands with blanks between,
  cut to what the buffer holds.
\<close>

theorem write_main_ends:
  assumes "lines_have_fds k" "ledger l = Some R"
  shows "(\<forall>code l'. write_main C k e built args l = Some (code, l') \<longrightarrow> ledger l' = Some R)
    \<and> (write_main C k e built args l = None \<longrightarrow>
        (\<exists>operands d l1. getopt write_options args = ([], operands) \<and> operands \<noteq> [] \<and>
          eink_init C False None k l = (Some d, l1) \<and>
          ((\<forall>a \<in> set operands. no_nul a) \<longrightarrow> eink_quick_announce C k (take 1023 (spaced operands)) d l1 = None)))"
proof -
  obtain found operands where g: "getopt write_options args = (found, operands)" by fastforce
  obtain h l1 where i: "eink_init C False None k l = (h, l1)" by fastforce
  show ?thesis
  proof (cases "write_mode_of found MODE_TEXT")
    case (Inl code)
    then show ?thesis using g assms(2) by (simp add: write_main_def)
  next
    case (Inr mode)
    show ?thesis
    proof (cases "mode = MODE_TEXT \<and> operands = []")
      case True
      then show ?thesis using Inr g assms(2) by (simp add: write_main_def)
    next
      case asked: False
      show ?thesis
      proof (cases h)
        case None
        then have "ledger l1 = Some R" using eink_panel.failed_acquire assms i by blast
        then show ?thesis using None Inr g i asked by (auto simp: write_main_def)
      next
        case (Some d)
        let ?ops = "mode_ops e built d operands mode"
        note run = eink_session_run [OF assms i [unfolded Some], of ?ops]
        have eq: "write_main C k e built args l = (case eink_run C k ?ops d l1 of
            None \<Rightarrow> None | Some (d', l2) \<Rightarrow> Some (0, eink_delete k (Some d') l2))"
          using Some Inr g i asked by (auto simp: write_main_def)
        show ?thesis
        proof (cases "eink_run C k ?ops d l1")
          case None
          then have "mode = MODE_TEXT" using run by (cases mode) auto
          then have t: "found = []" "operands \<noteq> []" using text_mode_default Inr asked by auto
          have "eink_quick_announce C k (take 1023 (spaced operands)) d l1 = None" if "\<forall>a \<in> set operands. no_nul a"
            using None \<open>mode = MODE_TEXT\<close> joined_text [OF that] by (auto split: option.splits)
          then show ?thesis using eq None t g i Some by auto
        next
          case (Some r)
          then show ?thesis using eq run by (cases r) auto
        qed
      qed
    qed
  qed
qed

end
