(* ===== verification/Sensor_Main.thy ===== *)
theory Sensor_Main
  imports Occupancy Rpigpio
begin

text \<open>
  The life of the occupancy service: opening and closing the serial port, the transport with its
  reader thread (\<^verbatim>\<open>transport.c\<close>), the session (\<^verbatim>\<open>session.c\<close>), the UART interface (\<^verbatim>\<open>ld2410s_uart.c\<close>) and
  the sensor with its GPIO line and poller thread (\<^verbatim>\<open>ld2410s.c\<close>), each a structure around the next,
  and the service's \<^verbatim>\<open>main\<close>. What is open is accounted for in the ledger; what the open sensor
  does is theory \<open>Occupancy\<close>.
\<close>

section \<open>The serial port\<close>

text \<open>
  What the system answers, which may depend on all that was asked before: besides the kernel,
  the terminal attributes, the threads and the bus.
\<close>

record sensor_env =
  kern :: kernel
  tc_get :: "io list \<Rightarrow> int"
  tc_set :: "io list \<Rightarrow> int"
  spawns :: "io list \<Rightarrow> string \<Rightarrow> bool"
  bus_opened :: int
  bus_named :: int

definition open_serial :: "sensor_env \<Rightarrow> string \<Rightarrow> io list \<Rightarrow> fd \<times> io list" where
  "open_serial env path l =
     (let f = k_open (kern env) l path
      in if f < 0 then (- 1, l)
         else
           let l1 = l @ [Acquire (Fd f)]
           in if tc_get env l1 < 0 then (- 1, l1 @ [Release (Fd f)])
              else if tc_set env l1 < 0 then (- 1, l1 @ [Release (Fd f)])
              else (f, l1))"

section \<open>Transport, session, UART\<close>

text \<open>The transport's port and whether its reader thread runs.\<close>

record port =
  port_fd :: fd
  reader_runs :: bool

definition allocates :: "sensor_env \<Rightarrow> string \<Rightarrow> io list \<Rightarrow> bool" where
  "allocates env name l = k_alloc (kern env) l name"

definition serial_port :: "string \<Rightarrow> sensor_env \<Rightarrow> io list \<Rightarrow> port option \<times> io list" where
  "serial_port path env l =
     (case open_serial env path l of
        (f, l1) \<Rightarrow> (if f < 0 then None else Some \<lparr>port_fd = f, reader_runs = False\<rparr>, l1))"

definition stop_port :: "sensor_env \<Rightarrow> port option \<Rightarrow> io list \<Rightarrow> io list" where
  "stop_port env pp l =
     (case pp of
        None \<Rightarrow> l
      | Some p \<Rightarrow>
          l @ (if reader_runs p then [Release (Thread ''reader'')] else [])
            @ (if 0 \<le> port_fd p then [Release (Fd (port_fd p))] else []))"

definition transport_open :: "string \<Rightarrow> sensor_env \<Rightarrow> io list \<Rightarrow> port option \<times> io list" where
  "transport_open path = nested_open (\<lambda>env. allocates env ''transport'') ''transport'' (serial_port path)"

definition transport_free :: "sensor_env \<Rightarrow> port option \<Rightarrow> io list \<Rightarrow> io list" where
  "transport_free = nested_close ''transport'' stop_port"

definition transport_spawn :: "sensor_env \<Rightarrow> port \<Rightarrow> io list \<Rightarrow> int \<times> port \<times> io list" where
  "transport_spawn env p l =
     (if spawns env l ''reader'' then (0, p\<lparr>reader_runs := True\<rparr>, l @ [Acquire (Thread ''reader'')])
      else (- 1, p\<lparr>reader_runs := False\<rparr>, l))"

definition session_open :: "string \<Rightarrow> sensor_env \<Rightarrow> io list \<Rightarrow> port option \<times> io list" where
  "session_open path = nested_open (\<lambda>env. allocates env ''session'') ''session'' (transport_open path)"

text \<open>After the block is freed its \<open>debug\<close> field is read once more.\<close>

definition session_free :: "sensor_env \<Rightarrow> port option \<Rightarrow> io list \<Rightarrow> io list" where
  "session_free env pp l =
     (case pp of None \<Rightarrow> l | Some p \<Rightarrow> nested_close ''session'' transport_free env (Some p) l @ [Use (Heap ''session'')])"

definition uart_open :: "string \<Rightarrow> sensor_env \<Rightarrow> io list \<Rightarrow> port option \<times> io list" where
  "uart_open path = nested_open (\<lambda>env. allocates env ''uart'') ''uart'' (session_open path)"

definition ld2410s_uart_free :: "sensor_env \<Rightarrow> port option \<Rightarrow> io list \<Rightarrow> io list" where
  "ld2410s_uart_free = nested_close ''uart'' session_free"

section \<open>The sensor\<close>

record sensor_handle =
  sh_gpio :: "Rpigpio.gpio option"
  sh_uart :: "port option"
  sh_poller :: bool

definition sensor_close :: "sensor_env \<Rightarrow> sensor_handle option \<Rightarrow> io list \<Rightarrow> io list" where
  "sensor_close env hp l =
     (case hp of
        None \<Rightarrow> l
      | Some h \<Rightarrow>
          rpigpio_close (sh_gpio h)
            (ld2410s_uart_free env (sh_uart h) (l @ (if sh_poller h then [Release (Thread ''poller'')] else [])))
          @ [Release (Heap ''ld2410s'')])"

definition sensor_pins :: "ld2410s_config \<Rightarrow> gpio_pin list" where
  "sensor_pins cfg = [\<lparr>pin_no = sensor_report_gpio cfg, direction = RPIGPIO_INPUT, initial_value = 0\<rparr>]"

text \<open>The steps of \<^verbatim>\<open>ld2410s_init\<close> after the block was allocated.\<close>

definition open_gpio :: "sensor_env \<Rightarrow> ld2410s_config \<Rightarrow> io list \<Rightarrow> bool \<times> sensor_handle \<times> io list" where
  "open_gpio env cfg l =
     (let h = \<lparr>sh_gpio = None, sh_uart = None, sh_poller = False\<rparr>
      in if 0 \<le> sensor_report_gpio cfg
         then (case rpigpio_open (kern env) 0 (sensor_pins cfg) l of
                 (g, l1) \<Rightarrow> (g \<noteq> None, h\<lparr>sh_gpio := g\<rparr>, l1))
         else (True, h, l))"

definition open_uart :: "sensor_env \<Rightarrow> ld2410s_config \<Rightarrow> sensor_handle \<Rightarrow> io list \<Rightarrow> bool \<times> sensor_handle \<times> io list" where
  "open_uart env cfg h l =
     (if \<not> enable_uart cfg then (True, h, l)
      else (case uart_open (device cfg) env l of
              (None, l1) \<Rightarrow> (False, h, l1)
            | (Some p, l1) \<Rightarrow>
                (case transport_spawn env p l1 of (r, p1, l2) \<Rightarrow> (0 \<le> r, h\<lparr>sh_uart := Some p1\<rparr>, l2))))"

definition start_poller :: "sensor_env \<Rightarrow> sensor_handle \<Rightarrow> io list \<Rightarrow> bool \<times> sensor_handle \<times> io list" where
  "start_poller env h l =
     (if spawns env l ''poller'' then (True, h\<lparr>sh_poller := True\<rparr>, l @ [Acquire (Thread ''poller'')]) else (False, h, l))"

definition sensor_open :: "sensor_env \<Rightarrow> ld2410s_config \<Rightarrow> bool \<Rightarrow> io list \<Rightarrow> sensor_handle option \<times> io list" where
  "sensor_open env cfg has_cb l =
     (if sensor_report_gpio cfg < 0 \<and> \<not> enable_uart cfg then (None, l)
      else if \<not> allocates env ''ld2410s'' l then (None, l)
      else
        let l1 = l @ [Acquire (Heap ''ld2410s'')]
        in if \<not> has_cb then (None, l1)
           else (case open_gpio env cfg l1 of (ok1, h1, l2) \<Rightarrow>
             if \<not> ok1 then (None, sensor_close env (Some h1) l2)
             else (case open_uart env cfg h1 l2 of (ok2, h2, l3) \<Rightarrow>
               if \<not> ok2 then (None, sensor_close env (Some h2) l3)
               else (case start_poller env h2 l3 of (ok3, h3, l4) \<Rightarrow>
                 if \<not> ok3 then (None, sensor_close env (Some h3) l4) else (Some h3, l4)))))"

section \<open>The service\<close>

definition occupancy_dbus_init :: "sensor_env \<Rightarrow> io list \<Rightarrow> int \<times> io list" where
  "occupancy_dbus_init env l =
     (if bus_opened env < 0 then (- 1, l)
      else if bus_named env < 0 then (- 1, l @ [Acquire (Heap ''bus''), Release (Heap ''bus'')])
      else (0, l @ [Acquire (Heap ''bus'')]))"

text \<open>Each port is opened for its owner alone, and closing what was not opened does nothing.\<close>

definition port_owned :: "port \<Rightarrow> resource multiset" where
  "port_owned p =
     (if reader_runs p then {#Thread ''reader''#} else {#}) + (if 0 \<le> port_fd p then {#Fd (port_fd p)#} else {#})"

lemma open_serial_ledger:
  assumes "open_serial env path l = (f, l')" "ledger l = Some R"
  shows "ledger l' = Some (if f < 0 then R else R + {#Fd f#})"
  using assms
  by (auto simp: open_serial_def Let_def ledger_append_steps simp del: ledger_snoc ledger_snoc2 split: if_splits)

interpretation port_handle: device_handle "serial_port path" stop_port port_owned "\<lambda>_. True" for path
proof
  fix k l R h l'
  assume "ledger l = Some R" "serial_port path k l = (h, l')"
  then show "ledger l' = Some (R + (case h of None \<Rightarrow> {#} | Some x \<Rightarrow> port_owned x))"
    using open_serial_ledger [of k path l _ l' R]
    by (auto simp: serial_port_def port_owned_def split: prod.splits if_splits)
next
  fix k l R x
  assume "ledger l = Some (R + port_owned x)"
  then show "ledger (stop_port k (Some x) l) = Some R"
    by (auto simp: stop_port_def port_owned_def ledger_append_steps simp del: ledger_snoc ledger_snoc2)
qed (simp add: stop_port_def)

definition transport_owned :: "port \<Rightarrow> resource multiset" where
  "transport_owned p = port_owned p + {#Heap ''transport''#}"

definition session_owned :: "port \<Rightarrow> resource multiset" where
  "session_owned p = transport_owned p + {#Heap ''session''#}"

definition uart_owned :: "port \<Rightarrow> resource multiset" where
  "uart_owned p = session_owned p + {#Heap ''uart''#}"

interpretation transport_handle: device_handle "transport_open path" transport_free transport_owned "\<lambda>_. True" for path
  unfolding transport_open_def transport_free_def transport_owned_def [abs_def] by (rule port_handle.nested)

interpretation session_block: device_handle "session_open path" "nested_close ''session'' transport_free" session_owned
  "\<lambda>_. True" for path
  unfolding session_open_def session_owned_def [abs_def] by (rule transport_handle.nested)

lemma ledger_use [simp]: "ledger (l @ [Use r]) = ledger l"
  by (cases "ledger l") simp_all

interpretation session_handle: device_handle "session_open path" session_free session_owned "\<lambda>_. True" for path
proof
  fix k l R h l'
  assume "True" "ledger l = Some R" "session_open path k l = (h, l')"
  then show "ledger l' = Some (R + (case h of None \<Rightarrow> {#} | Some x \<Rightarrow> session_owned x))"
    by (rule session_block.acquire_owned)
qed (simp_all add: session_free_def session_block.release_owned)

interpretation uart_handle: device_handle "uart_open path" ld2410s_uart_free uart_owned "\<lambda>_. True" for path
  unfolding uart_open_def ld2410s_uart_free_def uart_owned_def [abs_def] by (rule session_handle.nested)

section \<open>What the sensor holds\<close>

definition held_by :: "('h \<Rightarrow> resource multiset) \<Rightarrow> 'h option \<Rightarrow> resource multiset" where
  "held_by owned h = (case h of None \<Rightarrow> {#} | Some x \<Rightarrow> owned x)"

definition sensor_parts :: "sensor_handle \<Rightarrow> resource multiset" where
  "sensor_parts h = held_by gpio_owned (sh_gpio h) + held_by uart_owned (sh_uart h)
     + (if sh_poller h then {#Thread ''poller''#} else {#})"

definition sensor_owned :: "sensor_handle \<Rightarrow> resource multiset" where
  "sensor_owned h = sensor_parts h + {#Heap ''ld2410s''#}"

lemma sensor_close_ledger:
  assumes "ledger l = Some (R + sensor_owned h)"
  shows "ledger (sensor_close env (Some h) l) = Some R"
proof -
  let ?l1 = "l @ (if sh_poller h then [Release (Thread ''poller'')] else [])"
  let ?R1 = "R + {#Heap ''ld2410s''#} + held_by gpio_owned (sh_gpio h)"
  have "ledger ?l1 = Some (?R1 + held_by uart_owned (sh_uart h))"
    using assms by (auto simp: sensor_owned_def sensor_parts_def ac_simps)
  then have "ledger (ld2410s_uart_free env (sh_uart h) ?l1) = Some ?R1"
    using uart_handle.release_held [of ?l1 ?R1 "sh_uart h" env] by (simp add: held_by_def)
  then have "ledger (rpigpio_close (sh_gpio h) (ld2410s_uart_free env (sh_uart h) ?l1)) = Some (R + {#Heap ''ld2410s''#})"
    using gpio_chip.release_held [of _ "R + {#Heap ''ld2410s''#}" "sh_gpio h"] by (simp add: held_by_def)
  then show ?thesis by (simp add: sensor_close_def)
qed

text \<open>Each step adds to the ledger what it puts into the handle, also when it fails.\<close>

lemma open_gpio_ledger:
  assumes "open_gpio env cfg l = (ok, h, l')" "lines_have_fds (kern env)" "ledger l = Some R"
  shows "ledger l' = Some (R + sensor_parts h) \<and> sh_uart h = None \<and> \<not> sh_poller h \<and>
     (ok \<longrightarrow> (sh_gpio h \<noteq> None) = (0 \<le> sensor_report_gpio cfg))"
proof (cases "0 \<le> sensor_report_gpio cfg")
  case True
  obtain g l1 where g: "rpigpio_open (kern env) 0 (sensor_pins cfg) l = (g, l1)" by fastforce
  have "ledger l1 = Some (R + held_by gpio_owned g)"
    using gpio_chip.acquire_owned [OF assms(2,3) g] by (simp add: held_by_def)
  then show ?thesis using assms(1) True g by (auto simp: open_gpio_def sensor_parts_def held_by_def)
next
  case False
  then show ?thesis using assms(1,3) by (auto simp: open_gpio_def sensor_parts_def held_by_def)
qed

lemma transport_spawn_ledger:
  assumes "transport_spawn env p l = (r, p', l')" "ledger l = Some (R + uart_owned p)" "\<not> reader_runs p"
  shows "ledger l' = Some (R + uart_owned p')"
  using assms
  by (auto simp: transport_spawn_def uart_owned_def session_owned_def transport_owned_def port_owned_def split: if_splits)

lemma uart_open_idle: "uart_open path env l = (Some p, l') \<Longrightarrow> \<not> reader_runs p"
  by (auto simp: uart_open_def session_open_def transport_open_def nested_open_def serial_port_def
      split: if_splits option.splits prod.splits)

lemma open_uart_ledger:
  assumes "open_uart env cfg h l = (ok, h', l')" "sh_uart h = None" "\<not> sh_poller h"
    and "ledger l = Some (R + sensor_parts h)"
  shows "ledger l' = Some (R + sensor_parts h') \<and> sh_gpio h' = sh_gpio h \<and> \<not> sh_poller h' \<and>
     (ok \<longrightarrow> (sh_uart h' \<noteq> None) = enable_uart cfg)"
proof (cases "enable_uart cfg")
  case True
  let ?R = "R + held_by gpio_owned (sh_gpio h)"
  have l: "ledger l = Some ?R" using assms(2-4) by (simp add: sensor_parts_def held_by_def)
  obtain u l1 where u: "uart_open (device cfg) env l = (u, l1)" by fastforce
  have l1: "ledger l1 = Some (?R + held_by uart_owned u)"
    using uart_handle.acquire_owned [OF _ l u] by (simp add: held_by_def)
  show ?thesis
  proof (cases u)
    case None
    then show ?thesis using assms True u l1 by (auto simp: open_uart_def sensor_parts_def held_by_def)
  next
    case (Some p)
    obtain r p1 l2 where s: "transport_spawn env p l1 = (r, p1, l2)" by (metis prod_cases3)
    have "ledger l2 = Some (?R + uart_owned p1)"
      using transport_spawn_ledger [OF s] l1 uart_open_idle u Some by (simp add: held_by_def)
    then show ?thesis using assms True u s Some by (auto simp: open_uart_def sensor_parts_def held_by_def)
  qed
next
  case False
  then show ?thesis using assms by (auto simp: open_uart_def)
qed

lemma start_poller_ledger:
  assumes "start_poller env h l = (ok, h', l')" "\<not> sh_poller h" "ledger l = Some (R + sensor_parts h)"
  shows "ledger l' = Some (R + sensor_parts h') \<and> sh_gpio h' = sh_gpio h \<and> sh_uart h' = sh_uart h \<and> sh_poller h' = ok"
  using assms by (auto simp: start_poller_def sensor_parts_def split: if_splits)

lemma sensor_open_steps:
  assumes "\<not> ((sensor_report_gpio cfg < 0 \<and> \<not> enable_uart cfg) \<or> \<not> allocates env ''ld2410s'' l)"
    and "open_gpio env cfg (l @ [Acquire (Heap ''ld2410s'')]) = (ok1, h1, l2)"
    and "open_uart env cfg h1 l2 = (ok2, h2, l3)" "start_poller env h2 l3 = (ok3, h3, l4)"
  shows "sensor_open env cfg True l =
      (if \<not> ok1 then (None, sensor_close env (Some h1) l2)
       else if \<not> ok2 then (None, sensor_close env (Some h2) l3)
       else if \<not> ok3 then (None, sensor_close env (Some h3) l4) else (Some h3, l4))"
proof -
  have "(sensor_report_gpio cfg < 0 \<and> \<not> enable_uart cfg) = False" "allocates env ''ld2410s'' l = True"
    using assms(1) by auto
  then show ?thesis using assms(2-4) by (simp only: sensor_open_def Let_def prod.case if_False if_True not_True_eq_False)
qed

lemma sensor_open_ledger:
  assumes "sensor_open env cfg True l = (h, l')" "lines_have_fds (kern env)" "ledger l = Some R"
  shows "ledger l' = Some (R + held_by sensor_owned h) \<and>
     (\<forall>x. h = Some x \<longrightarrow> (sh_gpio x \<noteq> None) = (0 \<le> sensor_report_gpio cfg) \<and>
        (sh_uart x \<noteq> None) = enable_uart cfg \<and> sh_poller x)"
proof (cases "(sensor_report_gpio cfg < 0 \<and> \<not> enable_uart cfg) \<or> \<not> allocates env ''ld2410s'' l")
  case True
  then have "sensor_open env cfg True l = (None, l)" unfolding sensor_open_def by (elim disjE) simp_all
  then show ?thesis using assms by (simp add: held_by_def)
next
  case False
  let ?R = "R + {#Heap ''ld2410s''#}"
  let ?l1 = "l @ [Acquire (Heap ''ld2410s'')]"
  have l1: "ledger ?l1 = Some ?R" using assms(3) by simp
  have closed: "ledger (sensor_close env (Some x) lx) = Some R" if "ledger lx = Some (?R + sensor_parts x)" for x lx
    using that by (intro sensor_close_ledger) (simp add: sensor_owned_def ac_simps)
  obtain ok1 h1 l2 where 1: "open_gpio env cfg ?l1 = (ok1, h1, l2)" by (metis prod_cases3)
  note g = open_gpio_ledger [OF 1 assms(2) l1]
  obtain ok2 h2 l3 where 2: "open_uart env cfg h1 l2 = (ok2, h2, l3)" by (metis prod_cases3)
  have u: "ledger l3 = Some (?R + sensor_parts h2)" "sh_gpio h2 = sh_gpio h1" "\<not> sh_poller h2"
      "ok2 \<Longrightarrow> (sh_uart h2 \<noteq> None) = enable_uart cfg"
    using open_uart_ledger [OF 2] g by auto
  obtain ok3 h3 l4 where 3: "start_poller env h2 l3 = (ok3, h3, l4)" by (metis prod_cases3)
  note p = start_poller_ledger [OF 3 u(3,1)]
  note eq = sensor_open_steps [OF False 1 2 3]
  show ?thesis
  proof (cases "ok1 \<and> ok2 \<and> ok3")
    case True
    then show ?thesis using assms(1) eq g u p by (auto simp: held_by_def sensor_owned_def ac_simps)
  next
    case no: False
    then have "h = None \<and> ledger l' = Some R"
      using assms(1) eq closed [of l2 h1] closed [of l3 h2] closed [of l4 h3] g u p
      by (cases ok1; cases ok2; cases ok3) auto
    then show ?thesis by (simp add: held_by_def)
  qed
qed

interpretation sensor: device_handle "\<lambda>env. sensor_open env cfg True" sensor_close sensor_owned
  "\<lambda>env. lines_have_fds (kern env)" for cfg
proof
  fix k l R h l'
  assume "lines_have_fds (kern k)" "ledger l = Some R" "sensor_open k cfg True l = (h, l')"
  then show "ledger l' = Some (R + (case h of None \<Rightarrow> {#} | Some x \<Rightarrow> sensor_owned x))"
    using sensor_open_ledger [of k cfg l h l' R] by (simp add: held_by_def)
qed (simp_all add: sensor_close_ledger, simp add: sensor_close_def)

text \<open>Freeing a session ends with a read of the block just freed.\<close>

lemma session_free_reads_freed:
  assumes "ledger l = Some (R + session_owned p)"
  shows "\<exists>l1. session_free env (Some p) l = l1 @ [Use (Heap ''session'')] \<and> ledger l1 = Some R"
  using session_block.release_owned [OF assms] by (simp add: session_free_def)

section \<open>The service\<close>

text \<open>
  \<^verbatim>\<open>main\<close> from its arguments to its exit code: the sensor's state is the one of theory \<open>Occupancy\<close>
  for the same outcomes, its parameters are applied, the loop runs until it is interrupted.
  \<open>None\<close> is an access outside a buffer in the session with the device.
\<close>

text \<open>The outcomes of the calls of \<^verbatim>\<open>ld2410s_init\<close> when it is entered with the log \<open>l\<close>.\<close>

definition fresh_uart :: uart where
  "fresh_uart = \<lparr>uart_session = \<lparr>sess_transport = transport_init True True True, resp_cmd = 0,
       resp_data = replicate TRANSPORT_MAX_DATA 0, resp_len = 0, resp_status = 0, resp_pending = False\<rparr>,
     last_vacancy_count = 0, has_user_report_cb = True, has_user_cal_cb = True\<rparr>"

lemma fresh_uart_init:
  "ld2410s_uart_init True (session_init True (Some (transport_init True True True))) True True = Some fresh_uart"
  by (simp add: ld2410s_uart_init_def session_init_def fresh_uart_def)

definition sensor_outcomes :: "sensor_env \<Rightarrow> ld2410s_config \<Rightarrow> io list \<Rightarrow> init_env" where
  "sensor_outcomes env cfg l =
     (case open_gpio env cfg (l @ [Acquire (Heap ''ld2410s'')]) of (ok1, h1, l2) \<Rightarrow>
        (case open_uart env cfg h1 l2 of (ok2, h2, l3) \<Rightarrow>
           \<lparr>calloc_ok = allocates env ''ld2410s'' l,
            gpio_open_ok = ok1,
            uart_init_result = (if fst (uart_open (device cfg) env l2) = None then None else Some fresh_uart),
            uart_start_ok = ok2,
            pthread_create_ok = fst (start_poller env h2 l3)\<rparr>))"

lemma sensor_open_agrees:
  assumes "sensor_open env cfg True l = (h, l')"
  shows "(h \<noteq> None) = (fst (ld2410s_init cfg True (sensor_outcomes env cfg l)) \<noteq> None)"
proof (cases "(sensor_report_gpio cfg < 0 \<and> \<not> enable_uart cfg) \<or> \<not> allocates env ''ld2410s'' l")
  case True
  then have "sensor_open env cfg True l = (None, l)" unfolding sensor_open_def by (elim disjE) simp_all
  moreover have "fst (ld2410s_init cfg True (sensor_outcomes env cfg l)) = None"
    using True by (auto simp: ld2410s_init_def sensor_outcomes_def split: prod.splits)
  ultimately show ?thesis using assms by simp
next
  case False
  obtain ok1 h1 l2 where 1: "open_gpio env cfg (l @ [Acquire (Heap ''ld2410s'')]) = (ok1, h1, l2)" by (metis prod_cases3)
  obtain ok2 h2 l3 where 2: "open_uart env cfg h1 l2 = (ok2, h2, l3)" by (metis prod_cases3)
  obtain ok3 h3 l4 where 3: "start_poller env h2 l3 = (ok3, h3, l4)" by (metis prod_cases3)
  have "(h \<noteq> None) = (ok1 \<and> ok2 \<and> ok3)"
    using sensor_open_steps [OF False 1 2 3] assms by (auto split: if_splits)
  moreover have "ok1" if "\<not> 0 \<le> sensor_report_gpio cfg" using 1 that by (simp add: open_gpio_def)
  moreover have "ok2 = (if enable_uart cfg then fst (uart_open (device cfg) env l2) \<noteq> None \<and> ok2 else True)"
    using 2 by (auto simp: open_uart_def split: option.splits prod.splits if_splits)
  ultimately show ?thesis
    using False 1 2 3
    by (auto simp: ld2410s_init_def sensor_outcomes_def Let_def ld2410s_uart_start_def session_start_def transport_start_def)
qed

record service_run =
  sr_stack :: "u8 list"
  sr_get :: envs
  sr_sets :: "envs list"
  sr_inputs :: "main_input list"

definition occupancy_main ::
  "sensor_env \<Rightarrow> config option \<Rightarrow> (string \<Rightarrow> u32 option) option \<Rightarrow> service_run \<Rightarrow> string list \<Rightarrow> io list
     \<Rightarrow> (int \<times> (main_input \<times> (int \<times> (u16 \<times> u8 list) list) option) list \<times> io list) option" where
  "occupancy_main env loaded desired run args l =
     (if args = [] then Some (1, [], l)
      else (case loaded of None \<Rightarrow> Some (1, [], l) | Some cfg \<Rightarrow>
        (case occupancy_dbus_init env l of (r, l1) \<Rightarrow>
           if r < 0 then Some (1, [], l1)
           else (case sensor_open env (sensor cfg) True l1 of
                (None, l2) \<Rightarrow> Some (1, [], l2 @ [Release (Heap ''bus'')])
              | (Some h, l2) \<Rightarrow> do {
                  s \<leftarrow> fst (ld2410s_init (sensor cfg) True (sensor_outcomes env (sensor cfg) l1));
                  (applied, s1, ws) \<leftarrow> apply_sensor_params s cfg desired (sr_stack run) (sr_get run) (sr_sets run);
                  let force = (2 \<le> length args \<and> args ! 1 = ''--calibrate'');
                  (c, s2, outs) \<leftarrow> main_loop cfg \<lparr>last_cal_yday = - 1, calibration_force = force\<rparr> s1 (sr_inputs run);
                  Some (0, outs, sensor_close env (Some h) l2 @ [Release (Heap ''bus'')])
                }))))"

lemma occupancy_dbus_init_ledger:
  assumes "occupancy_dbus_init env l = (r, l')" "ledger l = Some R"
  shows "ledger l' = Some (if r < 0 then R else R + {#Heap ''bus''#})"
  using assms
  by (auto simp: occupancy_dbus_init_def ledger_append_steps simp del: ledger_snoc ledger_snoc2 split: if_splits)

text \<open>
  C39. The occupancy service gives back everything it took. Whatever the arguments, the
  configuration, the kernel, the allocator, the thread library, the bus and the sensor answer,
  when \<^verbatim>\<open>main\<close> ends every descriptor, block and thread it acquired was released exactly once,
  threads joined before the blocks they use are freed; it enters its loop exactly when the
  configuration was read and the bus, the sensor's structure and every interface the
  configuration enables could be opened, and then the exit code is zero.
\<close>

theorem occupancy_main_ends:
  assumes "lines_have_fds (kern env)" "ledger l = Some R"
    and "occupancy_main env loaded desired run args l = Some (code, outs, l')"
  shows "ledger l' = Some R \<and> code \<in> {0, 1} \<and>
     (code = 0 \<longleftrightarrow> (\<exists>cfg l1 h l2. args \<noteq> [] \<and> loaded = Some cfg \<and> occupancy_dbus_init env l = (0, l1) \<and>
        sensor_open env (sensor cfg) True l1 = (Some h, l2) \<and>
        (sh_gpio h \<noteq> None) = (0 \<le> sensor_report_gpio (sensor cfg)) \<and>
        (sh_uart h \<noteq> None) = enable_uart (sensor cfg) \<and> sh_poller h))"
proof (cases "args = [] \<or> loaded = None")
  case True
  then have "occupancy_main env loaded desired run args l = Some (1, [], l)"
    by (cases "args = []") (simp_all add: occupancy_main_def)
  then have "code = 1" "l' = l" using assms(3) by simp_all
  then show ?thesis using assms(2) True by auto
next
  case False
  then obtain cfg where cfg: "loaded = Some cfg" "args \<noteq> []" by auto
  obtain r l1 where d: "occupancy_dbus_init env l = (r, l1)" by fastforce
  note dl = occupancy_dbus_init_ledger [OF d assms(2)]
  have r01: "r = 0 \<or> r < 0" using d by (auto simp: occupancy_dbus_init_def split: if_splits)
  show ?thesis
  proof (cases "r < 0")
    case True
    then have "code = 1" "l' = l1" using assms(3) cfg d by (auto simp: occupancy_main_def)
    then show ?thesis using dl True d cfg by auto
  next
    case up: False
    then have r0: "r = 0" using r01 by simp
    obtain h l2 where o: "sensor_open env (sensor cfg) True l1 = (h, l2)" by fastforce
    have held: "ledger l2 = Some (R + {#Heap ''bus''#} + held_by sensor_owned h)"
        "\<And>x. h = Some x \<Longrightarrow> (sh_gpio x \<noteq> None) = (0 \<le> sensor_report_gpio (sensor cfg)) \<and>
          (sh_uart x \<noteq> None) = enable_uart (sensor cfg) \<and> sh_poller x"
      using sensor_open_ledger [OF o assms(1)] dl up by auto
    show ?thesis
    proof (cases h)
      case None
      then have "code = 1" "l' = l2 @ [Release (Heap ''bus'')]" using assms(3) cfg d up o by (auto simp: occupancy_main_def)
      then show ?thesis using held None d o cfg by (auto simp: held_by_def)
    next
      case (Some x)
      have "code = 0" "l' = sensor_close env (Some x) l2 @ [Release (Heap ''bus'')]"
        using assms(3) cfg d up o Some by (auto simp: occupancy_main_def Let_def split: bind_splits)
      moreover have "ledger (sensor_close env (Some x) l2) = Some (R + {#Heap ''bus''#})"
        using held(1) Some by (intro sensor_close_ledger) (simp add: held_by_def)
      ultimately show ?thesis using held(2) [OF Some] d o cfg r0 Some by auto
    qed
  qed
qed

text \<open>A service with GPIO and UART, interrupted after two idle turns of its loop.\<close>

definition idle_env :: sensor_env where
  "idle_env = \<lparr>kern = willing_kernel, tc_get = (\<lambda>_. 0), tc_set = (\<lambda>_. 0), spawns = (\<lambda>_ _. True), bus_opened = 0, bus_named = 0\<rparr>"

definition both_config :: config where
  "both_config = example_config\<lparr>sensor := (sensor example_config)\<lparr>enable_uart := True, sensor_report_gpio := 17\<rparr>\<rparr>"

definition idle_run :: service_run where
  "idle_run = \<lparr>sr_stack = [], sr_get = (timeout_env, timeout_env, timeout_env), sr_sets = [],
     sr_inputs = take 2 [hd main_example, hd main_example]\<rparr>"

lemma idle_service: "map_option fst (occupancy_main idle_env (Some both_config) None idle_run [''config.json''] []) = Some 0"
  by code_simp

theorem occupancy_main_ends_witness:
  "\<exists>outs l'. occupancy_main idle_env (Some both_config) None idle_run [''config.json''] [] = Some (0, outs, l')
     \<and> ledger l' = Some {#}"
proof -
  have fds: "lines_have_fds (kern idle_env)" by (simp add: lines_have_fds_def idle_env_def willing_kernel_def)
  obtain outs l' where "occupancy_main idle_env (Some both_config) None idle_run [''config.json''] [] = Some (0, outs, l')"
    using idle_service by auto
  then show ?thesis using occupancy_main_ends [OF fds ledger_Nil] by blast
qed

end
