(* ===== verification/Bus_Service.thy ===== *)
theory Bus_Service
  imports Ledger
begin

text \<open>
  What \<^verbatim>\<open>photo-provider/dbus.c\<close> and \<^verbatim>\<open>display-mgr/dbus.c\<close> share: offering an object under a name on
  the system bus, giving it up, and the loop of \<^verbatim>\<open>main\<close> that serves it until a signal or an error.
  What sd-bus answers is a parameter.
\<close>

record offer_env =
  bus_result :: int
  object_result :: int
  request_name_result :: int

record offered =
  has_bus :: bool
  has_object :: bool

text \<open>On an error the globals keep what was obtained before it.\<close>

definition offer_object :: "offer_env \<Rightarrow> io list \<Rightarrow> int \<times> offered \<times> io list" where
  "offer_object env l =
     (if bus_result env < 0 then (- 1, \<lparr>has_bus = False, has_object = False\<rparr>, l)
      else
        let l1 = l @ [Acquire (Heap ''bus'')]
        in if object_result env < 0 then (- 1, \<lparr>has_bus = True, has_object = False\<rparr>, l1)
           else
             let l2 = l1 @ [Acquire (Heap ''object'')]
             in (if request_name_result env < 0 then - 1 else 0, \<lparr>has_bus = True, has_object = True\<rparr>, l2))"

definition withdraw_object :: "offered \<Rightarrow> io list \<Rightarrow> io list" where
  "withdraw_object o' l =
     l @ (if has_object o' then [Release (Heap ''object'')] else [])
       @ (if has_bus o' then [Release (Heap ''bus'')] else [])"

definition offered_owned :: "offered \<Rightarrow> resource multiset" where
  "offered_owned o' = (if has_object o' then {#Heap ''object''#} else {#}) + (if has_bus o' then {#Heap ''bus''#} else {#})"

section \<open>Serving\<close>

definition EINTR :: int where "EINTR = 4"

text \<open>\<^verbatim>\<open>run_once\<close> on what \<^verbatim>\<open>sd_bus_process\<close> and, if nothing was processed, \<^verbatim>\<open>sd_bus_wait\<close> return.\<close>

definition run_once :: "int \<Rightarrow> int \<Rightarrow> int" where
  "run_once r w =
     (if r < 0 then r else if 0 < r then 0 else if w < 0 \<and> - w \<noteq> EINTR then w else 0)"

text \<open>
  The loop of \<^verbatim>\<open>main\<close> over what each turn sees: the flag the signal handler sets, and the two
  results. \<open>None\<close>: the loop is still running at the end of the list; otherwise the number of
  turns that were served.
\<close>

fun serve :: "(bool \<times> int \<times> int) list \<Rightarrow> nat option" where
  "serve [] = None"
| "serve ((quit, r, w) # turns) =
     (if quit then Some 0
      else if run_once r w < 0 then Some 0
      else map_option Suc (serve turns))"

definition ends_loop :: "bool \<times> int \<times> int \<Rightarrow> bool" where
  "ends_loop t = (case t of (quit, r, w) \<Rightarrow> quit \<or> r < 0 \<or> (r = 0 \<and> w < 0 \<and> w \<noteq> - EINTR))"

text \<open>
  The loop ends at the first turn that sees the flag or an error. An interrupted wait is not an
  error, so that a signal ends the loop through the flag, after the current turn.
\<close>

lemma serve_first_end:
  "serve turns = Some n \<longleftrightarrow> n < length turns \<and> ends_loop (turns ! n) \<and> (\<forall>i < n. \<not> ends_loop (turns ! i))"
proof (induction turns arbitrary: n)
  case (Cons t turns)
  obtain quit r w where t: "t = (quit, r, w)" by (cases t) auto
  have e: "ends_loop t \<longleftrightarrow> quit \<or> run_once r w < 0"
    by (auto simp: t ends_loop_def run_once_def EINTR_def)
  show ?case
  proof (cases "ends_loop t")
    case True
    then have "serve (t # turns) = Some 0" using e t by auto
    then show ?thesis using True by (cases n) auto
  next
    case False
    then have s: "serve (t # turns) = map_option Suc (serve turns)" using e t by simp
    show ?thesis
    proof (cases n)
      case (Suc m)
      have "(\<forall>i < Suc m. \<not> ends_loop ((t # turns) ! i)) \<longleftrightarrow> (\<forall>i < m. \<not> ends_loop (turns ! i))"
        using False by (auto simp: less_Suc_eq_0_disj)
      then show ?thesis using Cons.IH [of m] s Suc by auto
    qed (use s False in auto)
  qed
qed simp

lemma serve_ends: "(\<exists>n. serve turns = Some n) \<longleftrightarrow> (\<exists>t \<in> set turns. ends_loop t)"
proof (induction turns)
  case (Cons t turns)
  obtain quit r w where t: "t = (quit, r, w)" by (cases t) auto
  have e: "ends_loop t \<longleftrightarrow> quit \<or> run_once r w < 0"
    by (auto simp: t ends_loop_def run_once_def EINTR_def)
  have "(\<exists>n. map_option Suc (serve turns) = Some n) \<longleftrightarrow> (\<exists>n. serve turns = Some n)" by auto
  then show ?case using Cons.IH e by (auto simp: t)
qed simp

section \<open>What is held\<close>

lemma offer_object_ledger:
  assumes "offer_object env l = (r, o', l')" "ledger l = Some R"
  shows "ledger l' = Some (R + offered_owned o')" and "r = 0 \<or> r = - 1" and "r = 0 \<Longrightarrow> has_bus o' \<and> has_object o'"
  using assms
  by (auto simp: offer_object_def offered_owned_def Let_def ledger_append_steps simp del: ledger_snoc ledger_snoc2
      split: if_splits)

lemma withdraw_object_ledger:
  "ledger l = Some (R + offered_owned o') \<Longrightarrow> ledger (withdraw_object o' l) = Some R"
  by (auto simp: withdraw_object_def offered_owned_def ledger_append_steps simp del: ledger_snoc ledger_snoc2)

end
