(* ===== verification/Provider_Main.thy ===== *)
theory Provider_Main
  imports Config_Files Bus_Service Www_Session Photo_Cache
begin

text \<open>
  The life of the photo provider: the requests of \<^verbatim>\<open>www_session.c\<close> with the buffers they fill,
  opening and freeing the session with its two curl handles, the cache with its ring and its
  worker thread (\<^verbatim>\<open>cache.c\<close>), and \<^verbatim>\<open>main.c\<close>. What is open is accounted for in the ledger; what
  cache and session do while they are open are theories \<open>Photo_Cache\<close> and \<open>Www_Session\<close>.
\<close>

section \<open>Requests\<close>

text \<open>What libcurl makes of one request.\<close>

record http_answer =
  performed :: bool
  body_blocks :: "u8 list list"
  status :: int

definition do_get_mem :: "u8 \<Rightarrow> http_answer \<Rightarrow> mem_buf \<Rightarrow> (int \<times> mem_buf) option" where
  "do_get_mem fill a out = do {
     b \<leftarrow> receive_body fill out (body_blocks a);
     Some (if \<not> performed a then - 1 else if status a < 200 \<or> 300 \<le> status a then - 1 else 0, b)
   }"

text \<open>The block of a buffer, if it got one, and its release.\<close>

definition block_of :: "mem_buf \<Rightarrow> io list" where
  "block_of b = (if storage b = [] then [] else [Acquire (Heap ''body'')])"

definition free_block :: "mem_buf \<Rightarrow> io list" where
  "free_block b = (if storage b = [] then [] else [Release (Heap ''body'')])"

definition http_push :: "u8 \<Rightarrow> http_answer \<Rightarrow> io list \<Rightarrow> (int \<times> io list) option" where
  "http_push fill a l = do {
     (r, b) \<leftarrow> do_get_mem fill a mem_buf_init;
     Some (r, l @ block_of b @ free_block b)
   }"

definition body_text :: "mem_buf \<Rightarrow> string" where
  "body_text b = map (\<lambda>w. char_of (unat w)) (take (unat (mem_len b)) (storage b))"

text \<open>
  The request of \<^verbatim>\<open>http_register\<close>, with the block it frees on each of its returns; \<open>http_register\<close>
  is what it makes of the response.
\<close>

definition http_register_io :: "u8 \<Rightarrow> http_answer \<Rightarrow> io list \<Rightarrow> (string option \<times> io list) option" where
  "http_register_io fill a l = do {
     (r, b) \<leftarrow> do_get_mem fill a mem_buf_init;
     Some (if r < 0 then None else Some (body_text b), l @ block_of b @ free_block b)
   }"

text \<open>\<^verbatim>\<open>reregister\<close> with its three requests; the results of the pushes are ignored.\<close>

record server_answers =
  to_register :: http_answer
  to_qr :: http_answer
  to_size :: http_answer

definition reregister_io :: "u8 \<Rightarrow> server_answers \<Rightarrow> www_session \<Rightarrow> io list \<Rightarrow> (setter_result \<times> io list) option" where
  "reregister_io fill srv s l = do {
     (response, l1) \<leftarrow> http_register_io fill (to_register srv) l;
     let res = reregister s response;
     if rc res < 0 then Some (res, l1)
     else do {
       (_, l2) \<leftarrow> http_push fill (to_qr srv) l1;
       (_, l3) \<leftarrow> http_push fill (to_size srv) l2;
       Some (res, l3)
     }
   }"

section \<open>The session\<close>

record provider_env =
  pv_alloc :: "io list \<Rightarrow> string \<Rightarrow> bool"
  pv_curl :: "io list \<Rightarrow> bool"
  pv_spawns :: "io list \<Rightarrow> bool"
  thread_id_left :: bool
  pv_offer :: offer_env

record www_handle =
  wh_session :: www_session
  curl_fetch :: bool
  curl_ctrl :: bool

definition pp_www_session_free :: "provider_env \<Rightarrow> www_handle option \<Rightarrow> io list \<Rightarrow> io list" where
  "pp_www_session_free env hp l =
     (case hp of
        None \<Rightarrow> l
      | Some h \<Rightarrow>
          l @ (if curl_fetch h then [Release (Heap ''curl_fetch'')] else [])
            @ (if curl_ctrl h then [Release (Heap ''curl_ctrl'')] else [])
            @ [Release (Heap ''www_session'')])"

definition curl_open :: "provider_env \<Rightarrow> string \<Rightarrow> io list \<Rightarrow> bool \<times> io list" where
  "curl_open env name l = (if pv_curl env l then (True, l @ [Acquire (Heap name)]) else (False, l))"

definition www_open :: "pp_config \<Rightarrow> provider_env \<Rightarrow> io list \<Rightarrow> www_handle option \<times> io list" where
  "www_open cfg env l =
     (case pp_www_session_init (server_url cfg) (cfg_target_w cfg) (cfg_target_h cfg) (pp_embed_qr cfg)
             (cfg_connect_timeout_s cfg) (cfg_request_timeout_s cfg) (pv_alloc env l ''www_session'') True of
        None \<Rightarrow> (None, l)
      | Some s \<Rightarrow>
          (case curl_open env ''curl_fetch'' (l @ [Acquire (Heap ''www_session'')]) of (f, l1) \<Rightarrow>
             (case curl_open env ''curl_ctrl'' l1 of (g, l2) \<Rightarrow>
                (let h = \<lparr>wh_session = s, curl_fetch = f, curl_ctrl = g\<rparr>
                 in if \<not> f \<or> \<not> g then (None, pp_www_session_free env (Some h) l2) else (Some h, l2)))))"

section \<open>The cache\<close>

text \<open>\<open>ch_worker\<close>: the \<^verbatim>\<open>worker\<close> field is not zero, which is what \<^verbatim>\<open>pp_cache_free\<close> tests.\<close>

record cache_handle =
  ch_cache :: pp_cache
  ch_worker :: bool

definition pp_cache_free :: "provider_env \<Rightarrow> cache_handle option \<Rightarrow> io list \<Rightarrow> io list" where
  "pp_cache_free env hp l =
     (case hp of
        None \<Rightarrow> l
      | Some h \<Rightarrow>
          l @ (if ch_worker h then [Release (Thread ''worker'')] else [])
            @ [Release (Heap ''ring''), Release (Heap ''cache'')])"

definition cache_open :: "pp_cache_params \<Rightarrow> provider_env \<Rightarrow> io list \<Rightarrow> cache_handle option \<times> io list" where
  "cache_open p env l =
     (let struct_ok = pv_alloc env l ''cache''; l1 = l @ [Acquire (Heap ''cache'')]
      in case pp_cache_init p struct_ok (pv_alloc env l1 ''ring'') of
           None \<Rightarrow> (None, if struct_ok then l1 @ [Release (Heap ''cache'')] else l)
         | Some c \<Rightarrow>
             let l2 = l1 @ [Acquire (Heap ''ring'')]
             in if pv_spawns env l2
                then (Some \<lparr>ch_cache = c, ch_worker = True\<rparr>, l2 @ [Acquire (Thread ''worker'')])
                else (None, pp_cache_free env (Some \<lparr>ch_cache = c, ch_worker = thread_id_left env\<rparr>) l2))"

section \<open>The service\<close>

record provider_run =
  pr_fill :: u8
  pr_server :: server_answers
  pr_ops :: "cache_op list"
  pr_turns :: "(bool \<times> int \<times> int) list"

text \<open>
  How \<^verbatim>\<open>main\<close> leaves once session and cache are up; the worker flushes the ring before it is
  joined. The result has the exit code, the final cache, and the log.
\<close>

definition provider_exit ::
  "provider_env \<Rightarrow> www_handle \<Rightarrow> cache_handle \<Rightarrow> cache_op list \<Rightarrow> int \<Rightarrow> io list \<Rightarrow> int \<times> pp_cache option \<times> io list" where
  "provider_exit env h c ops code l =
     (code, Some (cache_shutdown (cache_run (ch_cache c) ops)),
      pp_www_session_free env (Some h) (pp_cache_free env (Some c) l) @ [Release (Heap ''curl'')])"

definition provider_serve ::
  "provider_env \<Rightarrow> provider_run \<Rightarrow> www_handle \<Rightarrow> cache_handle \<Rightarrow> io list \<Rightarrow> (int \<times> pp_cache option \<times> io list) option" where
  "provider_serve env run h c l =
     (case offer_object (pv_offer env) l of (r, o', l1) \<Rightarrow>
        if r < 0 then Some (provider_exit env h c (pr_ops run) 1 l1)
        else do {
          n \<leftarrow> serve (pr_turns run);
          Some (provider_exit env h c (pr_ops run) 0 (withdraw_object o' l1))
        })"

definition provider_main ::
  "provider_env \<Rightarrow> pp_config option \<Rightarrow> provider_run \<Rightarrow> string list \<Rightarrow> io list \<Rightarrow> (int \<times> pp_cache option \<times> io list) option" where
  "provider_main env loaded run args l =
     (if args = [] then Some (1, None, l)
      else (case loaded of None \<Rightarrow> Some (1, None, l) | Some cfg \<Rightarrow>
        (case www_open cfg env (l @ [Acquire (Heap ''curl'')]) of
           (None, l1) \<Rightarrow> Some (1, None, l1 @ [Release (Heap ''curl'')])
         | (Some h, l1) \<Rightarrow>
             (case cache_open (cache_params cfg) env l1 of
                (None, l2) \<Rightarrow> Some (1, None, pp_www_session_free env (Some h) l2 @ [Release (Heap ''curl'')])
              | (Some c, l2) \<Rightarrow> do {
                  (res, l3) \<leftarrow> reregister_io (pr_fill run) (pr_server run) (wh_session h) l2;
                  if rc res < 0 then Some (provider_exit env h c (pr_ops run) 1 l3)
                  else provider_serve env run h c l3
                }))))"

section \<open>What is held\<close>

definition www_owned :: "www_handle \<Rightarrow> resource multiset" where
  "www_owned h = (if curl_fetch h then {#Heap ''curl_fetch''#} else {#})
     + (if curl_ctrl h then {#Heap ''curl_ctrl''#} else {#}) + {#Heap ''www_session''#}"

definition cache_owned :: "cache_handle \<Rightarrow> resource multiset" where
  "cache_owned h = (if ch_worker h then {#Thread ''worker''#} else {#}) + {#Heap ''ring'', Heap ''cache''#}"

text \<open>
  POSIX leaves the identifier undefined when \<^verbatim>\<open>pthread_create\<close> fails; the code relies on the zero
  that \<^verbatim>\<open>calloc\<close> stored.
\<close>

definition keeps_thread_id :: "provider_env \<Rightarrow> bool" where
  "keeps_thread_id env \<longleftrightarrow> \<not> thread_id_left env"

lemma www_free_ledger:
  "ledger l = Some (R + www_owned h) \<Longrightarrow> ledger (pp_www_session_free env (Some h) l) = Some R"
  by (auto simp: pp_www_session_free_def www_owned_def ledger_append_steps simp del: ledger_snoc ledger_snoc2)

interpretation www_handle: device_handle "www_open cfg" pp_www_session_free www_owned "\<lambda>_. True" for cfg
proof
  fix k l R h l'
  assume a: "ledger l = Some R" "www_open cfg k l = (h, l')"
  have c: "ledger m' = Some (S + (if b then {#Heap n#} else {#}))"
    if "curl_open k n m = (b, m')" "ledger m = Some S" for n m b m' S
    using that by (auto simp: curl_open_def split: if_splits)
  let ?l0 = "l @ [Acquire (Heap ''www_session'')]"
  obtain f l1 where f: "curl_open k ''curl_fetch'' ?l0 = (f, l1)" by fastforce
  obtain g l2 where g: "curl_open k ''curl_ctrl'' l1 = (g, l2)" by fastforce
  have "ledger l2 = Some (R + www_owned \<lparr>wh_session = s, curl_fetch = f, curl_ctrl = g\<rparr>)" for s
    using c [OF g c [OF f]] a(1) by (auto simp: www_owned_def ac_simps)
  then show "ledger l' = Some (R + (case h of None \<Rightarrow> {#} | Some x \<Rightarrow> www_owned x))"
    using a f g by (auto simp: www_open_def Let_def www_free_ledger split: option.splits if_splits)
qed (use www_free_ledger in \<open>simp_all add: pp_www_session_free_def\<close>)

lemma cache_free_ledger:
  "ledger l = Some (R + cache_owned h) \<Longrightarrow> ledger (pp_cache_free env (Some h) l) = Some R"
  by (auto simp: pp_cache_free_def cache_owned_def ledger_append_steps simp del: ledger_snoc ledger_snoc2)

lemma cache_init_made: "(pp_cache_init p a b = None) \<longleftrightarrow> \<not> a \<or> \<not> b"
  by (simp add: pp_cache_init_def Let_def)

interpretation cache_handle: device_handle "cache_open p" pp_cache_free cache_owned keeps_thread_id for p
proof
  fix k l R h l'
  assume a: "keeps_thread_id k" "ledger l = Some R" "cache_open p k l = (h, l')"
  let ?l1 = "l @ [Acquire (Heap ''cache'')]"
  let ?l2 = "?l1 @ [Acquire (Heap ''ring'')]"
  have l2: "ledger ?l2 = Some (R + cache_owned \<lparr>ch_cache = c, ch_worker = False\<rparr>)"
    "ledger (?l2 @ [Acquire (Thread ''worker'')]) = Some (R + cache_owned \<lparr>ch_cache = c, ch_worker = True\<rparr>)" for c
    using a(2) by (simp_all add: cache_owned_def ledger_append_steps del: ledger_snoc ledger_snoc2)
  show "ledger l' = Some (R + (case h of None \<Rightarrow> {#} | Some x \<Rightarrow> cache_owned x))"
  proof (cases "pp_cache_init p (pv_alloc k l ''cache'') (pv_alloc k ?l1 ''ring'')")
    case None
    then show ?thesis using a by (auto simp: cache_open_def Let_def split: if_splits)
  next
    case (Some c)
    then have "cache_open p k l =
        (if pv_spawns k ?l2 then (Some \<lparr>ch_cache = c, ch_worker = True\<rparr>, ?l2 @ [Acquire (Thread ''worker'')])
         else (None, pp_cache_free k (Some \<lparr>ch_cache = c, ch_worker = False\<rparr>) ?l2))"
      using a(1) by (simp add: cache_open_def Let_def keeps_thread_id_def)
    then show ?thesis using a(3) l2(2) [of c] cache_free_ledger [OF l2(1) [of c]] by (auto split: if_splits)
  qed
qed (use cache_free_ledger in \<open>simp_all add: pp_cache_free_def\<close>)

text \<open>
  If the failed creation left an identifier behind, \<^verbatim>\<open>pp_cache_free\<close> joins a thread that does not
  exist.
\<close>

lemma failed_worker_joined:
  assumes "pv_alloc env l ''cache''" "pv_alloc env (l @ [Acquire (Heap ''cache'')]) ''ring''"
    and "\<not> pv_spawns env ((l @ [Acquire (Heap ''cache'')]) @ [Acquire (Heap ''ring'')])" "thread_id_left env"
    and "ledger l = Some R" "Thread ''worker'' \<notin># R"
  shows "ledger (snd (cache_open p env l)) = None"
proof -
  obtain c where c: "pp_cache_init p True True = Some c" using cache_init_made [of p True True] by auto
  have "snd (cache_open p env l) =
      ((l @ [Acquire (Heap ''cache'')]) @ [Acquire (Heap ''ring'')])
        @ [Release (Thread ''worker''), Release (Heap ''ring''), Release (Heap ''cache'')]"
    using assms(1-4) c by (simp add: cache_open_def pp_cache_free_def)
  then show ?thesis
    using assms(5,6) by (simp add: ledger_append_steps del: ledger_snoc ledger_snoc2)
qed

section \<open>Requests end\<close>

definition body_fits :: "http_answer \<Rightarrow> bool" where
  "body_fits a \<longleftrightarrow> length (concat (body_blocks a)) + 1 \<le> 2 ^ 31"

text \<open>
  A body below two gigabytes is collected whole; it counts when the transfer succeeded with a
  status of the 200s.
\<close>

lemma do_get_mem_body:
  assumes "body_fits a"
  shows "\<exists>b. do_get_mem fill a mem_buf_init =
       Some (if performed a \<and> 200 \<le> status a \<and> status a < 300 then 0 else - 1, b)
     \<and> take (unat (mem_len b)) (storage b) = concat (body_blocks a)"
proof (cases "body_blocks a = []")
  case True
  then show ?thesis by (simp add: do_get_mem_def mem_buf_init_def)
next
  case False
  then obtain b where "receive_body fill mem_buf_init (body_blocks a) = Some b"
      "take (unat (mem_len b)) (storage b) = concat (body_blocks a)"
    using www_body_collected [of "body_blocks a" fill] assms by (auto simp: body_fits_def)
  then show ?thesis by (auto simp: do_get_mem_def)
qed

lemma block_balanced: "ledger (l @ block_of b @ free_block b) = ledger l"
  by (cases "ledger l") (simp_all add: block_of_def free_block_def)

lemma http_push_ends:
  assumes "body_fits a"
  shows "\<exists>r l'. http_push fill a l = Some (r, l') \<and> ledger l' = ledger l"
  using do_get_mem_body [OF assms, of fill] by (auto simp: http_push_def block_balanced)

definition response_of :: "http_answer \<Rightarrow> string option" where
  "response_of a =
     (if performed a \<and> 200 \<le> status a \<and> status a < 300
      then Some (map (\<lambda>w. char_of (unat w)) (concat (body_blocks a))) else None)"

lemma http_register_ends:
  assumes "body_fits a"
  shows "\<exists>l'. http_register_io fill a l = Some (response_of a, l') \<and> ledger l' = ledger l"
  using do_get_mem_body [OF assms, of fill]
  by (auto simp: http_register_io_def block_balanced response_of_def body_text_def)

definition bodies_fit :: "server_answers \<Rightarrow> bool" where
  "bodies_fit srv \<longleftrightarrow> body_fits (to_register srv) \<and> body_fits (to_qr srv) \<and> body_fits (to_size srv)"

lemma reregister_ends:
  assumes "bodies_fit srv"
  shows "\<exists>l'. reregister_io fill srv s l = Some (reregister s (response_of (to_register srv)), l')
     \<and> ledger l' = ledger l"
proof -
  obtain l1 where 1: "http_register_io fill (to_register srv) l = Some (response_of (to_register srv), l1)"
      "ledger l1 = ledger l"
    using http_register_ends [of "to_register srv" fill l] assms by (auto simp: bodies_fit_def)
  obtain r2 l2 where 2: "http_push fill (to_qr srv) l1 = Some (r2, l2)" "ledger l2 = ledger l1"
    using http_push_ends [of "to_qr srv" fill l1] assms by (auto simp: bodies_fit_def)
  obtain r3 l3 where 3: "http_push fill (to_size srv) l2 = Some (r3, l3)" "ledger l3 = ledger l2"
    using http_push_ends [of "to_size srv" fill l2] assms by (auto simp: bodies_fit_def)
  show ?thesis using 1 2 3 by (auto simp: reregister_io_def reregister_def Let_def)
qed

section \<open>How the service ends\<close>

text \<open>Leaving gives back session, cache and libcurl, whatever of the bus is still held.\<close>

lemma provider_exit_ledger:
  assumes "ledger l = Some (R + {#Heap ''curl''#} + www_owned h + cache_owned c)"
    and "provider_exit env h c ops code l = (code', c', l')"
  shows "code' = code \<and> c' = Some (cache_shutdown (cache_run (ch_cache c) ops)) \<and> ledger l' = Some R"
  using assms www_free_ledger [of _ "R + {#Heap ''curl''#}" h env]
    cache_free_ledger [of l "R + {#Heap ''curl''#} + www_owned h" c env]
  by (auto simp: provider_exit_def)

lemma provider_serve_ends:
  assumes "ledger l = Some (R + {#Heap ''curl''#} + www_owned h + cache_owned c)"
    and o': "offer_object (pv_offer env) l = (r, o', l1)"
    and "provider_serve env run h c l = Some (code, c', l')"
  shows "code = (if r < 0 then 1 else 0) \<and> c' = Some (cache_shutdown (cache_run (ch_cache c) (pr_ops run)))
     \<and> ledger l' = Some (if r < 0 then R + offered_owned o' else R)"
proof -
  let ?R = "R + {#Heap ''curl''#} + www_owned h + cache_owned c"
  have l1: "ledger l1 = Some (?R + offered_owned o')" using offer_object_ledger(1) [OF o' assms(1)] .
  show ?thesis
  proof (cases "r < 0")
    case True
    have "ledger l1 = Some (R + offered_owned o' + {#Heap ''curl''#} + www_owned h + cache_owned c)"
      using l1 by (simp add: ac_simps)
    then show ?thesis using provider_exit_ledger [of l1 _ h c env "pr_ops run" 1 code c' l'] assms(3) o' True
      by (simp add: provider_serve_def)
  next
    case False
    have "ledger (withdraw_object o' l1) = Some ?R" using withdraw_object_ledger [OF l1] .
    then show ?thesis
      using provider_exit_ledger [of "withdraw_object o' l1" R h c env "pr_ops run" 0 code c' l'] assms(3) o' False
      by (auto simp: provider_serve_def split: bind_splits)
  qed
qed

lemma cache_open_made: "cache_open p env l = (Some c, l') \<Longrightarrow> pp_cache_init p True True = Some (ch_cache c)"
  by (auto simp: cache_open_def pp_cache_init_def Let_def split: if_splits)

text \<open>
  A good end: every photo the fetches handed over was closed exactly once, and at most what the
  bus was asked for is still held; after serving, nothing is.
\<close>

definition ended_well :: "resource multiset \<Rightarrow> provider_run \<Rightarrow> int \<times> pp_cache option \<times> io list \<Rightarrow> bool" where
  "ended_well R run res =
     (case res of (code, c, l') \<Rightarrow>
        code \<in> {0, 1}
        \<and> (ledger l' = Some R \<or>
            code = 1 \<and> ledger l' \<in> {Some (R + {#Heap ''bus''#}), Some (R + {#Heap ''bus'', Heap ''object''#})})
        \<and> (\<forall>c'. c = Some c' \<longrightarrow> mset (closed c') = mset (concat (map fetched (pr_ops run))))
        \<and> (code = 0 \<longrightarrow> http_register (response_of (to_register (pr_server run))) MAX_CLIENT_ID \<noteq> None))"

lemma offered_cases:
  "offer_object env l = (r, o', l') \<Longrightarrow>
     offered_owned o' \<in> {{#}, {#Heap ''bus''#}, {#Heap ''bus'', Heap ''object''#}}"
  by (auto simp: offer_object_def offered_owned_def Let_def split: if_splits)

lemma reregister_failed: "rc (reregister s response) < 0 \<longleftrightarrow> http_register response MAX_CLIENT_ID = None"
  by (simp add: reregister_def Let_def split: option.split)

lemma provider_up_ends:
  assumes l: "ledger l = Some (R + {#Heap ''curl''#} + www_owned h + cache_owned c)"
    and cl: "mset (closed (cache_shutdown (cache_run (ch_cache c) (pr_ops run)))) = mset (concat (map fetched (pr_ops run)))"
    and "serve (pr_turns run) \<noteq> None" "bodies_fit (pr_server run)"
    and reg: "reregister_io (pr_fill run) (pr_server run) (wh_session h) l = Some (res, l1)"
  shows "\<exists>out. (if rc res < 0 then Some (provider_exit env h c (pr_ops run) 1 l1) else provider_serve env run h c l1) = Some out
     \<and> ended_well R run out"
proof -
  have res: "res = reregister (wh_session h) (response_of (to_register (pr_server run)))" "ledger l1 = ledger l"
    using reregister_ends [OF assms(4), of "pr_fill run" "wh_session h" l] reg by auto
  show ?thesis
  proof (cases "rc res < 0")
    case True
    obtain code c' l' where e: "provider_exit env h c (pr_ops run) 1 l1 = (code, c', l')" by (metis prod_cases3)
    show ?thesis using provider_exit_ledger [of l1 R h c env "pr_ops run" 1 code c' l'] e l cl res(2) True
      by (auto simp: ended_well_def)
  next
    case False
    obtain r o' l2 where o': "offer_object (pv_offer env) l1 = (r, o', l2)" by (metis prod_cases3)
    have "\<exists>out. provider_serve env run h c l1 = Some out"
      using assms(3) o' by (auto simp: provider_serve_def provider_exit_def)
    then obtain out where out: "provider_serve env run h c l1 = Some out" ..
    obtain code c' l' where t: "out = (code, c', l')" by (metis prod_cases3)
    have s: "code = (if r < 0 then 1 else 0) \<and> c' = Some (cache_shutdown (cache_run (ch_cache c) (pr_ops run)))
       \<and> ledger l' = Some (if r < 0 then R + offered_owned o' else R)"
      using provider_serve_ends [OF _ o' out [unfolded t]] l res(2) by simp
    have "http_register (response_of (to_register (pr_server run))) MAX_CLIENT_ID \<noteq> None"
      using False res(1) reregister_failed by simp
    then have "ended_well R run out" using s cl offered_cases [OF o'] by (auto simp: t ended_well_def)
    then show ?thesis using out False by simp
  qed
qed

text \<open>
  Whatever the arguments, the configuration, the allocator, libcurl, the server and the bus answer,
  the photo provider ends once its loop is told to, and ends well: it gives back what it took
  (the bus aside when the object could not be offered) and closes every photo once.
\<close>

theorem provider_main_ends:
  assumes k: "keeps_thread_id env" and l: "ledger l = Some R"
    and run: "bodies_fit (pr_server run)" "\<forall>op \<in> set (pr_ops run). op_ok op" "serve (pr_turns run) \<noteq> None"
    and cfg: "\<And>cfg. loaded = Some cfg \<Longrightarrow> params_fit (cache_params cfg)"
  shows "\<exists>out. provider_main env loaded run args l = Some out \<and> ended_well R run out"
proof (cases "args = [] \<or> loaded = None")
  case True
  then have "provider_main env loaded run args l = Some (1, None, l)"
    by (cases "args = []") (simp_all add: provider_main_def)
  then show ?thesis using l by (simp add: ended_well_def)
next
  case False
  then obtain c where c: "loaded = Some c" "args \<noteq> []" by auto
  let ?l0 = "l @ [Acquire (Heap ''curl'')]"
  have l0: "ledger ?l0 = Some (R + {#Heap ''curl''#})" using l by simp
  obtain hp l1 where w: "www_open c env ?l0 = (hp, l1)" by fastforce
  show ?thesis
  proof (cases hp)
    case None
    have "ledger l1 = Some (R + {#Heap ''curl''#})" using www_handle.failed_acquire [OF TrueI l0] w None by simp
    then show ?thesis using c w None by (simp add: provider_main_def ended_well_def)
  next
    case (Some h)
    have l1: "ledger l1 = Some (R + {#Heap ''curl''#} + www_owned h)"
      using www_handle.acquire_owned [OF TrueI l0 w] Some by simp
    obtain cp l2 where o: "cache_open (cache_params c) env l1 = (cp, l2)" by fastforce
    show ?thesis
    proof (cases cp)
      case None
      have "ledger l2 = Some (R + {#Heap ''curl''#} + www_owned h)"
        using cache_handle.failed_acquire [OF k l1] o None by simp
      then have "ledger (pp_www_session_free env (Some h) l2) = Some (R + {#Heap ''curl''#})" by (rule www_free_ledger)
      then show ?thesis using c w Some o None by (simp add: provider_main_def ended_well_def)
    next
      case cache: (Some d)
      note made = cache_open_made [OF o [unfolded cache]]
      have l2: "ledger l2 = Some (R + {#Heap ''curl''#} + www_owned h + cache_owned d)"
        using cache_handle.acquire_owned [OF k l1 o] cache by simp
      obtain res l3 where r: "reregister_io (pr_fill run) (pr_server run) (wh_session h) l2 = Some (res, l3)"
        using reregister_ends [OF run(1)] by blast
      have "provider_main env loaded run args l =
          (if rc res < 0 then Some (provider_exit env h d (pr_ops run) 1 l3) else provider_serve env run h d l3)"
        using c w Some o cache r by (simp add: provider_main_def)
      moreover have "mset (closed (cache_shutdown (cache_run (ch_cache d) (pr_ops run)))) = mset (concat (map fetched (pr_ops run)))"
        using shutdown_closes [of "ch_cache d" "pr_ops run"] init_effect [OF cfg [OF c(1)] made] run(2) by simp
      ultimately show ?thesis using provider_up_ends [OF l2 _ run(3,1) r] by simp
    qed
  qed
qed

text \<open>A provider that registers, serves one turn and is interrupted in the second.\<close>

definition ok_answer :: "string \<Rightarrow> http_answer" where
  "ok_answer s = \<lparr>performed = True, body_blocks = [map (\<lambda>ch. of_nat (of_char ch)) s], status = 200\<rparr>"

definition brief_run :: provider_run where
  "brief_run = \<lparr>pr_fill = 0, pr_server = \<lparr>to_register = ok_answer '' ab1 '', to_qr = ok_answer [], to_size = ok_answer []\<rparr>,
     pr_ops = [Invalidate, Store 1 (Some (photo_of 7)), Next], pr_turns = [(False, 0, - EINTR), (True, 0, 0)]\<rparr>"

definition willing_provider :: provider_env where
  "willing_provider = \<lparr>pv_alloc = \<lambda>_ _. True, pv_curl = \<lambda>_. True, pv_spawns = \<lambda>_. True, thread_id_left = False,
     pv_offer = \<lparr>bus_result = 0, object_result = 0, request_name_result = 0\<rparr>\<rparr>"

theorem provider_main_ends_witness:
  "\<exists>out. provider_main willing_provider (Some provider_example) brief_run [''config.json''] [] = Some out
     \<and> ended_well {#} brief_run out"
proof (rule provider_main_ends)
  show "keeps_thread_id willing_provider" by (simp add: willing_provider_def keeps_thread_id_def)
  show "bodies_fit (pr_server brief_run)"
    by (simp add: brief_run_def bodies_fit_def body_fits_def ok_answer_def)
  show "\<forall>op \<in> set (pr_ops brief_run). op_ok op" by (simp add: brief_run_def op_ok_def photo_of_def)
  show "serve (pr_turns brief_run) \<noteq> None" by (simp add: brief_run_def run_once_def EINTR_def)
  show "params_fit (cache_params cfg)" if "Some provider_example = Some cfg" for cfg
    using that by (auto simp: params_fit_def cache_params_def provider_example_def)
qed simp

end
