(* ===== verification/Home.thy ===== *)
theory Home
  imports Occupancy Ambience Display_Mgr
begin

text \<open>
  The home as a whole, from the occupancy sensor to the screen: the poller of \<^verbatim>\<open>ld2410s.c\<close> announces,
  \<^verbatim>\<open>on_state_change\<close> of the occupancy service puts the announcement on the bus, the ambience
  service decides and calls the display manager, which switches the outputs. Every step is one
  second of the poller or one request of a user, with everything it triggers.
\<close>

section \<open>The system\<close>

record house =
  poll :: poller
  amb :: ambience_ctx
  daemon :: display_mgr

text \<open>The signal of the occupancy service: nothing without a bus.\<close>

definition on_state_change :: "bool \<Rightarrow> bool \<Rightarrow> u16 \<Rightarrow> (int \<times> u32) option" where
  "on_state_change has_bus occ far = (if \<not> has_bus then None else Some (if occ then 1 else 0, ucast far))"

text \<open>
  The calls of the display manager among what the controller did. A call that failed may have
  reached the daemon all the same.
\<close>

fun serve_calls :: "(u32 \<Rightarrow> u32 \<Rightarrow> bool) \<Rightarrow> bool \<Rightarrow> panel_effect list \<Rightarrow> display_mgr \<Rightarrow> display_mgr" where
  "serve_calls accepts reached [] m = m"
| "serve_calls accepts reached (Call_On # es) m =
     serve_calls accepts reached es (if reached then set_display_on accepts True m else m)"
| "serve_calls accepts reached (Call_Off # es) m =
     serve_calls accepts reached es (if reached then set_display_on accepts False m else m)"
| "serve_calls accepts reached (_ # es) m = serve_calls accepts reached es m"

definition ambience_hears ::
  "(u32 \<Rightarrow> u32 \<Rightarrow> bool) \<Rightarrow> outcome \<Rightarrow> bool \<Rightarrow> display_event \<Rightarrow> house \<Rightarrow> house" where
  "ambience_hears accepts out reached e h =
     h\<lparr>amb := ambience_display_step (amb h) (e, out),
       daemon := serve_calls accepts (0 \<le> call_rc out \<or> reached)
         (snd (display_event_step (panel (amb h)) e (call_rc out))) (daemon h)\<rparr>"

text \<open>
  One second with the sensor's reading; a user's override; the occupancy service leaving the bus,
  after which it starts again.
\<close>

datatype house_event = Second bool u16 | Override bool | Sensor_Restarts

definition house_step ::
  "ld2410s \<Rightarrow> (u32 \<Rightarrow> u32 \<Rightarrow> bool) \<Rightarrow> house \<Rightarrow> house_event \<times> outcome \<times> bool \<Rightarrow> house" where
  "house_step s accepts h ev =
     (case ev of (e, out, reached) \<Rightarrow>
        (case e of
           Second occ far \<Rightarrow>
             (case poller_step s (poll h) (occ, far) of
                (p, None) \<Rightarrow> h\<lparr>poll := p\<rparr>
              | (p, Some (o1, d1)) \<Rightarrow>
                  (case on_state_change True o1 d1 of
                     None \<Rightarrow> h\<lparr>poll := p\<rparr>
                   | Some (raw, d) \<Rightarrow> ambience_hears accepts out reached (Report (raw \<noteq> 0) d) (h\<lparr>poll := p\<rparr>)))
         | Override on \<Rightarrow> ambience_hears accepts out reached (if on then Force_On else Force_Off) h
         | Sensor_Restarts \<Rightarrow> ambience_hears accepts out reached (Service_Changed False) (h\<lparr>poll := poller_init\<rparr>)))"

definition house_start :: "display_mgr \<Rightarrow> house" where
  "house_start m = \<lparr>poll = poller_init, amb = ambience_start, daemon = m\<rparr>"

definition house_run ::
  "ld2410s \<Rightarrow> (u32 \<Rightarrow> u32 \<Rightarrow> bool) \<Rightarrow> display_mgr \<Rightarrow> (house_event \<times> outcome \<times> bool) list \<Rightarrow> house" where
  "house_run s accepts m evs = foldl (house_step s accepts) (house_start m) evs"

section \<open>The reference\<close>

text \<open>
  What the ambience service hears, latest first, from the readings alone: the announcements of
  the hysteresis rule since the sensor service last started, the overrides and the restarts.
\<close>

fun readings_of :: "house_event list \<Rightarrow> (bool \<times> u16) list" where
  "readings_of [] = []"
| "readings_of (Second occ far # es) = (occ, far) # readings_of es"
| "readings_of (Override _ # es) = readings_of es"
| "readings_of (Sensor_Restarts # es) = []"

fun heard :: "ld2410s \<Rightarrow> house_event list \<Rightarrow> display_event list" where
  "heard s [] = []"
| "heard s (Second occ far # es) =
     (case Occupancy.announcement s ((occ, far) # readings_of es) of
        None \<Rightarrow> heard s es
      | Some (o1, d1) \<Rightarrow> Report o1 (ucast d1) # heard s es)"
| "heard s (Override on # es) = (if on then Force_On else Force_Off) # heard s es"
| "heard s (Sensor_Restarts # es) = Service_Changed False # heard s es"

text \<open>The display has been wanted at some time so far.\<close>

fun ever_wanted :: "display_event list \<Rightarrow> bool" where
  "ever_wanted [] = False"
| "ever_wanted (e # h) = (display_wanted (e # h) \<or> ever_wanted h)"

definition all_well :: "(house_event \<times> outcome \<times> bool) list \<Rightarrow> bool" where
  "all_well evs \<longleftrightarrow> (\<forall>(e, out, reached) \<in> set evs. 0 \<le> call_rc out \<and> thread_created out)"

section \<open>The screen follows the room\<close>

definition obeys :: "(u32 \<Rightarrow> u32 \<Rightarrow> bool) \<Rightarrow> display_mgr \<Rightarrow> display_event list \<Rightarrow> house \<Rightarrow> bool" where
  "obeys accepts m0 hist h \<longleftrightarrow>
     follows hist (amb h) \<and> in_step hist (amb h) \<and>
     (if ever_wanted hist then display_on (daemon h) = display_wanted hist \<and> truthful (daemon h) else daemon h = m0)"

lemma serve_calls_update:
  assumes "update_display_state d r = (d', es)"
  shows "serve_calls accepts True es m =
    (if requested_state d = (if Ambience.occupied d then 1 else 0) then m
     else set_display_on accepts (Ambience.occupied d) m)"
  using assms by (auto simp: update_display_state_def Let_def split: if_splits)

lemma wanted_ever: "display_wanted h \<Longrightarrow> ever_wanted h"
  by (cases h) (simp_all add: display_wanted_def policy_simps)

text \<open>One event heard: the slideshow and the outputs take the state the policy wants.\<close>

lemma hears_obeys:
  assumes "obeys accepts m0 hist h" "0 \<le> call_rc out" "thread_created out"
    and "\<forall>c b. accepts c b" "truthful m0"
  shows "obeys accepts m0 (e # hist) (ambience_hears accepts out reached e h)"
proof -
  have f: "follows hist (amb h)" "in_step hist (amb h)" using assms(1) by (simp_all add: obeys_def)
  note step = display_step_follows [OF f(1) assms(3), of e]
  show ?thesis
  proof (cases "heeded hist e")
    case False
    then have same: "amb (ambience_hears accepts out reached e h) = amb h"
        "daemon (ambience_hears accepts out reached e h) = daemon h"
      using step ignored_event [OF f(1) False] by (simp_all add: ambience_hears_def)
    have w: "display_wanted (e # hist) = display_wanted hist"
      using False by (auto simp: heeded_def display_wanted_def policy_simps counts_def presence_def)
    have "ever_wanted (e # hist) = ever_wanted hist" using w wanted_ever by auto
    moreover have "ambience_display_step (amb h) (e, out) = amb h" using step False by blast
    then have "follows (e # hist) (amb h)" using step by metis
    moreover have "in_step (e # hist) (amb h)" using f(2) w by (simp add: in_step_def)
    ultimately show ?thesis using assms(1) same w by (simp add: obeys_def)
  next
    case True
    obtain d where d: "\<And>r. display_event_step (panel (amb h)) e r = update_display_state d r"
        "Ambience.occupied d = display_wanted (e # hist)" "requested_state d = requested_state (panel (amb h))"
      using heeded_updates [OF f(1) True] by blast
    obtain d' es where u: "update_display_state d (call_rc out) = (d', es)" by fastforce
    have req: "requested_state d = (if display_wanted hist then 1 else 0)" using f(2) d(3) by (simp add: in_step_def)
    have dm: "daemon (ambience_hears accepts out reached e h)
        = (if display_wanted (e # hist) = display_wanted hist then daemon h
           else set_display_on accepts (display_wanted (e # hist)) (daemon h))"
      using serve_calls_update [OF u, of accepts "daemon h"] assms(2) d(1,2) u req by (simp add: ambience_hears_def)
    have am: "follows (e # hist) (amb (ambience_hears accepts out reached e h))"
        "in_step (e # hist) (amb (ambience_hears accepts out reached e h))"
      using step True assms(2) by (simp_all add: ambience_hears_def)
    have t: "truthful (daemon h)" using assms(1,5) by (auto simp: obeys_def split: if_splits)
    have "if ever_wanted (e # hist)
        then display_on (daemon (ambience_hears accepts out reached e h)) = display_wanted (e # hist) \<and>
          truthful (daemon (ambience_hears accepts out reached e h))
        else daemon (ambience_hears accepts out reached e h) = m0"
      using dm t wanted_ever assms(1) set_display_on_fields(1) [of accepts _ "daemon h"]
        set_display_on_truthful [OF assms(4) t] by (auto simp: obeys_def)
    then show ?thesis using am by (simp add: obeys_def)
  qed
qed

lemma house_run_snoc: "house_run s accepts m (evs @ [ev]) = house_step s accepts (house_run s accepts m evs) ev"
  by (simp add: house_run_def)

lemma announcement_Cons:
  "Occupancy.announcement s (r # h) = (if announced s (r # h) = announced s h then None else announced s (r # h))"
  by simp

lemma house_run_obeys:
  assumes "all_well evs" "\<forall>c b. accepts c b" "truthful m"
  shows "obeys accepts m (heard s (rev (map fst evs))) (house_run s accepts m evs) \<and>
     poller_matches s (readings_of (rev (map fst evs))) (poll (house_run s accepts m evs))"
  using assms(1)
proof (induction evs rule: rev_induct)
  case Nil
  then show ?case
    by (simp add: house_run_def house_start_def obeys_def follows_def in_step_def ambience_start_def display_calloc_def
        display_wanted_def policy_simps poller_matches_init)
next
  case (snoc ev evs)
  obtain e out reached where ev: "ev = (e, out, reached)" by (cases ev)
  define hist h where "hist = rev (map fst evs)" and "h = house_run s accepts m evs"
  have IH: "obeys accepts m (heard s hist) h" "poller_matches s (readings_of hist) (poll h)"
    using snoc by (simp_all add: all_well_def hist_def h_def)
  have well: "0 \<le> call_rc out" "thread_created out" using snoc.prems ev by (auto simp: all_well_def)
  have polled: "obeys accepts m g (h\<lparr>poll := p\<rparr>) = obeys accepts m g h" for g p by (simp add: obeys_def)
  have keeps: "poll (ambience_hears accepts out reached x g) = poll g" for x g by (simp add: ambience_hears_def)
  have "obeys accepts m (heard s (e # hist)) (house_step s accepts h ev) \<and>
      poller_matches s (readings_of (e # hist)) (poll (house_step s accepts h ev))"
  proof (cases e)
    case (Second occ far)
    obtain p cb where st: "poller_step s (poll h) (occ, far) = (p, cb)" by fastforce
    note a = poller_step_announces [OF IH(2) st]
    then have cb: "cb = Occupancy.announcement s ((occ, far) # readings_of hist)" by (simp only: announcement_Cons)
    show ?thesis
    proof (cases cb)
      case None
      then show ?thesis using a cb IH polled ev Second st by (simp add: house_step_def del: announced.simps Occupancy.announcement.simps)
    next
      case (Some od)
      obtain o1 d1 where od: "od = (o1, d1)" by (cases od)
      have hs: "house_step s accepts h ev = ambience_hears accepts out reached (Report o1 (ucast d1)) (h\<lparr>poll := p\<rparr>)"
        using ev Second st Some od by (simp add: house_step_def on_state_change_def)
      have hd: "heard s (e # hist) = Report o1 (ucast d1) # heard s hist"
        unfolding Second heard.simps cb [symmetric] Some od by simp
      have "obeys accepts m (heard s hist) (h\<lparr>poll := p\<rparr>)" using IH(1) polled by simp
      from hears_obeys [OF this well assms(2,3)] show ?thesis
        using a Second keeps unfolding hs hd by simp
    qed
  next
    case (Override on)
    then show ?thesis using hears_obeys [OF IH(1) well assms(2,3)] IH(2) keeps ev by (simp add: house_step_def)
  next
    case Sensor_Restarts
    have "obeys accepts m (heard s hist) (h\<lparr>poll := poller_init\<rparr>)" using IH(1) polled by simp
    from hears_obeys [OF this well assms(2,3)] show ?thesis
      using Sensor_Restarts keeps ev poller_matches_init by (simp add: house_step_def)
  qed
  then show ?case using ev by (simp add: house_run_snoc hist_def h_def)
qed

text \<open>
  The slideshow and the outputs follow the policy with its latch, and until the display is first
  wanted the daemon is left as it was found.
\<close>

theorem screen_follows_latch:
  assumes "all_well evs" "\<forall>c b. accepts c b" "truthful m"
    and "hist = heard s (rev (map fst evs))" "h = house_run s accepts m evs"
  shows "slideshow_on (amb h) = display_wanted hist \<and>
     (if ever_wanted hist
      then (if display_wanted hist then lit (drm (daemon h)) (kms (daemon h)) else dark (drm (daemon h)) (kms (daemon h)))
        \<and> display_on (daemon h) = display_wanted hist
      else daemon h = m)"
  using house_run_obeys [OF assms(1-3), of s]
  unfolding assms(4,5) obeys_def in_step_def truthful_def by (auto split: if_splits)



text \<open>
  Without overrides the room decides alone: the slideshow runs while presence is what was last
  announced.
\<close>

lemma heard_readings:
  assumes "\<forall>e \<in> set es. \<exists>occ far. e = Second occ far"
  shows "display_wanted (heard s es) = (\<exists>far. announced s (readings_of es) = Some (True, far)) \<and>
     decider (heard s es) \<noteq> Some Force_Off"
  using assms
proof (induction es)
  case Nil
  then show ?case by (simp add: display_wanted_def policy_simps)
next
  case (Cons e es)
  then obtain occ far where e: "e = Second occ far" by auto
  have IH: "display_wanted (heard s es) = (\<exists>far. announced s (readings_of es) = Some (True, far))"
      "decider (heard s es) \<noteq> Some Force_Off" using Cons by simp_all
  let ?a = "announced s ((occ, far) # readings_of es)"
  show ?case
  proof (cases "?a = announced s (readings_of es)")
    case True
    then show ?thesis using IH e by (simp del: announced.simps)
  next
    case False
    then have "?a \<noteq> None" using announced_stays by metis
    then obtain o1 d1 where a: "?a = Some (o1, d1)" by (cases ?a) (auto simp del: announced.simps)
    then have "heard s (e # es) = Report o1 (ucast d1) # heard s es" using False e by (simp del: announced.simps)
    then show ?thesis using IH a e by (auto simp: display_wanted_def policy_simps counts_def presence_def simp del: announced.simps)
  qed
qed

text \<open>
  A home that comes up with nobody in the room: the daemon lights the outputs when it creates the
  frame buffer, and the ambience service, which takes the display to be off, never asks for
  it to be switched off. The screen stays lit over an empty room.
\<close>

lemma vacant_never_wanted: "\<forall>e \<in> set es. \<exists>far. e = Second False far \<Longrightarrow> \<not> ever_wanted (heard s es)"
proof (induction es)
  case (Cons e es)
  then obtain far where e: "e = Second False far" by auto
  have "\<exists>far. e' = Second False far" if "e' \<in> set (e # es)" for e' using Cons.prems that by blast
  then have all: "\<forall>e' \<in> set (e # es). \<exists>occ far. e' = Second occ far" by blast
  have none: "announced s (readings_of es) \<noteq> Some (True, far)"
    if "\<forall>e \<in> set es. \<exists>far. e = Second False far" for es far
    using that
  proof (induction es arbitrary: far)
    case (Cons e es)
    then obtain x where "e = Second False x" by auto
    moreover have "announced s (readings_of es) \<noteq> Some (True, y)" for y using Cons by simp
    ultimately show ?case by (auto split: option.splits)
  qed simp
  have "\<not> display_wanted (heard s (e # es))" using heard_readings [OF all, of s] none [OF Cons.prems] by simp
  moreover have "\<not> ever_wanted (heard s es)" using Cons by simp
  ultimately show ?case using e by (auto split: option.splits)
qed simp

theorem empty_room_stays_lit:
  assumes "drm_create_framebuffer accepts fenv st k = (0, dev, k')" "\<forall>c b. accepts c b"
    and "\<forall>ev \<in> set evs. \<exists>far. fst ev = Second False far" "all_well evs"
    and "m = dbus_init (\<lambda>_. True) dev k'" "display_on m"
  shows "lit (drm (daemon (house_run s accepts m evs))) (kms (daemon (house_run s accepts m evs))) \<and>
     \<not> slideshow_on (amb (house_run s accepts m evs))"
proof -
  have lit: "lit dev k'" by (rule create_framebuffer_lit(1) [OF assms(2,1)])
  then have t: "truthful m" using assms(5,6) by (simp add: truthful_def dbus_init_def)
  have v: "\<forall>e \<in> set (rev (map fst evs)). \<exists>far. e = Second False far" using assms(3) by auto
  note o = house_run_obeys [OF assms(4,2) t, of s, THEN conjunct1]
  have nw: "\<not> display_wanted (heard s (rev (map fst evs)))"
  proof (cases "heard s (rev (map fst evs))")
    case Nil
    then show ?thesis by (simp add: display_wanted_def policy_simps)
  next
    case (Cons x xs)
    then show ?thesis using vacant_never_wanted [OF v, of s] by (metis ever_wanted.simps(2))
  qed
  show ?thesis using o vacant_never_wanted [OF v, of s] nw lit assms(5)
    by (simp add: obeys_def in_step_def dbus_init_def)
qed




end
