(* ===== verification/Spec2Isabelle.thy ===== *)
theory Spec2Isabelle
  imports Spsc_Concurrent Uart Occupancy Photo_Provider Config_Files Display_Mgr Mqtt_Bridge Eink_Meta Img_Render
    Screen Ambience_Main Bridge_Main Photo_Delivery Gpio_Mon Screen_Tools Eink_Write Sensor_Main Provider_Main Home
begin

text \<open>
  Verification of homeboardV2, the services of a home photo frame. They run as separate
  processes on a Raspberry Pi and talk over the system D-Bus; every theory below models one
  source file or a group of files that keep one state.

  \<^bold>\<open>The parts and how they interact.\<close> The occupancy service reads the LD2410S radar over a serial
  line and a GPIO pin and announces whether the room is occupied. The display manager owns the
  graphics device, lends its frame buffer to one client at a time and powers the outputs. The
  ambience service follows the occupancy signals, powers the display, and while it is on runs
  the slideshow: it asks the photo provider for the next photo (a file descriptor passed over the
  bus), decodes and renders it into the leased buffer and puts its caption on the e-ink panel.
  The photo provider keeps a ring of photos that a thread fetches from the photo server. The
  MQTT bridge turns MQTT commands into D-Bus calls on these services and their signals into MQTT
  messages.

  \<^bold>\<open>Shared theories.\<close> \<open>Prelude\<close>: the C types of the 32-bit target as words, the named collections,
  lemmas on lists, blocks of memory and words. \<open>Bytes\<close>: the little-endian codecs. \<open>C_Strings\<close>: the
  functions of the C library that parse arguments (\<^verbatim>\<open>strtol\<close>, \<^verbatim>\<open>strtoul\<close>, \<^verbatim>\<open>atoi\<close>, \<^verbatim>\<open>getopt\<close>), as documented.
  \<open>Ledger\<close>: the log of what a process acquires, uses and releases (descriptors, blocks, mappings,
  handles, threads) and its \<open>ledger\<close>, the multiset of what is held, which is undefined as soon as
  something is released that is not held. The theories that model a process from start to exit
  write this log as the code runs.

  \<^bold>\<open>Occupancy sensor\<close> (\<^verbatim>\<open>occupancy-sensor-ld2410s\<close>).
  \<^item> \<open>Spsc_Queue\<close>, \<open>Spsc_Concurrent\<close>: the lockless command queue of \<^verbatim>\<open>transport.c\<close>, as operations and as
    the interleavings of its two threads (\<open>producer_step\<close>, \<open>consumer_step\<close>, one step per load or
    store). The lemmas show a FIFO refinement, also when the 32-bit counters wrap, and that no
    slot is written while it is read.
  \<^item> \<open>Transport\<close>: the receive buffer, the frame parser and one pass of the reader thread
    (\<open>parse_buffer\<close>, \<open>reader_iteration\<close>); every access to the buffer is an \<open>option\<close>, \<open>None\<close> when out of
    bounds. The lemmas: no access leaves it, commands keep their order, one at a time is in
    flight, frames are decoded as they were encoded.
  \<^item> \<open>Session\<close>, \<open>Uart\<close>: request and response over the transport (\<open>session_cmd\<close>) and the typed commands
    and reports over it; the answers of the reader thread and the returns of the timed waits are
    inputs of each exchange.
  \<^item> \<open>Occupancy\<close>: the poller of \<^verbatim>\<open>ld2410s.c\<close> that merges both detectors, and the main loop with the
    daily calibration; a loop is a fold over the readings it takes.
  \<^item> \<open>Sensor_Main\<close>: the life of the service: the constructors and destructors of the four layers as
    nested interpretations of \<open>device_handle\<close>, the error path of each, and \<open>occupancy_main\<close>, which
    gives back all it took except in the cases the theorem names.

  \<^bold>\<open>Photo provider\<close> (\<^verbatim>\<open>photo-provider\<close>).
  \<^item> \<open>Photo_Cache\<close>: the ring of \<^verbatim>\<open>cache.c\<close> with its generation counter and the descriptors it owns; it
    refines a deck of photos with a cursor, and closes each descriptor once.
  \<^item> \<open>Www_Session\<close>: validation and registration of the settings, the collected body of a download.
  \<^item> \<open>Photo_Provider\<close>: the setters, the fetching thread and the D-Bus readers interleaved.
  \<^item> \<open>Photo_Delivery\<close>: how a photo gets to its reader: the body written to a memory file, the methods
    of \<^verbatim>\<open>dbus.c\<close>, and \<^verbatim>\<open>photo-provider-cli\<close>, which copies the file out. The copy has the bytes of
    the download whatever the sizes of the partial reads and writes, unless another delivery of the
    photo rewinds the offset the readers share.
  \<^item> \<open>Bus_Service\<close>, \<open>Provider_Main\<close>: the object on the bus, the requests to the server with their
    buffers and handles, and the life of the provider from start to exit.

  \<^bold>\<open>Ambience\<close> (\<^verbatim>\<open>ambience\<close>, \<^verbatim>\<open>lib/jpeg_render\<close>, \<^verbatim>\<open>lib/eink\<close>, \<^verbatim>\<open>lib/rpigpio\<close>).
  \<^item> \<open>Ambience\<close>: the display policy of \<^verbatim>\<open>display.c\<close>, the name watches of \<^verbatim>\<open>dbus_helpers.c\<close>, announcements
    and the overlay of \<^verbatim>\<open>main.c\<close>, which draws a pending announcement through \<open>Text_Layout\<close> (and so can
    leave its text), or drops it when Cairo gives it no usable surface. The code follows the comment
    on \<^verbatim>\<open>force_off_latched\<close> and not the one in \<^verbatim>\<open>display.h\<close>: where the two differ, after a forced off, the
    properties make no claim.
  \<^item> \<open>Slideshow\<close>: the worker thread of \<^verbatim>\<open>slideshow.c\<close> with its semaphore and its atomics, as a step
    relation over the worker and the callers.
  \<^item> \<open>Jpeg_Loader\<close>, \<open>Img_Render\<close>: decoding and scaling a photo; buffers have their allocated size, an
    access outside is \<open>None\<close>, and the results are shown never to be \<open>None\<close>.
  \<^item> \<open>Text_Layout\<close>, \<open>Rpigpio\<close>, \<open>Eink\<close>, \<open>Eink_Meta\<close>: word wrapping, the GPIO and SPI devices with the
    ledger of what is held, the e-ink panel, and the captions.
  \<^item> \<open>Ambience_Life\<close>: what slideshow, display controller and name watches hold from their start to
    their end, and what they never give back (the replies \<^verbatim>\<open>is_service_up\<close> and \<^verbatim>\<open>display_free\<close> keep).
  \<^item> \<open>Ambience_Main\<close>: the methods of \<^verbatim>\<open>dbus.c\<close> and the life of the service from start to exit.

  \<^bold>\<open>Display manager, bridge, configuration.\<close> \<open>Display_Mgr\<close>: start-up, power and lease. \<open>Mqtt_Bridge\<close>:
  topics, the decoding of the commands, the publications with the answer of the library, the pace
  of the reconnections. \<open>Bridge_Main\<close>: the queue of events, the signals of the bus, one iteration of
  the loop and the process around it; a publication that fails is lost.
  \<open>Config_Files\<close>: the three loaders of JSON files.

  \<^bold>\<open>Lease client and tools.\<close> \<open>Drm_Client\<close>: \<^verbatim>\<open>lib/drm_mgr\<close>, which asks for the frame buffer and maps it.
  \<open>Screen_Tools\<close>: \<^verbatim>\<open>show-img\<close>, \<^verbatim>\<open>drm-render-test\<close> and \<^verbatim>\<open>display-ctrl\<close>. \<open>Gpio_Mon\<close>: \<^verbatim>\<open>gpiomon\<close>. \<open>Eink_Write\<close>:
  \<^verbatim>\<open>eink-write\<close>.

  \<^bold>\<open>Compositions.\<close> \<open>Lease\<close>: any number of lease clients and the display manager interleaved: the
  buffer is mapped by one client at most, counting every mapping in the log of each, as long as none
  asks again while it holds it, and a client that dies frees it. \<open>Screen\<close>: decoder,
  renderer, overlay, lease and display manager: the photo that was decoded is what the outputs
  scan out. \<open>Home\<close>: occupancy, ambience and display manager: from a change in the room to the power
  of the outputs, across restarts of the services.

  \<^bold>\<open>Parameters.\<close> Code that is not in the repository is an argument of the definitions that use it:
  the answers of the kernel (\<open>kernel\<close>, \<open>drm_env\<close>, \<open>fb_env\<close>), libjpeg (\<open>jpeg_env\<close>), json-c (\<open>json_api\<close>,
  \<open>meta_json\<close>), the replies of the bus and of libcurl, cairo's metrics and painting, and the
  rounding of \<^verbatim>\<open>float\<close> (\<open>float_rounding\<close> holds the IEEE laws the renderer needs). Where a law is needed
  it is a premise of the theorem, and a witness has a concrete instance.

  \<^bold>\<open>Interfaces.\<close> Each locale states what a client relies on, and is interpreted on the model of
  the code that provides it: the queue under the transport, the command channel under the
  session, the deck under the photo provider, and \<open>device_handle\<close>, an open and a close that
  balance, under the e-ink panel, the tools and each layer of the occupancy service.

  \<^bold>\<open>Bounds and fuel.\<close> Loops are structural recursions or have a termination proof. Where a C loop
  runs until it is told to stop (the threads, the main loops), the model runs it over a list of
  inputs of any length, or is a step relation, so no fuel is chosen.

  \<^bold>\<open>Not modelled.\<close> Logging and what is printed for a person to read, except where a tool's output
  is its result; the tables that register objects and methods with sd-bus, which name the
  operations modelled here; what the libraries behind the parameters do inside; a \<^verbatim>\<open>strdup\<close> that runs
  out of memory; Cairo's error objects on the e-ink panel, where the code tests for null pointers;
  \<^verbatim>\<open>xcompile-test\<close>, which prints one line to check the tool chain.
\<close>

end
